(* ===== verification/Prelude.thy ===== *)
theory Prelude
  imports Main "HOL-Library.Word" "HOL-Library.Multiset"
begin

text \<open>
  Shared vocabulary of the development: Python exceptions as values, the result
  type every fallible operation returns, the byte strings that block hashes are,
  the rounding helper \<open>cdiv\<close>, and the list lemmas several components use.
  An operation that raises returns \<open>Inl\<close> of the exception; the state reached
  before the exception is not part of the result.
\<close>

named_theorems res_simps \<open>evaluation of the result type\<close>

section \<open>Exceptions and results\<close>

datatype py_error =
    ValueError
  | RuntimeError
  | AssertionError
  | IndexError
  | KeyError
  | OverflowError
  | ZeroDivisionError
  | NotImplementedError
  | StopIteration
  | AttributeError

type_synonym 'a res = "py_error + 'a"

definition rbind :: "'a res \<Rightarrow> ('a \<Rightarrow> 'b res) \<Rightarrow> 'b res" where
  "rbind m f = (case m of Inl e \<Rightarrow> Inl e | Inr x \<Rightarrow> f x)"

definition rassert :: "bool \<Rightarrow> 'a res \<Rightarrow> 'a res" where
  "rassert b m = (if b then m else Inl AssertionError)"

lemma rbind_Inl [simp, res_simps]: "rbind (Inl e) f = Inl e"
  by (simp add: rbind_def)

lemma rbind_Inr [simp, res_simps]: "rbind (Inr x) f = f x"
  by (simp add: rbind_def)

lemma rassert_True [simp, res_simps]: "rassert True m = m"
  by (simp add: rassert_def)

lemma rassert_False [simp, res_simps]: "rassert False m = Inl AssertionError"
  by (simp add: rassert_def)

lemma rbind_eq_Inr_iff: "rbind m f = Inr y \<longleftrightarrow> (\<exists>x. m = Inr x \<and> f x = Inr y)"
  by (cases m) auto

lemma rbind_eq_Inl_iff: "rbind m f = Inl e \<longleftrightarrow> m = Inl e \<or> (\<exists>x. m = Inr x \<and> f x = Inl e)"
  by (cases m) auto

lemma rassert_eq_Inr_iff: "rassert b m = Inr y \<longleftrightarrow> b \<and> m = Inr y"
  by (cases b) auto

lemma rbind_assoc: "rbind (rbind m f) g = rbind m (\<lambda>x. rbind (f x) g)"
  by (cases m) auto

text \<open>A loop whose body may raise, threading a state through a list.\<close>

fun rfold :: "('a \<Rightarrow> 's \<Rightarrow> 's res) \<Rightarrow> 'a list \<Rightarrow> 's \<Rightarrow> 's res" where
  "rfold f [] s = Inr s"
| "rfold f (x # xs) s = rbind (f x s) (rfold f xs)"

lemma rfold_append: "rfold f (xs @ ys) s = rbind (rfold f xs s) (rfold f ys)"
  by (induction xs arbitrary: s) (simp_all add: rbind_def split: sum.splits)

lemma rfold_invariant:
  assumes "rfold f xs s = Inr s'" and "P s"
    and "\<And>x s s'. x \<in> set xs \<Longrightarrow> P s \<Longrightarrow> f x s = Inr s' \<Longrightarrow> P s'"
  shows "P s'"
  using assms
proof (induction xs arbitrary: s)
  case Nil
  then show ?case by simp
next
  case (Cons x xs)
  from Cons.prems(1) obtain t where t: "f x s = Inr t" "rfold f xs t = Inr s'"
    by (auto simp: rbind_eq_Inr_iff)
  have "P t" by (rule Cons.prems(3) [OF _ Cons.prems(2) t(1)]) simp
  then show ?case
    by (rule Cons.IH [OF t(2)]) (meson Cons.prems(3) list.set_intros(2))
qed

text \<open>A list built by a body that may raise.\<close>

fun rmap :: "('a \<Rightarrow> 'b res) \<Rightarrow> 'a list \<Rightarrow> 'b list res" where
  "rmap f [] = Inr []"
| "rmap f (x # xs) = rbind (f x) (\<lambda>y. rbind (rmap f xs) (\<lambda>ys. Inr (y # ys)))"

lemma rmap_eq_Inr_iff: "rmap f xs = Inr ys \<longleftrightarrow> list_all2 (\<lambda>x y. f x = Inr y) xs ys"
  by (induction xs arbitrary: ys) (auto simp: rbind_eq_Inr_iff list_all2_Cons1)

lemma rmap_map: "(\<And>x. x \<in> set xs \<Longrightarrow> f x = Inr (g x)) \<Longrightarrow> rmap f xs = Inr (map g xs)"
  by (induction xs) auto

text \<open>\<^verbatim>\<open>xs[i]\<close> with Python's negative indices.\<close>

definition py_index :: "'a list \<Rightarrow> int \<Rightarrow> 'a res" where
  "py_index xs i =
     (if 0 \<le> i \<and> i < int (length xs) then Inr (xs ! nat i)
      else if - int (length xs) \<le> i \<and> i < 0 then Inr (xs ! nat (int (length xs) + i))
      else Inl IndexError)"

text \<open>\<^verbatim>\<open>xs[i] = v\<close>.\<close>

definition py_set :: "'a list \<Rightarrow> int \<Rightarrow> 'a \<Rightarrow> 'a list res" where
  "py_set xs i v =
     (if 0 \<le> i \<and> i < int (length xs) then Inr (xs[nat i := v])
      else if - int (length xs) \<le> i \<and> i < 0 then Inr (xs[nat (int (length xs) + i) := v])
      else Inl IndexError)"

lemma py_index_nth: "0 \<le> i \<Longrightarrow> i < int (length xs) \<Longrightarrow> py_index xs i = Inr (xs ! nat i)"
  by (simp add: py_index_def)

text \<open>\<^verbatim>\<open>xs[a:b]\<close> and \<^verbatim>\<open>xs[a:]\<close>: bounds are clamped, negative bounds count from the end.\<close>

definition slice_bound :: "int \<Rightarrow> int \<Rightarrow> int" where
  "slice_bound n i = (if i < 0 then max 0 (n + i) else min i n)"

definition py_slice :: "'a list \<Rightarrow> int \<Rightarrow> int \<Rightarrow> 'a list" where
  "py_slice xs a b =
     (let n = int (length xs); s = slice_bound n a; e = slice_bound n b
      in take (nat (e - s)) (drop (nat s) xs))"

definition py_from :: "'a list \<Rightarrow> int \<Rightarrow> 'a list" where
  "py_from xs a = drop (nat (slice_bound (int (length xs)) a)) xs"

lemma py_slice_nonneg: "0 \<le> a \<Longrightarrow> 0 \<le> b \<Longrightarrow> py_slice xs a b = take (nat (b - a)) (drop (nat a) xs)"
  by (auto simp: py_slice_def slice_bound_def Let_def min_def nat_diff_distrib intro: take_all)

lemma py_from_nonneg: "0 \<le> a \<Longrightarrow> py_from xs a = drop (nat a) xs"
  by (auto simp: py_from_def slice_bound_def min_def)

lemma upto_map_int: "[int m..int n - 1] = map int [m..<n]"
  by (rule nth_equalityI) auto

text \<open>A Python set of small integers filled by \<^verbatim>\<open>add\<close>, listed in the order of first insertion.\<close>

definition set_add :: "'a \<Rightarrow> 'a list \<Rightarrow> 'a list" where
  "set_add x xs = (if x \<in> set xs then xs else xs @ [x])"

lemma set_add_simps [simp]:
  "set (set_add x xs) = insert x (set xs)" "distinct (set_add x xs) = distinct xs"
  by (auto simp: set_add_def)

lemma fold_set_add:
  "set (fold set_add xs ys) = set xs \<union> set ys" "distinct (fold set_add xs ys) = distinct ys"
  by (induction xs arbitrary: ys) auto

section \<open>Byte strings\<close>

type_synonym byte = "8 word"
type_synonym bytes = "byte list"

section \<open>Arithmetic\<close>

text \<open>\<^verbatim>\<open>vllm/utils/math_utils.py\<close>: \<^verbatim>\<open>cdiv(a, b) = -(a // -b)\<close>. Divisors are block sizes and
  bundle sizes, which are positive wherever the code calls it.\<close>

definition cdiv :: "int \<Rightarrow> int \<Rightarrow> int" where
  "cdiv a b = - (a div (- b))"

lemma int_le_div_iff: "0 < b \<Longrightarrow> k \<le> a div b \<longleftrightarrow> k * b \<le> (a::int)"
proof
  assume b: "0 < b" and k: "k \<le> a div b"
  have "k * b \<le> a div b * b" using b k by (intro mult_right_mono) auto
  also have "\<dots> \<le> a"
    using b pos_mod_sign [of b a] div_mult_mod_eq [of a b] by linarith
  finally show "k * b \<le> a" .
next
  assume b: "0 < b" and k: "k * b \<le> a"
  have "(k * b) div b \<le> a div b" using b k by (rule zdiv_mono1 [rotated])
  then show "k \<le> a div b" using b by simp
qed

lemma cdiv_le_iff: "0 < b \<Longrightarrow> cdiv a b \<le> k \<longleftrightarrow> a \<le> k * b"
proof -
  assume b: "0 < b"
  have "cdiv a b = - ((- a) div b)"
    unfolding cdiv_def by (metis div_minus_minus minus_minus)
  then have "cdiv a b \<le> k \<longleftrightarrow> - k \<le> (- a) div b" by linarith
  also have "\<dots> \<longleftrightarrow> - k * b \<le> - a" by (rule int_le_div_iff [OF b])
  also have "\<dots> \<longleftrightarrow> a \<le> k * b" by simp
  finally show ?thesis .
qed

lemma cdiv_mult_ge: "0 < b \<Longrightarrow> a \<le> cdiv a b * b"
  using cdiv_le_iff [of b a "cdiv a b"] by simp

lemma cdiv_mult_less: "0 < b \<Longrightarrow> (cdiv a b - 1) * b < a"
  using cdiv_le_iff [of b a "cdiv a b - 1"] by linarith

lemma cdiv_nonneg: "0 < b \<Longrightarrow> 0 \<le> a \<Longrightarrow> 0 \<le> cdiv a b"
  using cdiv_le_iff [of b a "-1"] by (auto simp: not_le [symmetric])

lemma cdiv_mono: "0 < b \<Longrightarrow> a \<le> a' \<Longrightarrow> cdiv a b \<le> cdiv a' b"
  using cdiv_le_iff [of b a "cdiv a' b"] cdiv_mult_ge [of b a'] by linarith

lemma cdiv_mult_self: "0 < b \<Longrightarrow> cdiv (k * b) b = k"
proof -
  assume b: "0 < b"
  have "cdiv (k * b) b \<le> k" using b by (simp add: cdiv_le_iff)
  moreover have "k \<le> cdiv (k * b) b"
    using cdiv_mult_ge [OF b, of "k * b"] b by simp
  ultimately show ?thesis by simp
qed

end
