(* ===== verification/Free_Queue.thy ===== *)
theory Free_Queue
  imports Prelude
begin

text \<open>
  \<^verbatim>\<open>vllm/v1/core/kv_cache_utils.py\<close>: the block metadata \<^verbatim>\<open>KVCacheBlock\<close> and the
  intrusive doubly linked list \<^verbatim>\<open>FreeKVCacheBlockQueue\<close> that threads the free blocks
  of a pool. Block objects are references into a store; the two sentinel blocks of
  a queue are the references \<open>FakeHead\<close> and \<open>FakeTail\<close>. The queue operations
  mutate the link fields of the referenced blocks, exactly in the order of the source.
  The section on the abstract list shows that, on a well-formed queue, they implement
  the operations of a list without repetitions, and that every link is determined by
  that list.
\<close>

section \<open>Blocks and references\<close>

datatype blk = Blk nat | FakeHead | FakeTail

record kv_block =
  block_id :: int
  ref_cnt :: int
  block_hash :: "bytes option"
  prev_free_block :: "blk option"
  next_free_block :: "blk option"
  is_null :: bool

type_synonym block_store = "blk \<Rightarrow> kv_block"

definition KVCacheBlock :: "int \<Rightarrow> kv_block" where
  "KVCacheBlock i = \<lparr>block_id = i, ref_cnt = 0, block_hash = None,
     prev_free_block = None, next_free_block = None, is_null = False\<rparr>"

text \<open>The property setter of \<^verbatim>\<open>block_hash\<close> refuses to overwrite a hash.\<close>

definition set_block_hash :: "bytes \<Rightarrow> kv_block \<Rightarrow> kv_block res" where
  "set_block_hash k b = rassert (block_hash b = None) (Inr (b\<lparr>block_hash := Some k\<rparr>))"

definition reset_hash :: "kv_block \<Rightarrow> kv_block" where
  "reset_hash b = b\<lparr>block_hash := None\<rparr>"

section \<open>The queue\<close>

record free_queue =
  store :: block_store
  num_free_blocks :: int

definition set_prev :: "blk \<Rightarrow> blk option \<Rightarrow> block_store \<Rightarrow> block_store" where
  "set_prev b v h = h(b := (h b)\<lparr>prev_free_block := v\<rparr>)"

definition set_next :: "blk \<Rightarrow> blk option \<Rightarrow> block_store \<Rightarrow> block_store" where
  "set_next b v h = h(b := (h b)\<lparr>next_free_block := v\<rparr>)"

text \<open>\<^verbatim>\<open>__init__\<close>: link consecutive blocks, then the sentinels.\<close>

definition init_link :: "blk list \<Rightarrow> nat \<Rightarrow> block_store \<Rightarrow> block_store" where
  "init_link bs i h =
     (let h1 = (if 0 < i then set_prev (bs ! i) (Some (bs ! (i - 1))) h else h)
      in if i < length bs - 1 then set_next (bs ! i) (Some (bs ! (i + 1))) h1 else h1)"

definition FreeKVCacheBlockQueue :: "blk list \<Rightarrow> block_store \<Rightarrow> free_queue" where
  "FreeKVCacheBlockQueue bs h =
     (let h1 = fold (init_link bs) [0..<length bs] h;
          h2 = h1(FakeHead := KVCacheBlock (- 1), FakeTail := KVCacheBlock (- 1));
          h3 = (if bs \<noteq> []
                then set_next (last bs) (Some FakeTail)
                       (set_prev FakeTail (Some (last bs))
                         (set_prev (hd bs) (Some FakeHead)
                           (set_next FakeHead (Some (hd bs)) h2)))
                else set_prev FakeTail (Some FakeHead) (set_next FakeHead (Some FakeTail) h2))
      in \<lparr>store = h3, num_free_blocks = int (length bs)\<rparr>)"

definition popleft :: "free_queue \<Rightarrow> (blk \<times> free_queue) res" where
  "popleft q =
     (case next_free_block (store q FakeHead) of
        None \<Rightarrow> rassert (num_free_blocks q = 0) (Inl ValueError)
      | Some first_block \<Rightarrow>
          if first_block = FakeTail then rassert (num_free_blocks q = 0) (Inl ValueError)
          else (case next_free_block (store q first_block) of
             None \<Rightarrow> Inl RuntimeError
           | Some second \<Rightarrow>
               (let h1 = set_next FakeHead (Some second) (store q);
                    h2 = set_prev second (Some FakeHead) h1;
                    h3 = set_next first_block None (set_prev first_block None h2)
                in Inr (first_block, q\<lparr>store := h3, num_free_blocks := num_free_blocks q - 1\<rparr>))))"

fun popleft_loop ::
  "nat \<Rightarrow> blk option \<Rightarrow> block_store \<Rightarrow> (blk list \<times> blk option \<times> block_store) res" where
  "popleft_loop 0 cur h = Inr ([], cur, h)"
| "popleft_loop (Suc k) cur h =
     (case cur of
        None \<Rightarrow> Inl AssertionError
      | Some b \<Rightarrow>
          rbind (popleft_loop k (next_free_block (h b)) (set_next b None (set_prev b None h)))
            (\<lambda>(ret, cur', h'). Inr (b # ret, cur', h')))"

definition popleft_n :: "int \<Rightarrow> free_queue \<Rightarrow> (blk list \<times> free_queue) res" where
  "popleft_n n q =
     (if n = 0 then Inr ([], q)
      else rassert (n \<le> num_free_blocks q)
        (rbind (popleft_loop (nat n) (next_free_block (store q FakeHead)) (store q))
          (\<lambda>(ret, cur, h).
             let h' = (case cur of
                         None \<Rightarrow> h
                       | Some c \<Rightarrow> set_prev c (Some FakeHead) (set_next FakeHead (Some c) h))
             in Inr (ret, q\<lparr>store := h', num_free_blocks := num_free_blocks q - n\<rparr>))))"

definition remove_block :: "blk \<Rightarrow> free_queue \<Rightarrow> free_queue res" where
  "remove_block b q =
     (case (prev_free_block (store q b), next_free_block (store q b)) of
        (Some p, Some n) \<Rightarrow>
          (let h1 = set_next p (Some n) (store q);
               h2 = set_prev n (Some p) h1;
               h3 = set_next b None (set_prev b None h2)
           in Inr (q\<lparr>store := h3, num_free_blocks := num_free_blocks q - 1\<rparr>))
      | _ \<Rightarrow> Inl RuntimeError)"

definition append_block :: "blk \<Rightarrow> free_queue \<Rightarrow> free_queue res" where
  "append_block b q =
     (case prev_free_block (store q FakeTail) of
        None \<Rightarrow> Inl RuntimeError
      | Some last_block \<Rightarrow>
          (let h1 = set_next last_block (Some b) (store q);
               h2 = set_prev b (Some last_block) h1;
               h3 = set_next b (Some FakeTail) h2;
               h4 = set_prev FakeTail (Some b) h3
           in Inr (q\<lparr>store := h4, num_free_blocks := num_free_blocks q + 1\<rparr>)))"

fun append_loop :: "blk list \<Rightarrow> blk \<Rightarrow> block_store \<Rightarrow> blk \<times> block_store" where
  "append_loop [] last_block h = (last_block, h)"
| "append_loop (b # bs) last_block h =
     append_loop bs b (set_next last_block (Some b) (set_prev b (Some last_block) h))"

definition append_n :: "blk list \<Rightarrow> free_queue \<Rightarrow> free_queue res" where
  "append_n bs q =
     (if bs = [] then Inr q
      else (case prev_free_block (store q FakeTail) of
          None \<Rightarrow> Inl AssertionError
        | Some last_block \<Rightarrow>
            (let (l, h1) = append_loop bs last_block (store q);
                 h2 = set_next l (Some FakeTail) h1;
                 h3 = set_prev FakeTail (Some l) h2
             in Inr (q\<lparr>store := h3, num_free_blocks := num_free_blocks q + int (length bs)\<rparr>))))"

text \<open>The walk of \<^verbatim>\<open>get_all_free_blocks\<close>; on a cyclic chain the loop of the source does
  not end, which is the outer \<open>None\<close>.\<close>

partial_function (option) walk :: "block_store \<Rightarrow> blk \<Rightarrow> blk list \<Rightarrow> blk list option" where
  "walk h cur ret =
     (case next_free_block (h cur) of
        None \<Rightarrow> Some ret
      | Some n \<Rightarrow> walk h n (ret @ [cur]))"

definition get_all_free_blocks :: "free_queue \<Rightarrow> blk list res option" where
  "get_all_free_blocks q =
     (case next_free_block (store q FakeHead) of
        None \<Rightarrow> Some (Inl RuntimeError)
      | Some cur \<Rightarrow> map_option Inr (walk (store q) cur []))"

section \<open>The abstract list\<close>

text \<open>\<open>linked h cs\<close>: consecutive references of \<open>cs\<close> point at each other.\<close>

fun linked :: "block_store \<Rightarrow> blk list \<Rightarrow> bool" where
  "linked h [] \<longleftrightarrow> True"
| "linked h [a] \<longleftrightarrow> True"
| "linked h (a # b # cs) \<longleftrightarrow>
     next_free_block (h a) = Some b \<and> prev_free_block (h b) = Some a \<and> linked h (b # cs)"

definition real_block :: "blk \<Rightarrow> bool" where
  "real_block b \<longleftrightarrow> b \<noteq> FakeHead \<and> b \<noteq> FakeTail"

definition unlinked :: "kv_block \<Rightarrow> bool" where
  "unlinked b \<longleftrightarrow> prev_free_block b = None \<and> next_free_block b = None"

definition fq_repr :: "free_queue \<Rightarrow> blk list \<Rightarrow> bool" where
  "fq_repr q xs \<longleftrightarrow>
     linked (store q) (FakeHead # xs @ [FakeTail]) \<and> distinct xs \<and>
     (\<forall>b\<in>set xs. real_block b) \<and> num_free_blocks q = int (length xs) \<and>
     prev_free_block (store q FakeHead) = None \<and> next_free_block (store q FakeTail) = None \<and>
     (\<forall>b. real_block b \<and> b \<notin> set xs \<longrightarrow> unlinked (store q b))"

text \<open>What a block carries beside its links, and that an operation keeps it.\<close>

definition payload :: "kv_block \<Rightarrow> kv_block" where
  "payload b = b\<lparr>prev_free_block := None, next_free_block := None\<rparr>"

definition payload_eq :: "free_queue \<Rightarrow> free_queue \<Rightarrow> bool" where
  "payload_eq q q' \<longleftrightarrow> (\<forall>b. payload (store q' b) = payload (store q b))"

lemma real_block_simps [simp]:
  "real_block (Blk n)" "\<not> real_block FakeHead" "\<not> real_block FakeTail"
  by (simp_all add: real_block_def)

lemma payload_simps [simp]:
  "payload (b\<lparr>prev_free_block := v\<rparr>) = payload b"
  "payload (b\<lparr>next_free_block := v\<rparr>) = payload b"
  by (simp_all add: payload_def)

lemma set_prev_apply [simp]:
  "set_prev b v h c = (if c = b then (h c)\<lparr>prev_free_block := v\<rparr> else h c)"
  by (simp add: set_prev_def)

lemma set_next_apply [simp]:
  "set_next b v h c = (if c = b then (h c)\<lparr>next_free_block := v\<rparr> else h c)"
  by (simp add: set_next_def)

lemma linked_cong:
  assumes "\<And>a. a \<in> set (butlast cs) \<Longrightarrow> next_free_block (h' a) = next_free_block (h a)"
    and "\<And>b. b \<in> set (tl cs) \<Longrightarrow> prev_free_block (h' b) = prev_free_block (h b)"
  shows "linked h' cs = linked h cs"
  using assms by (induction h cs rule: linked.induct) auto

lemma linked_append:
  "A \<noteq> [] \<Longrightarrow> Z \<noteq> [] \<Longrightarrow> linked h (A @ Z) \<longleftrightarrow>
     linked h A \<and> linked h Z \<and>
     next_free_block (h (last A)) = Some (hd Z) \<and> prev_free_block (h (hd Z)) = Some (last A)"
proof (induction h A rule: linked.induct)
  case (2 h a)
  then show ?case by (cases Z) auto
qed auto

lemma linked_same_links:
  "linked h cs \<Longrightarrow> linked h' cs \<Longrightarrow>
     (\<forall>a\<in>set (butlast cs). next_free_block (h' a) = next_free_block (h a)) \<and>
     (\<forall>b\<in>set (tl cs). prev_free_block (h' b) = prev_free_block (h b))"
  by (induction h cs rule: linked.induct) auto

text \<open>The links of a well-formed queue are a function of its abstract list.\<close>

lemma kv_block_eqI:
  assumes "payload b = payload (c :: kv_block)" and "prev_free_block b = prev_free_block c"
    and "next_free_block b = next_free_block c"
  shows "b = c"
  using assms by (cases b; cases c) (simp add: payload_def)

lemma fq_repr_determines:
  assumes "fq_repr q xs" and "fq_repr q' xs" and "payload_eq q q'"
  shows "q' = q"
proof -
  have links: "(\<forall>a\<in>set (FakeHead # xs). next_free_block (store q' a) = next_free_block (store q a)) \<and>
     (\<forall>b\<in>set (xs @ [FakeTail]). prev_free_block (store q' b) = prev_free_block (store q b))"
    using linked_same_links [of "store q" "FakeHead # xs @ [FakeTail]" "store q'"] assms(1,2)
    by (simp add: fq_repr_def butlast_append)
  have "store q' b = store q b" for b
  proof (rule kv_block_eqI)
    show "payload (store q' b) = payload (store q b)"
      using assms(3) by (simp add: payload_eq_def)
    show "prev_free_block (store q' b) = prev_free_block (store q b)"
      using links assms(1,2) by (cases "real_block b") (auto simp: fq_repr_def unlinked_def real_block_def)
    show "next_free_block (store q' b) = next_free_block (store q b)"
      using links assms(1,2) by (cases "real_block b") (auto simp: fq_repr_def unlinked_def real_block_def)
  qed
  then have "store q' = store q" by blast
  moreover have "num_free_blocks q' = num_free_blocks q"
    using assms(1,2) by (simp add: fq_repr_def)
  ultimately show ?thesis by simp
qed

subsection \<open>Traversal\<close>

lemma walk_linked:
  "linked h (c # xs @ [FakeTail]) \<Longrightarrow> next_free_block (h FakeTail) = None \<Longrightarrow>
     FakeTail \<notin> set (c # xs) \<Longrightarrow> walk h c ret = Some (ret @ c # xs)"
proof (induction xs arbitrary: c ret)
  case Nil
  then show ?case by (simp add: walk.simps [of h c] walk.simps [of h FakeTail])
next
  case (Cons x xs)
  then show ?case by (simp add: walk.simps [of h c])
qed

lemma get_all_free_blocks_repr:
  assumes "fq_repr q xs"
  shows "get_all_free_blocks q = Some (Inr xs)"
proof (cases xs)
  case Nil
  with assms show ?thesis
    by (simp add: get_all_free_blocks_def fq_repr_def walk.simps [of _ FakeTail])
next
  case (Cons x ys)
  with assms show ?thesis
    by (auto simp: get_all_free_blocks_def fq_repr_def walk_linked real_block_def)
qed

lemma fq_repr_unique: "fq_repr q xs \<Longrightarrow> fq_repr q ys \<Longrightarrow> xs = ys"
  by (metis get_all_free_blocks_repr option.inject sum.inject(2))

subsection \<open>Operations on the abstract list\<close>

text \<open>Joining two chains: only the links at the seam may change.\<close>

lemma linked_splice:
  assumes "linked h A" and "linked h Z" and "A \<noteq> []" and "Z \<noteq> []" and "distinct (A @ Z)"
    and next_eq: "\<And>a. a \<in> set (A @ Z) \<Longrightarrow> a \<noteq> last A \<Longrightarrow> a \<noteq> last Z \<Longrightarrow>
      next_free_block (h' a) = next_free_block (h a)"
    and prev_eq: "\<And>b. b \<in> set (A @ Z) \<Longrightarrow> b \<noteq> hd Z \<Longrightarrow> b \<noteq> hd A \<Longrightarrow>
      prev_free_block (h' b) = prev_free_block (h b)"
    and "next_free_block (h' (last A)) = Some (hd Z)"
    and "prev_free_block (h' (hd Z)) = Some (last A)"
  shows "linked h' (A @ Z)"
proof -
  have last_butlast: "a \<noteq> last xs" if "a \<in> set (butlast xs)" "distinct xs" for a :: blk and xs
    using that by (metis append_butlast_last_id butlast.simps(1) distinct_append
        empty_iff empty_set not_distinct_conv_prefix)
  have hd_tl: "b \<noteq> hd xs" if "b \<in> set (tl xs)" "distinct xs" for b :: blk and xs
    using that by (cases xs) auto
  have "linked h' A = linked h A"
  proof (rule linked_cong)
    fix a assume a: "a \<in> set (butlast A)"
    moreover have "a \<noteq> last Z" using a assms(4,5) by (auto dest!: in_set_butlastD dest: last_in_set)
    ultimately show "next_free_block (h' a) = next_free_block (h a)"
      using next_eq [of a] last_butlast [of a A] assms(5) by (auto dest: in_set_butlastD)
  next
    fix b assume b: "b \<in> set (tl A)"
    then have "b \<in> set A" using assms(3) by (metis list.set_sel(2))
    moreover from this have "b \<noteq> hd Z" using assms(4,5) by auto
    ultimately show "prev_free_block (h' b) = prev_free_block (h b)"
      using prev_eq [of b] hd_tl [of b A] b assms(5) by auto
  qed
  moreover have "linked h' Z = linked h Z"
  proof (rule linked_cong)
    fix a assume a: "a \<in> set (butlast Z)"
    moreover have "a \<noteq> last A" using a assms(3,5) by (auto dest!: in_set_butlastD dest: last_in_set)
    ultimately show "next_free_block (h' a) = next_free_block (h a)"
      using next_eq [of a] last_butlast [of a Z] assms(5) by (auto dest: in_set_butlastD)
  next
    fix b assume b: "b \<in> set (tl Z)"
    then have "b \<in> set Z" using assms(4) by (metis list.set_sel(2))
    moreover from this have "b \<noteq> hd A" using assms(3,5)
      by (metis disjoint_iff distinct_append hd_in_set)
    ultimately show "prev_free_block (h' b) = prev_free_block (h b)"
      using prev_eq [of b] hd_tl [of b Z] b assms(5) by auto
  qed
  ultimately show ?thesis using assms by (simp add: linked_append)
qed

text \<open>A queue assembled from a chain: the shape all operations produce.\<close>

lemma fq_reprI:
  assumes "linked h (FakeHead # xs @ [FakeTail])" and "distinct xs" and "\<forall>b\<in>set xs. real_block b"
    and "n = int (length xs)" and "prev_free_block (h FakeHead) = None"
    and "next_free_block (h FakeTail) = None"
    and "\<And>b. real_block b \<Longrightarrow> b \<notin> set xs \<Longrightarrow> unlinked (h b)"
  shows "fq_repr (q\<lparr>store := h, num_free_blocks := n\<rparr>) xs"
  using assms by (simp add: fq_repr_def)

lemma fq_repr_chain:
  assumes "fq_repr q (ys @ zs)"
  shows "linked (store q) (FakeHead # ys)" "linked (store q) (zs @ [FakeTail])"
    "next_free_block (store q (last (FakeHead # ys))) = Some (hd (zs @ [FakeTail]))"
    "prev_free_block (store q (hd (zs @ [FakeTail]))) = Some (last (FakeHead # ys))"
    "distinct (FakeHead # ys @ zs @ [FakeTail])"
proof -
  have "linked (store q) ((FakeHead # ys) @ (zs @ [FakeTail]))"
    using assms by (simp add: fq_repr_def)
  from linked_append [THEN iffD1, OF _ _ this]
  show "linked (store q) (FakeHead # ys)" "linked (store q) (zs @ [FakeTail])"
    "next_free_block (store q (last (FakeHead # ys))) = Some (hd (zs @ [FakeTail]))"
    "prev_free_block (store q (hd (zs @ [FakeTail]))) = Some (last (FakeHead # ys))"
    by auto
  show "distinct (FakeHead # ys @ zs @ [FakeTail])"
    using assms by (auto simp: fq_repr_def real_block_def)
qed

lemma remove_repr:
  assumes repr: "fq_repr q (ys @ b # zs)"
  shows "\<exists>q'. remove_block b q = Inr q' \<and> fq_repr q' (ys @ zs) \<and> payload_eq q q'"
proof -
  define A Z where "A = FakeHead # ys" and "Z = zs @ [FakeTail]"
  note left = fq_repr_chain [OF repr] and right = fq_repr_chain [of q "ys @ [b]" zs, simplified, OF repr]
  have AZ: "A \<noteq> []" "Z \<noteq> []" and dist: "distinct (A @ b # Z)" and real: "real_block b"
    using repr left(5) by (auto simp: fq_repr_def A_def Z_def)
  have pb: "prev_free_block (store q b) = Some (last A)"
    and nb: "next_free_block (store q b) = Some (hd Z)"
    using left(4) right(3) by (simp_all add: A_def Z_def)
  define h where "h = set_next b None (set_prev b None
    (set_prev (hd Z) (Some (last A)) (set_next (last A) (Some (hd Z)) (store q))))"
  have rem: "remove_block b q = Inr (q\<lparr>store := h, num_free_blocks := num_free_blocks q - 1\<rparr>)"
    using pb nb by (simp add: remove_block_def h_def Let_def)
  have seam: "last A \<in> set A" "hd Z \<in> set Z" using AZ by simp_all
  have neq: "last A \<noteq> b" "hd Z \<noteq> b" "last A \<noteq> hd Z" using dist seam by auto
  have "linked h (A @ Z)"
    by (rule linked_splice [of "store q"]) (use left right AZ dist neq seam in \<open>auto simp: h_def A_def Z_def\<close>)
  moreover have "FakeHead \<noteq> hd Z" "FakeTail \<noteq> last A"
    using dist seam by (auto simp: A_def Z_def)
  moreover have "unlinked (h c)" if "real_block c" "c \<notin> set (ys @ zs)" for c
  proof -
    have "c \<noteq> last A" "c \<noteq> hd Z" using that seam by (auto simp: A_def Z_def)
    then show ?thesis using that neq repr by (auto simp: h_def unlinked_def fq_repr_def)
  qed
  ultimately have "fq_repr (q\<lparr>store := h, num_free_blocks := num_free_blocks q - 1\<rparr>) (ys @ zs)"
    using repr real by (intro fq_reprI) (auto simp: fq_repr_def h_def A_def Z_def)
  moreover have "payload_eq q (q\<lparr>store := h, num_free_blocks := num_free_blocks q - 1\<rparr>)"
    by (auto simp: payload_eq_def h_def)
  ultimately show ?thesis using rem by blast
qed

lemma popleft_eq_remove:
  assumes "fq_repr q (x # xs)"
  shows "popleft q = rbind (remove_block x q) (\<lambda>q'. Inr (x, q'))"
proof -
  have hd: "next_free_block (store q FakeHead) = Some x"
    "prev_free_block (store q x) = Some FakeHead" "x \<noteq> FakeTail"
    using assms by (auto simp: fq_repr_def real_block_def)
  moreover obtain n where "next_free_block (store q x) = Some n"
    using assms by (cases xs) (auto simp: fq_repr_def)
  ultimately show ?thesis by (simp add: popleft_def remove_block_def Let_def)
qed

lemma popleft_repr:
  assumes "fq_repr q (x # xs)"
  shows "\<exists>q'. popleft q = Inr (x, q') \<and> fq_repr q' xs \<and> payload_eq q q'"
  using remove_repr [of q "[]" x xs] assms by (auto simp: popleft_eq_remove [OF assms])

lemma popleft_empty: "fq_repr q [] \<Longrightarrow> popleft q = Inl ValueError"
  by (simp add: popleft_def fq_repr_def)

lemma remove_absent:
  assumes "fq_repr q xs" and "b \<notin> set xs"
  shows "remove_block b q = Inl RuntimeError"
  using assms by (cases b) (auto simp: remove_block_def fq_repr_def unlinked_def split: option.splits)

definition clear_links :: "blk list \<Rightarrow> block_store \<Rightarrow> block_store" where
  "clear_links bs h = (\<lambda>b. if b \<in> set bs then (h b)\<lparr>prev_free_block := None, next_free_block := None\<rparr> else h b)"

lemma popleft_loop_linked:
  "linked h (xs @ c # rest) \<Longrightarrow> distinct (xs @ c # rest) \<Longrightarrow>
     popleft_loop (length xs) (Some (hd (xs @ [c]))) h = Inr (xs, Some c, clear_links xs h)"
proof (induction xs arbitrary: h)
  case Nil
  then show ?case by (simp add: clear_links_def)
next
  case (Cons x xs)
  define h' where "h' = set_next x None (set_prev x None h)"
  have nx: "next_free_block (h x) = Some (hd (xs @ [c]))"
    using Cons.prems(1) by (cases xs) auto
  have "linked h (xs @ c # rest)" using Cons.prems(1) by (cases xs) auto
  moreover have "linked h' (xs @ c # rest) = linked h (xs @ c # rest)"
    using Cons.prems(2) by (intro linked_cong) (auto simp: h'_def dest!: in_set_butlastD list.set_sel(2) [rotated])
  ultimately have "popleft_loop (length xs) (Some (hd (xs @ [c]))) h' = Inr (xs, Some c, clear_links xs h')"
    using Cons.prems(2) by (intro Cons.IH) auto
  moreover have "clear_links xs h' = clear_links (x # xs) h"
    using Cons.prems(2) by (auto simp: clear_links_def h'_def)
  ultimately show ?case by (simp add: nx h'_def [symmetric])
qed

lemma popleft_n_repr:
  assumes repr: "fq_repr q (ys @ zs)"
  shows "\<exists>q'. popleft_n (int (length ys)) q = Inr (ys, q') \<and> fq_repr q' zs \<and> payload_eq q q'"
proof (cases "ys = []")
  case True
  then show ?thesis using repr by (simp add: popleft_n_def payload_eq_def)
next
  case False
  have repr': "fq_repr q ([] @ ys @ zs)" using repr by simp
  note chain = fq_repr_chain [OF repr'] and cut = fq_repr_chain [OF repr]
  obtain c rest where c: "zs @ [FakeTail] = c # rest" by (cases zs) auto
  have dist: "distinct (FakeHead # ys @ c # rest)" using cut(5) c by simp
  have "popleft_loop (length ys) (Some (hd (ys @ [c]))) (store q) = Inr (ys, Some c, clear_links ys (store q))"
    using chain(2) dist c by (intro popleft_loop_linked) auto
  moreover have "next_free_block (store q FakeHead) = Some (hd (ys @ [c]))"
    using chain(3) False by simp
  moreover define h where
    "h = set_prev c (Some FakeHead) (set_next FakeHead (Some c) (clear_links ys (store q)))"
  ultimately have pop: "popleft_n (int (length ys)) q =
      Inr (ys, q\<lparr>store := h, num_free_blocks := num_free_blocks q - int (length ys)\<rparr>)"
    using repr False by (simp add: popleft_n_def fq_repr_def)
  have "linked h ([FakeHead] @ c # rest)"
    by (rule linked_splice [of "store q"])
      (use cut c dist in \<open>auto simp: h_def clear_links_def\<close>)
  then have "linked h (FakeHead # zs @ [FakeTail])" using c by simp
  moreover have "unlinked (h b)" if "real_block b" "b \<notin> set zs" for b
  proof -
    have "b \<noteq> c" using that c by (cases zs) auto
    then show ?thesis using that repr by (auto simp: h_def clear_links_def unlinked_def fq_repr_def)
  qed
  ultimately have "fq_repr (q\<lparr>store := h, num_free_blocks := num_free_blocks q - int (length ys)\<rparr>) zs"
    using repr dist c by (intro fq_reprI) (auto simp: fq_repr_def h_def clear_links_def real_block_def)
  moreover have "payload_eq q (q\<lparr>store := h, num_free_blocks := num_free_blocks q - int (length ys)\<rparr>)"
    by (auto simp: payload_eq_def h_def clear_links_def)
  ultimately show ?thesis using pop by blast
qed

lemma popleft_n_short:
  assumes "fq_repr q xs" and "n \<noteq> 0" and "int (length xs) < n"
  shows "popleft_n n q = Inl AssertionError"
  using assms by (simp add: popleft_n_def fq_repr_def)

lemma append_loop_linked:
  assumes "linked h A" and "A \<noteq> []" and "last A = l" and "distinct (A @ bs)"
  shows "\<exists>h'. append_loop bs l h = (last (A @ bs), h') \<and> linked h' (A @ bs) \<and>
     (\<forall>c. payload (h' c) = payload (h c)) \<and>
     (\<forall>c. c \<notin> set bs \<longrightarrow> prev_free_block (h' c) = prev_free_block (h c)) \<and>
     (\<forall>c. c \<notin> set (A @ bs) \<longrightarrow> next_free_block (h' c) = next_free_block (h c))"
  using assms
proof (induction bs arbitrary: A l h)
  case Nil
  then show ?case by simp
next
  case (Cons b bs)
  define h1 where "h1 = set_next l (Some b) (set_prev b (Some l) h)"
  have l: "l \<in> set A" using Cons.prems(2,3) by auto
  have "linked h1 (A @ [b])"
    by (rule linked_splice [of h]) (use Cons.prems l in \<open>auto simp: h1_def\<close>)
  with Cons.IH [of h1 "A @ [b]" b] Cons.prems(4) obtain h' where
    h': "append_loop bs b h1 = (last ((A @ [b]) @ bs), h')" "linked h' ((A @ [b]) @ bs)"
      "\<forall>c. payload (h' c) = payload (h1 c)"
      "\<forall>c. c \<notin> set bs \<longrightarrow> prev_free_block (h' c) = prev_free_block (h1 c)"
      "\<forall>c. c \<notin> set ((A @ [b]) @ bs) \<longrightarrow> next_free_block (h' c) = next_free_block (h1 c)"
    by auto
  then show ?case using l by (intro exI [of _ h']) (auto simp: h1_def [symmetric], auto simp: h1_def)
qed

lemma append_n_repr:
  assumes repr: "fq_repr q xs" and bs: "distinct bs" "set bs \<inter> set xs = {}" "\<forall>b\<in>set bs. real_block b"
  shows "\<exists>q'. append_n bs q = Inr q' \<and> fq_repr q' (xs @ bs) \<and> payload_eq q q'"
proof (cases "bs = []")
  case True
  then show ?thesis using repr by (simp add: append_n_def payload_eq_def)
next
  case False
  define A where "A = FakeHead # xs"
  have repr': "fq_repr q (xs @ [])" using repr by simp
  note chain = fq_repr_chain [OF repr']
  have dist: "distinct (A @ bs)" and tl: "FakeTail \<notin> set (A @ bs)"
    using chain(5) bs by (auto simp: A_def real_block_def)
  have lst: "prev_free_block (store q FakeTail) = Some (last A)" using chain(4) by (simp add: A_def)
  obtain h1 where h1: "append_loop bs (last A) (store q) = (last (A @ bs), h1)" "linked h1 (A @ bs)"
    "\<forall>c. payload (h1 c) = payload (store q c)"
    "\<forall>c. c \<notin> set bs \<longrightarrow> prev_free_block (h1 c) = prev_free_block (store q c)"
    "\<forall>c. c \<notin> set (A @ bs) \<longrightarrow> next_free_block (h1 c) = next_free_block (store q c)"
    using append_loop_linked [of "store q" A "last A" bs] chain(1) dist by (auto simp: A_def)
  define l where "l = last (A @ bs)"
  define h where "h = set_prev FakeTail (Some l) (set_next l (Some FakeTail) h1)"
  define q' where "q' = q\<lparr>store := h, num_free_blocks := num_free_blocks q + int (length bs)\<rparr>"
  have app: "append_n bs q = Inr q'"
    using False lst h1(1) by (simp add: append_n_def h_def l_def q'_def)
  have l: "l \<in> set (A @ bs)" using False by (simp add: l_def)
  have "linked h ((A @ bs) @ [FakeTail])"
    by (rule linked_splice [of h1]) (use h1(2) dist tl l in \<open>auto simp: h_def l_def A_def\<close>)
  then have "linked h (FakeHead # (xs @ bs) @ [FakeTail])" by (simp add: A_def)
  moreover have "unlinked (h c)" if "real_block c" "c \<notin> set (xs @ bs)" for c
    using that h1(4,5) l repr by (auto simp: h_def unlinked_def fq_repr_def A_def real_block_def)
  moreover have "prev_free_block (h FakeHead) = None" "next_free_block (h FakeTail) = None"
    using h1(4,5) repr bs l tl by (auto simp: h_def fq_repr_def A_def real_block_def)
  ultimately have "fq_repr q' (xs @ bs)"
    using repr bs unfolding q'_def by (intro fq_reprI) (auto simp: fq_repr_def)
  moreover have "payload_eq q q'"
    using h1(3) by (auto simp: payload_eq_def q'_def h_def)
  ultimately show ?thesis using app by blast
qed

lemma append_block_eq_append_n:
  assumes "fq_repr q xs" and "b \<notin> set xs" and "real_block b"
  shows "append_block b q = append_n [b] q"
proof -
  have repr': "fq_repr q (xs @ [])" using assms(1) by simp
  note chain = fq_repr_chain [OF repr']
  define l where "l = last (FakeHead # xs)"
  have l: "l \<in> set (FakeHead # xs)" unfolding l_def by (rule last_in_set) simp
  then have neq: "l \<noteq> b" using assms by auto
  have p: "prev_free_block (store q FakeTail) = Some l" using chain(4) by (simp add: l_def)
  have "set_prev b (Some l) (set_next l (Some b) (store q)) = set_next l (Some b) (set_prev b (Some l) (store q))"
    using neq by (auto simp: fun_eq_iff)
  then show ?thesis by (simp add: append_block_def append_n_def p Let_def)
qed

lemma append_block_repr:
  assumes "fq_repr q xs" and "b \<notin> set xs" and "real_block b"
  shows "\<exists>q'. append_block b q = Inr q' \<and> fq_repr q' (xs @ [b]) \<and> payload_eq q q'"
  using append_n_repr [OF assms(1), of "[b]"] assms(2,3)
  by (simp add: append_block_eq_append_n [OF assms])

subsection \<open>Initialisation\<close>

lemma linked_nth:
  "linked h cs \<longleftrightarrow> (\<forall>i. Suc i < length cs \<longrightarrow>
     next_free_block (h (cs ! i)) = Some (cs ! Suc i) \<and>
     prev_free_block (h (cs ! Suc i)) = Some (cs ! i))"
proof (induction h cs rule: linked.induct)
  case (3 h a b cs)
  show ?case unfolding linked.simps 3
    by (auto simp: less_Suc_eq_0_disj all_conj_distrib)
qed auto
lemma init_links_upto:
  fixes h :: block_store
  assumes "distinct bs" and "k \<le> length bs"
  defines "h' \<equiv> fold (init_link bs) [0..<k] h"
  shows "(\<forall>j<k. prev_free_block (h' (bs ! j)) = (if 0 < j then Some (bs ! (j - 1)) else prev_free_block (h (bs ! j))) \<and>
            next_free_block (h' (bs ! j)) = (if j < length bs - 1 then Some (bs ! (j + 1)) else next_free_block (h (bs ! j)))) \<and>
         (\<forall>b. b \<notin> set (take k bs) \<longrightarrow> h' b = h b) \<and> (\<forall>b. payload (h' b) = payload (h b))"
  using assms(2) unfolding h'_def
proof (induction k)
  case 0
  then show ?case by simp
next
  case (Suc k)
  define g where "g = fold (init_link bs) [0..<k] h"
  have k: "k < length bs" using Suc.prems by simp
  have step: "fold (init_link bs) [0..<Suc k] h = init_link bs k g" by (simp add: g_def)
  have take: "set (take (Suc k) bs) = insert (bs ! k) (set (take k bs))"
    using k by (simp add: take_Suc_conv_app_nth)
  have new: "bs ! k \<notin> set (take k bs)"
    using k assms(1) by (auto simp: in_set_conv_nth nth_eq_iff_index_eq)
  have old: "bs ! j \<noteq> bs ! k" if "j < k" for j
    using that k assms(1) by (auto simp: nth_eq_iff_index_eq)
  note all = Suc.IH [OF less_imp_le [OF k], folded g_def]
  note IH = all [THEN conjunct1] all [THEN conjunct2, THEN conjunct1] all [THEN conjunct2, THEN conjunct2]
  have gk: "g (bs ! k) = h (bs ! k)" using IH(2) new by blast
  have at_k: "init_link bs k g (bs ! k) =
      (let b = (if 0 < k then (h (bs ! k))\<lparr>prev_free_block := Some (bs ! (k - 1))\<rparr> else h (bs ! k))
       in if k < length bs - 1 then b\<lparr>next_free_block := Some (bs ! (k + 1))\<rparr> else b)"
    unfolding init_link_def Let_def set_prev_apply set_next_apply gk [symmetric] by simp
  have off_k: "init_link bs k g b = g b" if "b \<noteq> bs ! k" for b
    using that by (simp add: init_link_def Let_def)
  have "payload (init_link bs k g b) = payload (h b)" for b
    using IH(3) by (cases "b = bs ! k") (simp_all add: at_k off_k Let_def)
  moreover have "init_link bs k g b = h b" if "b \<notin> set (take (Suc k) bs)" for b
    using that IH(2) off_k by (simp add: take)
  moreover have "prev_free_block (init_link bs k g (bs ! j)) =
        (if 0 < j then Some (bs ! (j - 1)) else prev_free_block (h (bs ! j))) \<and>
      next_free_block (init_link bs k g (bs ! j)) =
        (if j < length bs - 1 then Some (bs ! (j + 1)) else next_free_block (h (bs ! j)))"
    if "j < Suc k" for j
  proof (cases "j = k")
    case True
    then show ?thesis unfolding True at_k by (auto simp: Let_def)
  next
    case False
    with that have j: "j < k" by simp
    show ?thesis using IH(1) [rule_format, OF j] off_k [OF old [OF j]] by simp
  qed
  ultimately show ?case unfolding step by blast
qed

lemma init_links_linked:
  assumes "distinct bs"
  shows "linked (fold (init_link bs) [0..<length bs] h) bs"
  using init_links_upto [OF assms, of "length bs" h] by (auto simp: linked_nth)

lemma init_repr:
  assumes bs: "distinct bs" "\<forall>b\<in>set bs. real_block b" and fresh: "\<And>b. real_block b \<Longrightarrow> unlinked (h b)"
  shows "fq_repr (FreeKVCacheBlockQueue bs h) bs"
proof (cases "bs = []")
  case True
  then show ?thesis using fresh
    by (auto simp: FreeKVCacheBlockQueue_def fq_repr_def KVCacheBlock_def unlinked_def real_block_def)
next
  case False
  define h1 where "h1 = fold (init_link bs) [0..<length bs] h"
  define h2 where "h2 = h1(FakeHead := KVCacheBlock (- 1), FakeTail := KVCacheBlock (- 1))"
  define h3 where "h3 = set_next (last bs) (Some FakeTail) (set_prev FakeTail (Some (last bs))
     (set_prev (hd bs) (Some FakeHead) (set_next FakeHead (Some (hd bs)) h2)))"
  have q: "FreeKVCacheBlockQueue bs h = \<lparr>store = h3, num_free_blocks = int (length bs)\<rparr>"
    using False by (simp add: FreeKVCacheBlockQueue_def h1_def h2_def h3_def Let_def)
  have fakes: "FakeHead \<notin> set bs" "FakeTail \<notin> set bs" "hd bs \<in> set bs" "last bs \<in> set bs"
    using bs False by auto
  have eq: "linked h2 bs = linked h1 bs"
    using fakes by (intro linked_cong) (auto simp: h2_def dest: in_set_butlastD list.set_sel(2) [rotated])
  have "linked h3 ((FakeHead # bs) @ [FakeTail])"
  proof (rule linked_splice [of "set_prev (hd bs) (Some FakeHead) (set_next FakeHead (Some (hd bs)) h2)"])
    show "linked (set_prev (hd bs) (Some FakeHead) (set_next FakeHead (Some (hd bs)) h2)) (FakeHead # bs)"
      using linked_splice [of h2 "[FakeHead]" bs "set_prev (hd bs) (Some FakeHead) (set_next FakeHead (Some (hd bs)) h2)"]
        eq init_links_linked [OF bs(1), of h, folded h1_def] fakes bs False by auto
  qed (use fakes bs False in \<open>auto simp: h3_def\<close>)
  moreover have "prev_free_block (h3 FakeHead) = None" "next_free_block (h3 FakeTail) = None"
    using fakes by (auto simp: h3_def h2_def KVCacheBlock_def)
  moreover have "unlinked (h3 b)" if "real_block b" "b \<notin> set bs" for b
  proof -
    have "h3 b = h b"
      using that fakes init_links_upto [OF bs(1), of "length bs" h]
      by (auto simp: h3_def h2_def h1_def real_block_def)
    then show ?thesis using that fresh by simp
  qed
  ultimately show ?thesis using bs q by (simp add: fq_repr_def)
qed

lemma init_payload:
  assumes bs: "distinct bs" and b: "real_block b"
  shows "payload (store (FreeKVCacheBlockQueue bs h) b) = payload (h b)"
proof -
  have "payload (fold (init_link bs) [0..<length bs] h b) = payload (h b)"
    using init_links_upto [OF bs, of "length bs" h] by simp
  then show ?thesis
    using b by (auto simp: FreeKVCacheBlockQueue_def Let_def real_block_def payload_def)
qed

section \<open>The free-list interface\<close>

text \<open>What the block pool relies on: the operations implement a list, keep the payload
  (\<open>same\<close>), and leave no other freedom in the state.\<close>

fun pop_iter :: "('q \<Rightarrow> ('b \<times> 'q) res) \<Rightarrow> nat \<Rightarrow> 'q \<Rightarrow> ('b list \<times> 'q) res" where
  "pop_iter pop 0 q = Inr ([], q)"
| "pop_iter pop (Suc k) q =
     rbind (pop q) (\<lambda>(b, q'). rbind (pop_iter pop k q') (\<lambda>(bs, q''). Inr (b # bs, q'')))"

locale free_list =
  fixes repr :: "'q \<Rightarrow> 'b list \<Rightarrow> bool"
    and same :: "'q \<Rightarrow> 'q \<Rightarrow> bool"
    and valid :: "'b \<Rightarrow> bool"
    and pop :: "'q \<Rightarrow> ('b \<times> 'q) res"
    and pop_n :: "int \<Rightarrow> 'q \<Rightarrow> ('b list \<times> 'q) res"
    and rem :: "'b \<Rightarrow> 'q \<Rightarrow> 'q res"
    and app :: "'b \<Rightarrow> 'q \<Rightarrow> 'q res"
    and app_n :: "'b list \<Rightarrow> 'q \<Rightarrow> 'q res"
  assumes determined: "repr q xs \<Longrightarrow> repr q' xs \<Longrightarrow> same q q' \<Longrightarrow> q' = q"
    and repr_distinct: "repr q xs \<Longrightarrow> distinct xs"
    and repr_valid: "repr q xs \<Longrightarrow> b \<in> set xs \<Longrightarrow> valid b"
    and same_refl: "same q q"
    and same_trans: "same q q' \<Longrightarrow> same q' q'' \<Longrightarrow> same q q''"
    and same_sym: "same q q' \<Longrightarrow> same q' q"
    and pop_law: "repr q (x # xs) \<Longrightarrow> \<exists>q'. pop q = Inr (x, q') \<and> repr q' xs \<and> same q q'"
    and pop_n_law: "repr q (ys @ zs) \<Longrightarrow>
      \<exists>q'. pop_n (int (length ys)) q = Inr (ys, q') \<and> repr q' zs \<and> same q q'"
    and rem_law: "repr q (ys @ b # zs) \<Longrightarrow> \<exists>q'. rem b q = Inr q' \<and> repr q' (ys @ zs) \<and> same q q'"
    and app_law: "repr q xs \<Longrightarrow> b \<notin> set xs \<Longrightarrow> valid b \<Longrightarrow>
      \<exists>q'. app b q = Inr q' \<and> repr q' (xs @ [b]) \<and> same q q'"
    and app_n_law: "repr q xs \<Longrightarrow> distinct bs \<Longrightarrow> set bs \<inter> set xs = {} \<Longrightarrow> \<forall>b\<in>set bs. valid b \<Longrightarrow>
      \<exists>q'. app_n bs q = Inr q' \<and> repr q' (xs @ bs) \<and> same q q'"
begin

lemma pop_iter_law:
  "repr q (ys @ zs) \<Longrightarrow> \<exists>q'. pop_iter pop (length ys) q = Inr (ys, q') \<and> repr q' zs \<and> same q q'"
proof (induction ys arbitrary: q)
  case Nil
  then show ?case using same_refl by simp
next
  case (Cons y ys)
  from Cons.prems obtain q1 where q1: "pop q = Inr (y, q1)" "repr q1 (ys @ zs)" "same q q1"
    using pop_law [of q y "ys @ zs"] by auto
  from Cons.IH [OF q1(2)] obtain q2 where
    "pop_iter pop (length ys) q1 = Inr (ys, q2)" "repr q2 zs" "same q1 q2" by blast
  with q1 show ?case using same_trans by (intro exI [of _ q2]) auto
qed

lemma pop_n_eq_iter:
  assumes "repr q xs" and "k \<le> length xs"
  shows "pop_n (int k) q = pop_iter pop k q"
proof -
  have k: "k = length (take k xs)" and r: "repr q (take k xs @ drop k xs)" using assms by simp_all
  obtain q1 where q1: "pop_n (int k) q = Inr (take k xs, q1)" "repr q1 (drop k xs)" "same q q1"
    using pop_n_law [OF r] k by metis
  obtain q2 where q2: "pop_iter pop k q = Inr (take k xs, q2)" "repr q2 (drop k xs)" "same q q2"
    using pop_iter_law [OF r] k by metis
  have "q2 = q1"
    using determined [OF q1(2) q2(2)] same_trans [OF same_sym [OF q1(3)] q2(3)] by blast
  with q1 q2 show ?thesis by simp
qed

lemma app_iter_law:
  "repr q xs \<Longrightarrow> distinct bs \<Longrightarrow> set bs \<inter> set xs = {} \<Longrightarrow> \<forall>b\<in>set bs. valid b \<Longrightarrow>
     \<exists>q'. rfold app bs q = Inr q' \<and> repr q' (xs @ bs) \<and> same q q'"
proof (induction bs arbitrary: q xs)
  case Nil
  then show ?case using same_refl by simp
next
  case (Cons b bs)
  from Cons.prems obtain q1 where q1: "app b q = Inr q1" "repr q1 (xs @ [b])" "same q q1"
    using app_law [of q xs b] by auto
  from Cons.prems have "\<exists>q'. rfold app bs q1 = Inr q' \<and> repr q' ((xs @ [b]) @ bs) \<and> same q1 q'"
    by (intro Cons.IH [OF q1(2)]) auto
  with q1 show ?case using same_trans by auto
qed

lemma app_n_eq_fold:
  assumes "repr q xs" and "distinct bs" and "set bs \<inter> set xs = {}" and "\<forall>b\<in>set bs. valid b"
  shows "app_n bs q = rfold app bs q"
proof -
  from app_n_law [OF assms] obtain q1 where
    q1: "app_n bs q = Inr q1" "repr q1 (xs @ bs)" "same q q1" by blast
  from app_iter_law [OF assms] obtain q2 where
    q2: "rfold app bs q = Inr q2" "repr q2 (xs @ bs)" "same q q2" by blast
  have "q2 = q1"
    using determined [OF q1(2) q2(2)] same_trans [OF same_sym [OF q1(3)] q2(3)] by blast
  with q1 q2 show ?thesis by simp
qed

text \<open>Taking the last block out again restores the exact state before it was appended.\<close>

lemma app_rem:
  assumes "repr q xs" and "b \<notin> set xs" and "valid b"
  shows "rbind (app b q) (rem b) = Inr q"
proof -
  from app_law [OF assms] obtain q1 where
    q1: "app b q = Inr q1" "repr q1 (xs @ [b])" "same q q1" by blast
  from rem_law [of q1 xs b "[]"] q1(2) obtain q2 where
    q2: "rem b q1 = Inr q2" "repr q2 xs" "same q1 q2" by auto
  have "q2 = q" using determined [OF assms(1) q2(2)] same_trans [OF q1(3) q2(3)] by blast
  with q1 q2 show ?thesis by simp
qed

end

interpretation fq: free_list fq_repr payload_eq real_block popleft popleft_n remove_block append_block append_n
proof unfold_locales
  fix q xs q' assume "fq_repr q xs" "fq_repr q' xs" "payload_eq q q'"
  then show "q' = q" by (rule fq_repr_determines)
next
  fix q x xs assume "fq_repr q (x # xs)"
  then show "\<exists>q'. popleft q = Inr (x, q') \<and> fq_repr q' xs \<and> payload_eq q q'" by (rule popleft_repr)
next
  fix q ys zs assume "fq_repr q (ys @ zs)"
  then show "\<exists>q'. popleft_n (int (length ys)) q = Inr (ys, q') \<and> fq_repr q' zs \<and> payload_eq q q'"
    by (rule popleft_n_repr)
next
  fix q ys b zs assume "fq_repr q (ys @ b # zs)"
  then show "\<exists>q'. remove_block b q = Inr q' \<and> fq_repr q' (ys @ zs) \<and> payload_eq q q'" by (rule remove_repr)
next
  fix q xs b assume "fq_repr q xs" "b \<notin> set xs" "real_block b"
  then show "\<exists>q'. append_block b q = Inr q' \<and> fq_repr q' (xs @ [b]) \<and> payload_eq q q'"
    by (rule append_block_repr)
next
  fix q xs and bs :: "blk list"
  assume "fq_repr q xs" "distinct bs" "set bs \<inter> set xs = {}" "\<forall>b\<in>set bs. real_block b"
  then show "\<exists>q'. append_n bs q = Inr q' \<and> fq_repr q' (xs @ bs) \<and> payload_eq q q'" by (rule append_n_repr)
qed (auto simp: fq_repr_def payload_eq_def)

section \<open>Properties\<close>

definition fresh_store :: block_store where
  "fresh_store = (\<lambda>b. case b of Blk n \<Rightarrow> KVCacheBlock (int n) | _ \<Rightarrow> KVCacheBlock (- 1))"

lemma fresh_store_unlinked: "unlinked (fresh_store b)"
  by (cases b) (simp_all add: fresh_store_def KVCacheBlock_def unlinked_def)

lemma fresh_queue_repr:
  assumes "distinct ns"
  shows "fq_repr (FreeKVCacheBlockQueue (map Blk ns) fresh_store) (map Blk ns)"
  by (rule init_repr) (use assms in \<open>auto simp: distinct_map inj_on_def fresh_store_unlinked\<close>)

text \<open>C6. On a well-formed queue whose free blocks are \<open>xs\<close> in order, every operation of
  \<^verbatim>\<open>FreeKVCacheBlockQueue\<close> acts as the corresponding list operation: the traversal returns
  \<open>xs\<close> and ends; \<^verbatim>\<open>popleft\<close> returns the head or raises \<open>ValueError\<close> when there is none;
  \<^verbatim>\<open>popleft_n\<close> splits off a prefix or fails its assertion; \<^verbatim>\<open>remove\<close> takes a member out of the
  middle and raises \<open>RuntimeError\<close> on a block that is not free; \<^verbatim>\<open>append\<close> and \<^verbatim>\<open>append_n\<close> add blocks that
  are not free yet at the back. The result is well-formed again and no block loses its id, count, hash or null flag.\<close>

theorem free_queue_refines_list:
  assumes "fq_repr q xs"
  shows "get_all_free_blocks q = Some (Inr xs) \<and>
    (case xs of [] \<Rightarrow> popleft q = Inl ValueError
     | x # ys \<Rightarrow> \<exists>q'. popleft q = Inr (x, q') \<and> fq_repr q' ys \<and> payload_eq q q') \<and>
    (\<forall>n\<ge>0. if n \<le> int (length xs)
       then \<exists>q'. popleft_n n q = Inr (take (nat n) xs, q') \<and> fq_repr q' (drop (nat n) xs) \<and> payload_eq q q'
       else popleft_n n q = Inl AssertionError) \<and>
    (\<forall>b. if b \<in> set xs
       then \<exists>q'. remove_block b q = Inr q' \<and> fq_repr q' (remove1 b xs) \<and> payload_eq q q'
       else remove_block b q = Inl RuntimeError) \<and>
    (\<forall>b. real_block b \<and> b \<notin> set xs \<longrightarrow>
       (\<exists>q'. append_block b q = Inr q' \<and> fq_repr q' (xs @ [b]) \<and> payload_eq q q')) \<and>
    (\<forall>bs. distinct bs \<and> set bs \<inter> set xs = {} \<and> (\<forall>b\<in>set bs. real_block b) \<longrightarrow>
       (\<exists>q'. append_n bs q = Inr q' \<and> fq_repr q' (xs @ bs) \<and> payload_eq q q'))"
proof (intro conjI allI impI)
  show "get_all_free_blocks q = Some (Inr xs)" by (rule get_all_free_blocks_repr [OF assms])
  show "case xs of [] \<Rightarrow> popleft q = Inl ValueError
     | x # ys \<Rightarrow> \<exists>q'. popleft q = Inr (x, q') \<and> fq_repr q' ys \<and> payload_eq q q'"
    using assms popleft_empty popleft_repr by (cases xs) auto
next
  fix n :: int assume n: "0 \<le> n"
  show "if n \<le> int (length xs)
       then \<exists>q'. popleft_n n q = Inr (take (nat n) xs, q') \<and> fq_repr q' (drop (nat n) xs) \<and> payload_eq q q'
       else popleft_n n q = Inl AssertionError"
  proof (cases "n \<le> int (length xs)")
    case True
    then have "int (length (take (nat n) xs)) = n" using n by simp
    then show ?thesis
      using True popleft_n_repr [of q "take (nat n) xs" "drop (nat n) xs"] assms by simp
  next
    case False
    then show ?thesis using popleft_n_short [OF assms, of n] n by simp
  qed
next
  fix b
  show "if b \<in> set xs
       then \<exists>q'. remove_block b q = Inr q' \<and> fq_repr q' (remove1 b xs) \<and> payload_eq q q'
       else remove_block b q = Inl RuntimeError"
  proof (cases "b \<in> set xs")
    case True
    then obtain ys zs where xs: "xs = ys @ b # zs" "b \<notin> set ys" by (meson split_list_first)
    then show ?thesis using remove_repr [of q ys b zs] assms by (simp add: remove1_append)
  next
    case False
    then show ?thesis using remove_absent [OF assms] by simp
  qed
next
  fix b assume "real_block b \<and> b \<notin> set xs"
  then show "\<exists>q'. append_block b q = Inr q' \<and> fq_repr q' (xs @ [b]) \<and> payload_eq q q'"
    using append_block_repr [OF assms] by blast
next
  fix bs :: "blk list" assume "distinct bs \<and> set bs \<inter> set xs = {} \<and> (\<forall>b\<in>set bs. real_block b)"
  then show "\<exists>q'. append_n bs q = Inr q' \<and> fq_repr q' (xs @ bs) \<and> payload_eq q q'"
    using append_n_repr [OF assms] by blast
qed

theorem free_queue_refines_list_witness:
  "(\<exists>q'. popleft (FreeKVCacheBlockQueue [Blk 0, Blk 1, Blk 2] fresh_store) = Inr (Blk 0, q') \<and>
     fq_repr q' [Blk 1, Blk 2]) \<and>
   (\<exists>q'. append_block (Blk 3) (FreeKVCacheBlockQueue [Blk 0, Blk 1, Blk 2] fresh_store) = Inr q' \<and>
     fq_repr q' [Blk 0, Blk 1, Blk 2, Blk 3])"
proof -
  note ops = free_queue_refines_list [OF fresh_queue_repr [of "[0, 1, 2]"]]
  let ?q = "FreeKVCacheBlockQueue (map Blk [0, 1, 2]) fresh_store"
  have "distinct [0, 1, 2 :: nat]" by simp
  from ops [OF this] have "\<forall>b. real_block b \<and> b \<notin> set (map Blk [0, 1, 2]) \<longrightarrow>
      (\<exists>q'. append_block b ?q = Inr q' \<and> fq_repr q' (map Blk [0, 1, 2] @ [b]) \<and> payload_eq ?q q')"
    by (elim conjE)
  from spec [OF this, of "Blk 3"]
  have "\<exists>q'. append_block (Blk 3) ?q = Inr q' \<and> fq_repr q' [Blk 0, Blk 1, Blk 2, Blk 3]"
    by (auto simp: real_block_def)
  moreover have "\<exists>q'. popleft ?q = Inr (Blk 0, q') \<and> fq_repr q' [Blk 1, Blk 2]"
    using ops by auto
  ultimately show ?thesis by simp
qed

text \<open>C23. The batched \<^verbatim>\<open>popleft_n\<close> and \<^verbatim>\<open>append_n\<close>, which relink the chain once, leave exactly
  the state, link for link, that the same number of \<^verbatim>\<open>popleft\<close> and \<^verbatim>\<open>append\<close> calls would.\<close>

theorem batched_queue_ops_equal_iterated:
  assumes "fq_repr q xs"
  shows "(\<forall>k\<le>length xs. popleft_n (int k) q = pop_iter popleft k q) \<and>
    (\<forall>bs. distinct bs \<and> set bs \<inter> set xs = {} \<and> (\<forall>b\<in>set bs. real_block b) \<longrightarrow>
       append_n bs q = rfold append_block bs q)"
  using fq.pop_n_eq_iter [OF assms] fq.app_n_eq_fold [OF assms] by blast

theorem batched_queue_ops_equal_iterated_witness:
  "popleft_n 2 (FreeKVCacheBlockQueue [Blk 0, Blk 1, Blk 2] fresh_store) =
     pop_iter popleft 2 (FreeKVCacheBlockQueue [Blk 0, Blk 1, Blk 2] fresh_store)"
  using batched_queue_ops_equal_iterated [OF fresh_queue_repr [of "[0, 1, 2]"], THEN conjunct1, rule_format, of 2]
  by simp

end
