(* ===== verification/DSA_Bundles.thy ===== *)
theory DSA_Bundles
  imports Prelude "HOL-Library.Product_Lexorder" "HOL-Library.AList"
begin

text \<open>
  \<^verbatim>\<open>vllm/v1/core/dsa_shared_pool.py\<close>: the layout of the shared bundle pool that the latent
  and the indexer cache groups of a sparse-attention model split between them, and the
  best-fit allocator of physical bundles over a list of free ranges. The lemmas show that
  the free ranges stay in canonical form (sorted, non-empty, never adjacent), that owned
  and free bundles partition the capacity, and that the block ids of the bundles tile the
  logical tables and are decoded back to their bundle.
\<close>

section \<open>Helpers\<close>

definition dsa_cdiv :: "int \<Rightarrow> int \<Rightarrow> int" where
  "dsa_cdiv a b = (a + b - 1) div b"

definition dsa_lcm :: "int \<Rightarrow> int \<Rightarrow> int" where
  "dsa_lcm a b = a * b div gcd a b"

definition dsa_block_pool_index :: "nat \<Rightarrow> bool \<Rightarrow> bool \<Rightarrow> nat" where
  "dsa_block_pool_index group_index use_per_group_block_pools use_dsa_shared_block_pool =
     (if use_per_group_block_pools \<or> use_dsa_shared_block_pool then group_index else 0)"

definition dsa_scratch_blocks_for_topk :: "int \<Rightarrow> int \<Rightarrow> int \<Rightarrow> int res" where
  "dsa_scratch_blocks_for_topk index_topk block_size num_rows =
     (if index_topk \<le> 0 then Inl ValueError
      else if block_size \<le> 0 then Inl ValueError
      else if num_rows \<le> 0 then Inl ValueError
      else if index_topk mod block_size \<noteq> 0 then Inl ValueError
      else Inr (num_rows * index_topk div block_size))"

section \<open>The layout\<close>

datatype dsa_owner = LATENT | INDEXER

record dsa_layout =
  latent_page_size_bytes :: int
  indexer_page_size_bytes :: int
  capacity_bundles :: int
  k_nope_dim :: int
  k_pe_dim :: int
  indexer_dim :: int

definition bundle_page_size_bytes :: "dsa_layout \<Rightarrow> int" where
  "bundle_page_size_bytes l = dsa_lcm (latent_page_size_bytes l) (indexer_page_size_bytes l)"

definition latent_blocks_per_bundle :: "dsa_layout \<Rightarrow> int" where
  "latent_blocks_per_bundle l = bundle_page_size_bytes l div latent_page_size_bytes l"

definition indexer_blocks_per_bundle :: "dsa_layout \<Rightarrow> int" where
  "indexer_blocks_per_bundle l = bundle_page_size_bytes l div indexer_page_size_bytes l"

definition latent_dim :: "dsa_layout \<Rightarrow> int" where
  "latent_dim l = indexer_dim l * latent_page_size_bytes l div indexer_page_size_bytes l"

definition slot_count :: "dsa_layout \<Rightarrow> int" where
  "slot_count l = capacity_bundles l + 1"

definition nope_pages_per_bundle :: "dsa_layout \<Rightarrow> int" where
  "nope_pages_per_bundle l = latent_blocks_per_bundle l * k_nope_dim l div indexer_dim l"

definition pe_pages_per_bundle :: "dsa_layout \<Rightarrow> int" where
  "pe_pages_per_bundle l = latent_blocks_per_bundle l * k_pe_dim l div indexer_dim l"

text \<open>The constructor with its validation, in the order of \<^verbatim>\<open>__post_init__\<close>.\<close>

definition DSASharedBlockLayout :: "int \<Rightarrow> int \<Rightarrow> int \<Rightarrow> int \<Rightarrow> int \<Rightarrow> int \<Rightarrow> dsa_layout res" where
  "DSASharedBlockLayout lp ip cap kn kp idim =
     (let l = \<lparr>latent_page_size_bytes = lp, indexer_page_size_bytes = ip, capacity_bundles = cap,
               k_nope_dim = kn, k_pe_dim = kp, indexer_dim = idim\<rparr>
      in if lp \<le> 0 \<or> ip \<le> 0 then Inl ValueError
         else if cap \<le> 0 then Inl ValueError
         else if latent_dim l \<noteq> kn + kp then Inl ValueError
         else if idim = 0 then Inl ZeroDivisionError
         else if nope_pages_per_bundle l + pe_pages_per_bundle l \<noteq> indexer_blocks_per_bundle l
         then Inl ValueError
         else Inr l)"

fun blocks_per_bundle :: "dsa_layout \<Rightarrow> dsa_owner \<Rightarrow> int" where
  "blocks_per_bundle l LATENT = latent_blocks_per_bundle l"
| "blocks_per_bundle l INDEXER = indexer_blocks_per_bundle l"

definition row_count :: "dsa_layout \<Rightarrow> dsa_owner \<Rightarrow> int" where
  "row_count l ow = slot_count l * blocks_per_bundle l ow"

definition block_ids_for_bundle :: "dsa_layout \<Rightarrow> dsa_owner \<Rightarrow> int \<Rightarrow> int list res" where
  "block_ids_for_bundle l ow bundle_id =
     (if bundle_id \<le> 0 \<or> bundle_id > capacity_bundles l then Inl ValueError
      else (case ow of
          LATENT \<Rightarrow>
            (let start = bundle_id * latent_blocks_per_bundle l
             in Inr (map (\<lambda>i. start + i) [0..latent_blocks_per_bundle l - 1]))
        | INDEXER \<Rightarrow>
            (let nope_start = bundle_id * nope_pages_per_bundle l;
                 pe_start = slot_count l * nope_pages_per_bundle l + bundle_id * pe_pages_per_bundle l
             in Inr ([nope_start..nope_start + nope_pages_per_bundle l - 1]
                     @ [pe_start..pe_start + pe_pages_per_bundle l - 1]))))"

definition bundle_id_for_block :: "dsa_layout \<Rightarrow> dsa_owner \<Rightarrow> int \<Rightarrow> int res" where
  "bundle_id_for_block l ow block_id =
     (if block_id \<le> 0 then Inl ValueError
      else (case ow of
          LATENT \<Rightarrow> Inr (block_id div latent_blocks_per_bundle l)
        | INDEXER \<Rightarrow>
            (let nope_slab_pages = slot_count l * nope_pages_per_bundle l
             in if block_id < nope_slab_pages then Inr (block_id div nope_pages_per_bundle l)
                else if pe_pages_per_bundle l = 0 then Inl ZeroDivisionError
                else Inr ((block_id - nope_slab_pages) div pe_pages_per_bundle l))))"

section \<open>The allocator\<close>

type_synonym ranges = "(int \<times> int) list"

record dsa_allocator =
  layout :: dsa_layout
  owners :: "(int \<times> dsa_owner) list"
  free_ranges :: ranges

definition DSASharedBundleAllocator :: "dsa_layout \<Rightarrow> dsa_allocator" where
  "DSASharedBundleAllocator l =
     \<lparr>layout = l, owners = [], free_ranges = [(1, capacity_bundles l)]\<rparr>"

definition free_bundle_count :: "dsa_allocator \<Rightarrow> int" where
  "free_bundle_count a = sum_list (map (\<lambda>(s, e). e - s + 1) (free_ranges a))"

definition free_range_count :: "dsa_allocator \<Rightarrow> nat" where
  "free_range_count a = length (free_ranges a)"

definition largest_free_range :: "dsa_allocator \<Rightarrow> int" where
  "largest_free_range a =
     (case map (\<lambda>(s, e). e - s + 1) (free_ranges a) of
        [] \<Rightarrow> 0
      | n # ns \<Rightarrow> fold max ns n)"

definition owner_bundle_counts :: "dsa_allocator \<Rightarrow> dsa_owner \<Rightarrow> nat" where
  "owner_bundle_counts a ow = count_list (map snd (owners a)) ow"

definition bundle_count_for_blocks :: "dsa_allocator \<Rightarrow> dsa_owner \<Rightarrow> int \<Rightarrow> int" where
  "bundle_count_for_blocks a ow num_blocks = dsa_cdiv num_blocks (blocks_per_bundle (layout a) ow)"

text \<open>\<^verbatim>\<open>_take_from_best_contiguous_range\<close>: the first of the smallest ranges that are long enough.\<close>

fun best_scan :: "int \<Rightarrow> nat \<Rightarrow> ranges \<Rightarrow> (nat \<times> int) option \<Rightarrow> (nat \<times> int) option" where
  "best_scan n idx [] best = best"
| "best_scan n idx ((s, e) # rs) best =
     (let len = e - s + 1
      in best_scan n (Suc idx) rs
           (if n \<le> len \<and> (case best of None \<Rightarrow> True | Some (_, best_len) \<Rightarrow> len < best_len)
            then Some (idx, len) else best))"

definition take_from_best_contiguous_range :: "int \<Rightarrow> ranges \<Rightarrow> (int list \<times> ranges) option" where
  "take_from_best_contiguous_range n rs =
     (case best_scan n 0 rs None of
        None \<Rightarrow> None
      | Some (best_idx, _) \<Rightarrow>
          (let (s, e) = rs ! best_idx
           in Some ([s..s + n - 1],
                    if s + n \<le> e then rs[best_idx := (s + n, e)]
                    else take best_idx rs @ drop (Suc best_idx) rs)))"

text \<open>The loop of \<^verbatim>\<open>allocate\<close> that gathers bundles over several ranges.\<close>

function take_ranges :: "int \<Rightarrow> ranges \<Rightarrow> (int list \<times> ranges) res" where
  "take_ranges need rs =
     (if need \<le> 0 then Inr ([], rs)
      else (case rs of
          [] \<Rightarrow> Inl IndexError
        | (s, e) # rs' \<Rightarrow>
            (let tk = min need (e - s + 1);
                 new = [s..s + tk - 1];
                 rs'' = (if s + tk \<le> e then (s + tk, e) # rs' else rs')
             in rbind (take_ranges (need - int (length new)) rs'')
                  (\<lambda>(chosen, rest). Inr (new @ chosen, rest)))))"
  by pat_completeness auto
termination
  by (relation "measures [\<lambda>(need, rs). nat need, \<lambda>(need, rs). length rs]") auto

declare take_ranges.simps [simp del]

definition allocate :: "dsa_owner \<Rightarrow> int \<Rightarrow> dsa_allocator \<Rightarrow> (int list \<times> dsa_allocator) res" where
  "allocate ow num_bundles a =
     (if num_bundles \<le> 0 then Inr ([], a)
      else if num_bundles > free_bundle_count a then Inl ValueError
      else rbind (case take_from_best_contiguous_range num_bundles (free_ranges a) of
                    Some r \<Rightarrow> Inr r
                  | None \<Rightarrow> take_ranges num_bundles (free_ranges a))
             (\<lambda>(chosen, rs).
                Inr (chosen, a\<lparr>free_ranges := rs,
                               owners := fold (\<lambda>b. AList.update b ow) chosen (owners a)\<rparr>)))"

fun merge_ranges :: "ranges \<Rightarrow> ranges \<Rightarrow> ranges" where
  "merge_ranges merged [] = merged"
| "merge_ranges merged ((s, e) # rs) =
     (if merged = [] \<or> s > snd (last merged) + 1
      then merge_ranges (merged @ [(s, e)]) rs
      else merge_ranges (butlast merged @ [(fst (last merged), max (snd (last merged)) e)]) rs)"

definition insert_free_bundle :: "int \<Rightarrow> ranges \<Rightarrow> ranges" where
  "insert_free_bundle b rs = merge_ranges [] (sort (rs @ [(b, b)]))"

definition free_bundles :: "dsa_owner \<Rightarrow> int list \<Rightarrow> dsa_allocator \<Rightarrow> dsa_allocator res" where
  "free_bundles ow ids a =
     (if \<not> distinct ids then Inl ValueError
      else if \<exists>b\<in>set ids. map_of (owners a) b \<noteq> Some ow then Inl ValueError
      else Inr (fold (\<lambda>b a. a\<lparr>owners := AList.delete b (owners a),
                              free_ranges := insert_free_bundle b (free_ranges a)\<rparr>) ids a))"

section \<open>Range lists as sets\<close>

definition range_ok :: "int \<times> int \<Rightarrow> bool" where
  "range_ok r \<longleftrightarrow> fst r \<le> snd r"

definition canon :: "ranges \<Rightarrow> bool" where
  "canon rs \<longleftrightarrow> (\<forall>r\<in>set rs. range_ok r) \<and> sorted_wrt (\<lambda>r r'. snd r + 1 < fst r') rs"

definition ranges_set :: "ranges \<Rightarrow> int set" where
  "ranges_set rs = (\<Union>(s, e)\<in>set rs. {s..e})"

lemma ranges_set_simps [simp]:
  "ranges_set [] = {}"
  "ranges_set (r # rs) = {fst r..snd r} \<union> ranges_set rs"
  "ranges_set (rs @ rs') = ranges_set rs \<union> ranges_set rs'"
  by (auto simp: ranges_set_def split: prod.splits)

lemma in_ranges_set: "x \<in> ranges_set rs \<longleftrightarrow> (\<exists>r\<in>set rs. fst r \<le> x \<and> x \<le> snd r)"
  by (force simp: ranges_set_def)

lemma finite_ranges_set [simp]: "finite (ranges_set rs)"
  by (induction rs) auto

lemma canon_simps [simp]:
  "canon []"
  "canon (r # rs) \<longleftrightarrow> range_ok r \<and> (\<forall>r'\<in>set rs. snd r + 1 < fst r') \<and> canon rs"
  by (auto simp: canon_def)

lemma canon_append:
  "canon (rs @ rs') \<longleftrightarrow> canon rs \<and> canon rs' \<and> (\<forall>r\<in>set rs. \<forall>r'\<in>set rs'. snd r + 1 < fst r')"
  by (auto simp: canon_def sorted_wrt_append)

lemma canon_above: "canon (r # rs) \<Longrightarrow> x \<in> ranges_set rs \<Longrightarrow> snd r + 1 < x"
  by (force simp: in_ranges_set)

lemma canon_disjoint: "canon (r # rs) \<Longrightarrow> {fst r..snd r} \<inter> ranges_set rs = {}"
  by (force simp: in_ranges_set)

lemma free_count_card:
  "canon rs \<Longrightarrow> sum_list (map (\<lambda>(s, e). e - s + 1) rs) = int (card (ranges_set rs))"
proof (induction rs)
  case Nil
  then show ?case by simp
next
  case (Cons r rs)
  have "card ({fst r..snd r} \<union> ranges_set rs) = card {fst r..snd r} + card (ranges_set rs)"
    using canon_disjoint [OF Cons.prems] by (intro card_Un_disjoint) auto
  with Cons show ?case by (auto simp: range_ok_def split: prod.splits)
qed

text \<open>A finite set has one canonical range list.\<close>

lemma canon_first:
  assumes "canon (r # rs)" and "canon (r' # rs')" and "ranges_set (r # rs) = ranges_set (r' # rs')"
  shows "fst r \<le> fst r'" "snd r \<le> snd r'"
proof -
  have "fst r' \<in> ranges_set (r # rs)" using assms(2,3) by (auto simp: range_ok_def)
  then show le: "fst r \<le> fst r'"
    using canon_above [OF assms(1), of "fst r'"] assms(1) by (auto simp: range_ok_def)
  show "snd r \<le> snd r'"
  proof (rule ccontr)
    assume less: "\<not> snd r \<le> snd r'"
    have "fst r' \<le> snd r'" using assms(2) by (simp add: range_ok_def)
    then have "snd r' + 1 \<in> {fst r..snd r}" using le less by auto
    then have "snd r' + 1 \<in> ranges_set (r # rs)" by simp
    then have "snd r' + 1 \<in> ranges_set (r' # rs')" unfolding assms(3) .
    then show False using canon_above [OF assms(2), of "snd r' + 1"] by auto
  qed
qed

lemma canon_unique: "canon rs \<Longrightarrow> canon rs' \<Longrightarrow> ranges_set rs = ranges_set rs' \<Longrightarrow> rs = rs'"
proof (induction rs arbitrary: rs')
  case Nil
  then show ?case by (cases rs') (auto simp: range_ok_def)
next
  case (Cons r rs)
  obtain r' rs'' where rs': "rs' = r' # rs''"
    using Cons.prems by (cases rs') (auto simp: range_ok_def)
  have "r = r'"
    using canon_first [of r rs r' rs''] canon_first [of r' rs'' r rs] Cons.prems rs'
    by (intro prod_eqI) (auto intro: antisym)
  moreover have "ranges_set rs = ranges_set rs''"
    using canon_disjoint [of r rs] canon_disjoint [of r' rs''] Cons.prems rs' \<open>r = r'\<close> by auto
  ultimately show ?case using Cons.IH [of rs''] Cons.prems rs' by simp
qed

subsection \<open>Returning a bundle\<close>

lemma merge_ranges_correct:
  assumes "canon merged" and "\<forall>r\<in>set rs. range_ok r" and "sorted (map fst rs)"
    and "merged \<noteq> [] \<Longrightarrow> \<forall>r\<in>set rs. fst (last merged) \<le> fst r"
  shows "canon (merge_ranges merged rs) \<and>
    ranges_set (merge_ranges merged rs) = ranges_set merged \<union> ranges_set rs"
  using assms
proof (induction merged rs rule: merge_ranges.induct)
  case (1 merged)
  then show ?case by simp
next
  case (2 merged s e rs)
  show ?case
  proof (cases "merged = [] \<or> s > snd (last merged) + 1")
    case True
    have "\<forall>r\<in>set merged. snd r + 1 < s"
    proof (cases "merged = []")
      case False
      then have m: "merged = butlast merged @ [last merged]" by simp
      have "canon (butlast merged @ [last merged])" using 2(3) m by simp
      then have below: "\<forall>r\<in>set (butlast merged). snd r + 1 < fst (last merged)"
        and ok: "fst (last merged) \<le> snd (last merged)"
        unfolding canon_append by (simp_all add: range_ok_def)
      have "set merged = insert (last merged) (set (butlast merged))"
        by (subst m) (simp del: append_butlast_last_id)
      moreover have "snd r + 1 < s" if "r \<in> set (butlast merged)" for r
        using below [rule_format, OF that] ok True False by linarith
      ultimately show ?thesis using True False by simp
    qed simp
    then have "canon (merged @ [(s, e)])" using 2(3,4) by (auto simp: canon_append)
    then show ?thesis using True 2 by auto
  next
    case False
    define p where "p = last merged"
    have m: "merged = butlast merged @ [p]" using False by (simp add: p_def)
    have c: "canon (butlast merged @ [p])" using 2(3) m by simp
    have se: "s \<le> e" "fst p \<le> s" "s \<le> snd p + 1" "fst p \<le> snd p"
      using 2(4,6) c False by (auto simp: range_ok_def p_def canon_append)
    have c': "canon (butlast merged @ [(fst p, max (snd p) e)])"
      using c se by (auto simp: canon_append range_ok_def)
    have "canon (merge_ranges (butlast merged @ [(fst p, max (snd p) e)]) rs) \<and>
       ranges_set (merge_ranges (butlast merged @ [(fst p, max (snd p) e)]) rs) =
       ranges_set (butlast merged @ [(fst p, max (snd p) e)]) \<union> ranges_set rs"
      using 2(2) [OF False] c' 2(4,5,6) False by (auto simp: p_def)
    moreover have "{fst p..max (snd p) e} = {fst p..snd p} \<union> {s..e}" using se by auto
    moreover have "ranges_set merged = ranges_set (butlast merged) \<union> {fst p..snd p}"
      by (subst m) simp
    ultimately show ?thesis using False by (auto simp: p_def)
  qed
qed

lemma sorted_pairs_fst: "sorted rs \<Longrightarrow> sorted (map fst (rs :: ranges))"
  by (induction rs) (auto simp: less_eq_prod_def)

lemma insert_free_bundle_correct:
  assumes "canon rs"
  shows "canon (insert_free_bundle b rs)"
    and "ranges_set (insert_free_bundle b rs) = insert b (ranges_set rs)"
proof -
  define ys where "ys = sort (rs @ [(b, b)])"
  have set: "set ys = insert (b, b) (set rs)" by (simp add: ys_def)
  have "canon (merge_ranges [] ys) \<and> ranges_set (merge_ranges [] ys) = ranges_set [] \<union> ranges_set ys"
  proof (rule merge_ranges_correct)
    show "\<forall>r\<in>set ys. range_ok r" using assms by (auto simp: set canon_def range_ok_def)
    show "sorted (map fst ys)" by (rule sorted_pairs_fst) (simp add: ys_def)
  qed simp_all
  moreover have "ranges_set ys = insert b (ranges_set rs)"
    by (auto simp: in_ranges_set set)
  ultimately show "canon (insert_free_bundle b rs)"
    "ranges_set (insert_free_bundle b rs) = insert b (ranges_set rs)"
    by (simp_all add: insert_free_bundle_def ys_def)
qed

subsection \<open>Taking bundles\<close>

definition rlen :: "int \<times> int \<Rightarrow> int" where
  "rlen r = snd r - fst r + 1"

text \<open>What the scan has established about the ranges seen so far.\<close>

definition best_ok :: "int \<Rightarrow> ranges \<Rightarrow> (nat \<times> int) option \<Rightarrow> bool" where
  "best_ok n pre best \<longleftrightarrow>
     (case best of
        None \<Rightarrow> \<forall>r\<in>set pre. rlen r < n
      | Some (i, len) \<Rightarrow> i < length pre \<and> rlen (pre ! i) = len \<and> n \<le> len \<and>
          (\<forall>r\<in>set pre. n \<le> rlen r \<longrightarrow> len \<le> rlen r))"

lemma best_ok_step:
  assumes "best_ok n pre best"
  shows "best_ok n (pre @ [r])
    (if n \<le> rlen r \<and> (case best of None \<Rightarrow> True | Some (_, best_len) \<Rightarrow> rlen r < best_len)
     then Some (length pre, rlen r) else best)"
  using assms by (cases best) (force simp: best_ok_def nth_append)+

lemma best_scan_ok:
  "best_ok n pre best \<Longrightarrow> best_ok n (pre @ rs) (best_scan n (length pre) rs best)"
proof (induction rs arbitrary: pre best)
  case Nil
  then show ?case by simp
next
  case (Cons r rs)
  define best' where
    "best' = (if n \<le> rlen r \<and> (case best of None \<Rightarrow> True | Some (_, best_len) \<Rightarrow> rlen r < best_len)
     then Some (length pre, rlen r) else best)"
  have "best_scan n (length pre) (r # rs) best = best_scan n (length (pre @ [r])) rs best'"
    by (cases r; cases best) (auto simp: best'_def rlen_def Let_def)
  then show ?case
    using Cons.IH [OF best_ok_step [OF Cons.prems, of r, folded best'_def]] by simp
qed

lemma canon_shrink:
  assumes "canon (A @ (s, e) # B)" and "s \<le> m" and "m \<le> e + 1"
  defines "rs' \<equiv> A @ (if m \<le> e then [(m, e)] else []) @ B"
  shows "canon rs'" and "ranges_set rs' = ranges_set (A @ (s, e) # B) - {s..m - 1}"
proof -
  show "canon rs'" using assms by (force simp: canon_append range_ok_def)
  have "x \<notin> ranges_set A \<union> ranges_set B" if "s \<le> x" "x \<le> e" for x
    using assms(1) that by (force simp: canon_append in_ranges_set)
  then show "ranges_set rs' = ranges_set (A @ (s, e) # B) - {s..m - 1}"
    using assms(2,3) unfolding rs'_def by auto
qed

lemma take_best_None:
  assumes "take_from_best_contiguous_range n rs = None" and "r \<in> set rs"
  shows "rlen r < n"
  using assms best_scan_ok [of n "[]" None rs]
  by (auto simp: take_from_best_contiguous_range_def best_ok_def split: option.splits prod.splits)

lemma take_best_Some:
  assumes "take_from_best_contiguous_range n rs = Some (chosen, rs')" and "canon rs" and "0 < n"
  obtains r where "r \<in> set rs" and "n \<le> rlen r" and "\<forall>r'\<in>set rs. n \<le> rlen r' \<longrightarrow> rlen r \<le> rlen r'"
    and "chosen = [fst r..fst r + n - 1]" and "canon rs'" and "ranges_set rs' = ranges_set rs - set chosen"
proof -
  obtain i len where scan: "best_scan n 0 rs None = Some (i, len)"
    using assms(1) by (auto simp: take_from_best_contiguous_range_def split: option.splits)
  have ok: "i < length rs" "rlen (rs ! i) = len" "n \<le> len" "\<forall>r\<in>set rs. n \<le> rlen r \<longrightarrow> len \<le> rlen r"
    using best_scan_ok [of n "[]" None rs] scan by (auto simp: best_ok_def)
  obtain s e where se: "rs ! i = (s, e)" by (cases "rs ! i")
  define A B where "A = take i rs" and "B = drop (Suc i) rs"
  have rs: "rs = A @ (s, e) # B" using ok(1) se by (simp add: A_def B_def id_take_nth_drop [symmetric] flip: se)
  have eq: "chosen = [s..s + n - 1]" "rs' = A @ (if s + n \<le> e then [(s + n, e)] else []) @ B"
    using assms(1) scan se ok(1)
    by (auto simp: take_from_best_contiguous_range_def A_def B_def upd_conv_take_nth_drop)
  have "s + n \<le> e + 1" using ok(2,3) se by (simp add: rlen_def)
  with canon_shrink [of A s e B "s + n"] assms(2,3) rs eq
  have "canon rs'" "ranges_set rs' = ranges_set rs - set chosen" by auto
  then show thesis using that [of "(s, e)"] ok rs eq se by auto
qed

lemma take_ranges_correct:
  assumes "canon rs" and "0 \<le> need" and "need \<le> int (card (ranges_set rs))"
  shows "\<exists>chosen rest. take_ranges need rs = Inr (chosen, rest) \<and> int (length chosen) = need \<and>
    distinct chosen \<and> set chosen \<subseteq> ranges_set rs \<and> canon rest \<and>
    ranges_set rest = ranges_set rs - set chosen"
  using assms
proof (induction need rs rule: take_ranges.induct)
  case (1 need rs)
  show ?case
  proof (cases "need \<le> 0")
    case True
    then have "take_ranges need rs = Inr ([], rs)" by (simp add: take_ranges.simps)
    with True show ?thesis using "1.prems" by simp
  next
    case False
    then obtain r rs' where rs: "rs = r # rs'" using "1.prems"(3) by (cases rs) auto
    obtain s e where r: "r = (s, e)" by (cases r)
    define tk where "tk = min need (e - s + 1)"
    define rs'' where "rs'' = (if s + tk \<le> e then (s + tk, e) # rs' else rs')"
    have se: "s \<le> e" using "1.prems"(1) rs r by (simp add: range_ok_def)
    then have tk: "0 < tk" "tk \<le> need" "s + tk \<le> e + 1" using False by (auto simp: tk_def)
    have len: "int (length [s..s + tk - 1]) = tk" using tk by simp
    have shrink: "canon rs''" "ranges_set rs'' = ranges_set rs - {s..s + tk - 1}"
      using canon_shrink [of "[]" s e rs' "s + tk"] "1.prems"(1) rs r tk by (auto simp: rs''_def)
    have sub: "{s..s + tk - 1} \<subseteq> ranges_set rs" using rs r tk by auto
    have "int (card (ranges_set rs'')) = int (card (ranges_set rs)) - tk"
      using shrink(2) sub tk card_Diff_subset [OF _ sub] card_mono [OF _ sub] by auto
    then have "\<exists>chosen rest. take_ranges (need - tk) rs'' = Inr (chosen, rest) \<and> int (length chosen) = need - tk \<and>
        distinct chosen \<and> set chosen \<subseteq> ranges_set rs'' \<and> canon rest \<and>
        ranges_set rest = ranges_set rs'' - set chosen"
      using "1.IH" [OF False rs r [symmetric] tk_def refl rs''_def] "1.prems" shrink(1) tk len by auto
    then obtain chosen rest where IH: "take_ranges (need - tk) rs'' = Inr (chosen, rest)"
      "int (length chosen) = need - tk" "distinct chosen" "set chosen \<subseteq> ranges_set rs''" "canon rest"
      "ranges_set rest = ranges_set rs'' - set chosen" by blast
    have "take_ranges need rs = rbind (take_ranges (need - int (length [s..s + tk - 1])) rs'')
        (\<lambda>(chosen, rest). Inr ([s..s + tk - 1] @ chosen, rest))"
      unfolding rs''_def tk_def by (subst take_ranges.simps) (simp only: False rs r if_False list.case prod.case Let_def)
    then have "take_ranges need rs = Inr ([s..s + tk - 1] @ chosen, rest)"
      by (simp only: len IH(1) rbind_Inr prod.case)
    moreover have "int (length ([s..s + tk - 1] @ chosen)) = need" using len IH(2) by simp
    moreover have "distinct ([s..s + tk - 1] @ chosen)" using IH(3,4) shrink(2) by auto
    moreover have "set ([s..s + tk - 1] @ chosen) \<subseteq> ranges_set rs" using IH(4) shrink(2) sub by auto
    moreover have "ranges_set rest = ranges_set rs - set ([s..s + tk - 1] @ chosen)"
      using IH(6) shrink(2) by auto
    ultimately show ?thesis using IH(5) by blast
  qed
qed

section \<open>The allocator invariant\<close>

definition alloc_inv :: "dsa_allocator \<Rightarrow> bool" where
  "alloc_inv a \<longleftrightarrow> canon (free_ranges a) \<and> distinct (map fst (owners a)) \<and>
     fst ` set (owners a) \<union> ranges_set (free_ranges a) = {1..capacity_bundles (layout a)} \<and>
     fst ` set (owners a) \<inter> ranges_set (free_ranges a) = {}"

definition owner_of :: "dsa_allocator \<Rightarrow> int \<Rightarrow> dsa_owner option" where
  "owner_of a b = map_of (owners a) b"

lemma free_bundle_count_card: "alloc_inv a \<Longrightarrow> free_bundle_count a = int (card (ranges_set (free_ranges a)))"
  by (simp add: free_bundle_count_def alloc_inv_def free_count_card)

lemma owner_of_dom: "dom (owner_of a) = fst ` set (owners a)"
  by (simp add: owner_of_def [abs_def] dom_map_of_conv_image_fst)

lemma alloc_inv_init:
  "0 < capacity_bundles l \<Longrightarrow> alloc_inv (DSASharedBundleAllocator l)"
  by (auto simp: alloc_inv_def DSASharedBundleAllocator_def range_ok_def)

lemma free_bundles_state:
  "fold (\<lambda>b a. a\<lparr>owners := AList.delete b (owners a),
                  free_ranges := insert_free_bundle b (free_ranges a)\<rparr>) ids a =
   a\<lparr>owners := filter (\<lambda>p. fst p \<notin> set ids) (owners a),
     free_ranges := fold insert_free_bundle ids (free_ranges a)\<rparr>"
  by (induction ids arbitrary: a) (simp_all add: AList.delete_eq case_prod_beta eq_commute [of _ "fst _"])

lemma fold_insert_free:
  assumes "canon rs"
  shows "canon (fold insert_free_bundle ids rs)"
    and "ranges_set (fold insert_free_bundle ids rs) = set ids \<union> ranges_set rs"
  using assms by (induction ids arbitrary: rs) (simp_all add: insert_free_bundle_correct)

lemma update_new_keys:
  assumes "distinct ks" and "set ks \<inter> fst ` set al = {}"
  shows "fold (\<lambda>k. AList.update k v) ks al = al @ map (\<lambda>k. (k, v)) ks"
proof -
  have new: "AList.update k v al = al @ [(k, v)]" if "k \<notin> fst ` set al" for k and al :: "('a \<times> 'b) list"
    using that by (induction al) auto
  show ?thesis using assms by (induction ks arbitrary: al) (auto simp: new)
qed

lemma allocate_spec:
  assumes inv: "alloc_inv a" and n: "0 < n" "n \<le> free_bundle_count a"
  obtains chosen rs where
    "allocate ow n a = Inr (chosen, a\<lparr>free_ranges := rs, owners := owners a @ map (\<lambda>b. (b, ow)) chosen\<rparr>)"
    and "int (length chosen) = n" and "distinct chosen" and "set chosen \<subseteq> ranges_set (free_ranges a)"
    and "canon rs" and "ranges_set rs = ranges_set (free_ranges a) - set chosen"
    and "\<exists>r\<in>set (free_ranges a). n \<le> rlen r \<Longrightarrow> \<exists>r\<in>set (free_ranges a). n \<le> rlen r \<and>
      chosen = [fst r..fst r + n - 1] \<and> (\<forall>r'\<in>set (free_ranges a). n \<le> rlen r' \<longrightarrow> rlen r \<le> rlen r')"
proof -
  let ?rs = "free_ranges a"
  have canon: "canon ?rs" using inv by (simp add: alloc_inv_def)
  define pick where "pick = (case take_from_best_contiguous_range n ?rs of
      Some r \<Rightarrow> Inr r | None \<Rightarrow> take_ranges n ?rs)"
  obtain chosen rs where pick: "pick = Inr (chosen, rs)" and c: "int (length chosen) = n" "distinct chosen"
    "set chosen \<subseteq> ranges_set ?rs" "canon rs" "ranges_set rs = ranges_set ?rs - set chosen"
    and best: "\<exists>r\<in>set ?rs. n \<le> rlen r \<Longrightarrow> \<exists>r\<in>set ?rs. n \<le> rlen r \<and>
      chosen = [fst r..fst r + n - 1] \<and> (\<forall>r'\<in>set ?rs. n \<le> rlen r' \<longrightarrow> rlen r \<le> rlen r')"
  proof (cases "take_from_best_contiguous_range n ?rs")
    case None
    then have "\<not> (\<exists>r\<in>set ?rs. n \<le> rlen r)" by (meson linorder_not_le take_best_None)
    moreover have "n \<le> int (card (ranges_set ?rs))" using n(2) inv by (simp add: free_bundle_count_card)
    ultimately show ?thesis
      using take_ranges_correct [OF canon, of n] n(1) None that by (auto simp: pick_def)
  next
    case (Some p)
    obtain chosen rs where p: "p = (chosen, rs)" by (cases p)
    obtain r where r: "r \<in> set ?rs" "n \<le> rlen r" "\<forall>r'\<in>set ?rs. n \<le> rlen r' \<longrightarrow> rlen r \<le> rlen r'"
      "chosen = [fst r..fst r + n - 1]" "canon rs" "ranges_set rs = ranges_set ?rs - set chosen"
      using take_best_Some [OF Some [unfolded p] canon n(1)] .
    then have "set chosen \<subseteq> ranges_set ?rs" by (force simp: in_ranges_set rlen_def)
    moreover have "pick = Inr (chosen, rs)" using Some p by (simp add: pick_def)
    moreover have "int (length chosen) = n" "distinct chosen" using r(4) n(1) by simp_all
    ultimately show ?thesis using r that [of chosen rs] by blast
  qed
  have "fold (\<lambda>b. AList.update b ow) chosen (owners a) = owners a @ map (\<lambda>b. (b, ow)) chosen"
    using c inv by (intro update_new_keys) (auto simp: alloc_inv_def)
  then have "allocate ow n a = Inr (chosen, a\<lparr>free_ranges := rs, owners := owners a @ map (\<lambda>b. (b, ow)) chosen\<rparr>)"
    using n pick by (simp add: allocate_def pick_def [symmetric])
  then show thesis using that c best by blast
qed

lemma alloc_inv_take:
  assumes "alloc_inv a" and "distinct chosen" and "set chosen \<subseteq> ranges_set (free_ranges a)"
    and "canon rs" and "ranges_set rs = ranges_set (free_ranges a) - set chosen"
  shows "alloc_inv (a\<lparr>free_ranges := rs, owners := owners a @ map (\<lambda>b. (b, ow)) chosen\<rparr>)"
proof -
  have fst: "map fst (owners a @ map (\<lambda>b. (b, ow)) chosen) = map fst (owners a) @ chosen"
    by (simp add: o_def)
  then have owned: "fst ` set (owners a @ map (\<lambda>b. (b, ow)) chosen) = fst ` set (owners a) \<union> set chosen"
    by (metis set_append set_map)
  have moved: "(O' \<union> C) \<union> (F - C) = K \<and> (O' \<union> C) \<inter> (F - C) = {}"
    if "O' \<union> F = K" "O' \<inter> F = {}" "C \<subseteq> F" for O' C F K :: "int set"
    using that by blast
  have "distinct (map fst (owners a) @ chosen)" using assms(1-3) by (auto simp: alloc_inv_def)
  moreover have "alloc_inv (a\<lparr>free_ranges := rs, owners := os\<rparr>) \<longleftrightarrow> canon rs \<and> distinct (map fst os) \<and>
      fst ` set os \<union> ranges_set rs = {1..capacity_bundles (layout a)} \<and> fst ` set os \<inter> ranges_set rs = {}" for os
    by (simp add: alloc_inv_def)
  ultimately show ?thesis
    using moved [OF _ _ assms(3)] assms(1,4,5) by (simp only: alloc_inv_def fst owned)
qed

lemma allocate_inv:
  assumes "alloc_inv a" and "allocate ow n a = Inr (chosen, a')"
  shows "alloc_inv a'"
proof (cases "0 < n \<and> n \<le> free_bundle_count a")
  case True
  show ?thesis
  proof (rule allocate_spec [OF assms(1), of n ow])
    fix chosen' rs
    assume "allocate ow n a = Inr (chosen', a\<lparr>free_ranges := rs, owners := owners a @ map (\<lambda>b. (b, ow)) chosen'\<rparr>)"
      and c: "distinct chosen'" "set chosen' \<subseteq> ranges_set (free_ranges a)" "canon rs"
        "ranges_set rs = ranges_set (free_ranges a) - set chosen'"
    then show ?thesis using alloc_inv_take [OF assms(1) c, of ow] assms(2) by simp
  qed (simp_all add: True)
next
  case False
  then show ?thesis using assms by (auto simp: allocate_def split: if_splits)
qed

lemma allocate_succeeds:
  assumes "alloc_inv a" and "n \<le> free_bundle_count a"
  shows "\<exists>bs a'. allocate ow n a = Inr (bs, a') \<and> int (length bs) = max 0 n"
proof (cases "0 < n")
  case True
  then show ?thesis by (rule allocate_spec [OF assms(1) _ assms(2), of ow]) auto
qed (simp add: allocate_def)

lemma free_bundles_spec:
  assumes "distinct ids" and "\<forall>b\<in>set ids. owner_of a b = Some ow"
  shows "free_bundles ow ids a = Inr (a\<lparr>owners := filter (\<lambda>p. fst p \<notin> set ids) (owners a),
     free_ranges := fold insert_free_bundle ids (free_ranges a)\<rparr>)"
  using assms by (simp add: free_bundles_def free_bundles_state owner_of_def)

lemma free_bundles_inv:
  assumes "alloc_inv a" and "free_bundles ow ids a = Inr a'"
  shows "alloc_inv a'"
proof -
  have ids: "distinct ids" "\<forall>b\<in>set ids. owner_of a b = Some ow"
    using assms(2) by (auto simp: free_bundles_def owner_of_def split: if_splits)
  then have sub: "set ids \<subseteq> fst ` set (owners a)"
    by (metis domI owner_of_dom subsetI)
  have a': "a' = a\<lparr>owners := filter (\<lambda>p. fst p \<notin> set ids) (owners a),
     free_ranges := fold insert_free_bundle ids (free_ranges a)\<rparr>"
    using free_bundles_spec [OF ids] assms(2) by simp
  have "fst ` set (owners a') = fst ` set (owners a) - set ids" by (auto simp: a')
  then show ?thesis
    using assms(1) sub by (auto simp: a' alloc_inv_def fold_insert_free distinct_map intro: inj_on_subset)
qed

lemma free_after_allocate:
  assumes inv: "alloc_inv a" and alloc: "allocate ow n a = Inr (chosen, a')" and perm: "mset ids = mset chosen"
  shows "free_bundles ow ids a' = Inr a"
proof (cases "0 < n \<and> n \<le> free_bundle_count a")
  case True
  show ?thesis
  proof (rule allocate_spec [OF inv, of n ow])
    fix chosen' rs
    let ?a = "a\<lparr>free_ranges := rs, owners := owners a @ map (\<lambda>b. (b, ow)) chosen'\<rparr>"
    assume "allocate ow n a = Inr (chosen', ?a)"
      and c: "distinct chosen'" "set chosen' \<subseteq> ranges_set (free_ranges a)" "canon rs"
        "ranges_set rs = ranges_set (free_ranges a) - set chosen'"
    then have eq: "chosen = chosen'" "a' = ?a" using alloc by auto
    have ids: "distinct ids" "set ids = set chosen'"
      using perm c(1) eq by (metis mset_eq_imp_distinct_iff) (use perm eq in \<open>metis set_mset_mset\<close>)
    have fresh: "set chosen' \<inter> fst ` set (owners a) = {}" using c(2) inv by (auto simp: alloc_inv_def)
    then have "map_of (owners a) b = None" if "b \<in> set chosen'" for b
      using that by (auto simp: map_of_eq_None_iff)
    then have "\<forall>b\<in>set ids. owner_of ?a b = Some ow"
      using ids(2) by (auto simp: owner_of_def map_add_def map_of_map_restrict)
    moreover have "fold insert_free_bundle ids rs = free_ranges a"
      using fold_insert_free [OF c(3), of ids] inv c(2,4) ids(2)
      by (intro canon_unique) (auto simp: alloc_inv_def)
    moreover have "filter (\<lambda>p. fst p \<notin> set ids) (owners a) = owners a"
      "filter (\<lambda>p. fst p \<notin> set ids) (map (\<lambda>b. (b, ow)) chosen') = []"
      using fresh ids(2) by (auto simp: filter_id_conv filter_empty_conv)
    ultimately show ?thesis using free_bundles_spec [OF ids(1), of ?a ow] eq by simp
  qed (simp_all add: True)
next
  case False
  then show ?thesis using alloc perm by (auto simp: allocate_def free_bundles_def split: if_splits)
qed

text \<open>Every bundle is free or counted for exactly one owner.\<close>

lemma count_owners: "count_list os LATENT + count_list os INDEXER = length os"
proof (induction os)
  case (Cons ow os)
  then show ?case by (cases ow) auto
qed simp

lemma alloc_inv_length:
  assumes "alloc_inv a" and "0 < capacity_bundles (layout a)"
  shows "free_bundle_count a + int (length (owners a)) = capacity_bundles (layout a)"
proof -
  have "card (fst ` set (owners a)) = length (owners a)"
    using assms(1) distinct_card [of "map fst (owners a)"] by (simp add: alloc_inv_def)
  moreover have "card (fst ` set (owners a) \<union> ranges_set (free_ranges a)) =
      card (fst ` set (owners a)) + card (ranges_set (free_ranges a))"
    using assms(1) by (intro card_Un_disjoint) (auto simp: alloc_inv_def)
  ultimately have "nat (capacity_bundles (layout a)) = length (owners a) + card (ranges_set (free_ranges a))"
    using assms(1) by (simp add: alloc_inv_def)
  then show ?thesis using assms by (simp add: free_bundle_count_card)
qed

lemma alloc_inv_counts:
  assumes "alloc_inv a" and "0 < capacity_bundles (layout a)"
  shows "free_bundle_count a + int (owner_bundle_counts a LATENT) + int (owner_bundle_counts a INDEXER)
    = capacity_bundles (layout a)"
  using alloc_inv_length [OF assms] count_owners [of "map snd (owners a)"] by (simp add: owner_bundle_counts_def)

lemma allocate_owners_length:
  assumes "alloc_inv a" and "allocate ow n a = Inr (bs, a')"
  shows "length (owners a') = length (owners a) + length bs"
proof (cases "0 < n \<and> n \<le> free_bundle_count a")
  case True
  then show ?thesis using assms(2) by (elim conjE allocate_spec [OF assms(1), of n ow]) auto
next
  case False
  then show ?thesis using assms(2) by (auto simp: allocate_def split: if_splits)
qed

section \<open>Block ids and bundles\<close>

text \<open>A layout its constructor accepts, with non-negative dimensions.\<close>

definition layout_ok :: "dsa_layout \<Rightarrow> bool" where
  "layout_ok l \<longleftrightarrow>
     DSASharedBlockLayout (latent_page_size_bytes l) (indexer_page_size_bytes l) (capacity_bundles l)
       (k_nope_dim l) (k_pe_dim l) (indexer_dim l) = Inr l \<and>
     0 \<le> k_nope_dim l \<and> 0 \<le> k_pe_dim l \<and> 0 < indexer_dim l"

lemma layout_ok_facts:
  assumes "layout_ok l"
  shows "0 < latent_blocks_per_bundle l" and "0 < indexer_blocks_per_bundle l"
    and "0 < capacity_bundles l" and "0 \<le> nope_pages_per_bundle l" and "0 \<le> pe_pages_per_bundle l"
    and "nope_pages_per_bundle l + pe_pages_per_bundle l = indexer_blocks_per_bundle l"
proof -
  let ?p = "latent_page_size_bytes l" and ?i = "indexer_page_size_bytes l"
  have l: "l = \<lparr>latent_page_size_bytes = ?p, indexer_page_size_bytes = ?i, capacity_bundles = capacity_bundles l,
     k_nope_dim = k_nope_dim l, k_pe_dim = k_pe_dim l, indexer_dim = indexer_dim l\<rparr>" by simp
  have ok: "0 < ?p" "0 < ?i" "0 < capacity_bundles l"
    "nope_pages_per_bundle l + pe_pages_per_bundle l = indexer_blocks_per_bundle l"
    using assms unfolding layout_ok_def DSASharedBlockLayout_def
    by (simp_all add: Let_def l [symmetric] not_le split: if_splits)
  have lcm: "?p * ?i div gcd ?p ?i = lcm ?p ?i" using ok(1,2) by (simp add: lcm_gcd pos_imp_zdiv_nonneg_iff gcd_pos_int)
  have "0 < lcm ?p ?i" using ok(1,2) by (simp add: lcm_pos_int)
  then show pos: "0 < latent_blocks_per_bundle l" "0 < indexer_blocks_per_bundle l"
    using ok(1,2) by (simp_all add: latent_blocks_per_bundle_def indexer_blocks_per_bundle_def
        bundle_page_size_bytes_def dsa_lcm_def lcm zdvd_imp_le pos_imp_zdiv_pos_iff)
  show "0 < capacity_bundles l"
    "nope_pages_per_bundle l + pe_pages_per_bundle l = indexer_blocks_per_bundle l"
    using ok by simp_all
  show "0 \<le> nope_pages_per_bundle l" "0 \<le> pe_pages_per_bundle l"
    using assms pos by (simp_all add: layout_ok_def nope_pages_per_bundle_def pe_pages_per_bundle_def
        pos_imp_zdiv_nonneg_iff)
qed

lemma blocks_per_bundle_pos: "layout_ok l \<Longrightarrow> 0 < blocks_per_bundle l ow"
  by (cases ow) (simp_all add: layout_ok_facts)

lemma div_eq_iff_slab: "0 < n \<Longrightarrow> x div n = b \<longleftrightarrow> b * n \<le> x \<and> x < b * n + n" for x n b :: int
  by (metis add.commute div_pos_pos_trivial int_div_pos_eq le_add_diff_inverse less_diff_eq mult.commute
      pos_mod_bound pos_mod_sign diff_ge_0_iff_ge minus_div_mult_eq_mod diff_less_eq add_diff_cancel_left')

text \<open>Decoding a block id gives the bundle whose block ids contain it.\<close>

lemma bundle_id_iff:
  assumes ok: "layout_ok l" and x: "0 < x" "x < row_count l ow" and b: "1 \<le> b" "b \<le> capacity_bundles l"
  shows "bundle_id_for_block l ow x = Inr b \<longleftrightarrow> (\<exists>ids. block_ids_for_bundle l ow b = Inr ids \<and> x \<in> set ids)"
proof (cases ow)
  case LATENT
  have "0 < latent_blocks_per_bundle l" using ok by (simp add: layout_ok_facts)
  then show ?thesis
    using x b LATENT
    by (auto simp: bundle_id_for_block_def block_ids_for_bundle_def Let_def div_eq_iff_slab image_iff
        intro: bexI [of _ "x - b * latent_blocks_per_bundle l"])
next
  case INDEXER
  define np pp slab where "np = nope_pages_per_bundle l" and "pp = pe_pages_per_bundle l"
    and "slab = slot_count l * np"
  have nonneg: "0 \<le> np" "0 \<le> pp" and sum: "np + pp = indexer_blocks_per_bundle l"
    using ok by (simp_all add: np_def pp_def layout_ok_facts)
  have xlt: "x < slab + slot_count l * pp"
    using x(2) INDEXER by (simp add: row_count_def slab_def distrib_left flip: sum)
  have "b + 1 \<le> slot_count l" using b by (simp add: slot_count_def)
  then have "(b + 1) * np \<le> slab" using nonneg by (simp add: slab_def mult_right_mono)
  then have below: "b * np + np \<le> slab" by (simp add: distrib_right)
  have ids: "(\<exists>ids. block_ids_for_bundle l ow b = Inr ids \<and> x \<in> set ids) \<longleftrightarrow>
      b * np \<le> x \<and> x < b * np + np \<or> slab + b * pp \<le> x \<and> x < slab + b * pp + pp"
    using INDEXER b by (auto simp: block_ids_for_bundle_def Let_def np_def pp_def slab_def)
  show ?thesis
  proof (cases "x < slab")
    case True
    then have "0 < np" using x(1) nonneg by (cases "np = 0") (auto simp: slab_def)
    moreover have "0 \<le> b * pp" using b nonneg by simp
    with True have "\<not> slab + b * pp \<le> x" by linarith
    ultimately show ?thesis
      using ids True INDEXER x(1)
      by (auto simp: bundle_id_for_block_def np_def [symmetric] slab_def [symmetric] div_eq_iff_slab)
  next
    case False
    then have "0 < pp" using xlt nonneg by (cases "pp = 0") auto
    then show ?thesis
      using ids False INDEXER x(1) below
      by (auto simp: bundle_id_for_block_def np_def [symmetric] pp_def [symmetric] slab_def [symmetric]
          div_eq_iff_slab)
  qed
qed

lemma block_ids_props:
  assumes ok: "layout_ok l" and b: "1 \<le> b" "b \<le> capacity_bundles l"
  obtains ids where "block_ids_for_bundle l ow b = Inr ids" and "distinct ids"
    and "int (length ids) = blocks_per_bundle l ow" and "\<forall>x\<in>set ids. 0 < x \<and> x < row_count l ow"
proof (cases ow)
  case LATENT
  define n where "n = latent_blocks_per_bundle l"
  have "0 < n" using ok by (simp add: n_def layout_ok_facts)
  have "n \<le> b * n" "b * n \<le> capacity_bundles l * n" using b \<open>0 < n\<close> by (simp_all add: mult_right_mono)
  then have "0 < b * n" "b * n + n - 1 < capacity_bundles l * n + n" using \<open>0 < n\<close> by linarith+
  then have "\<forall>x\<in>{b * n..b * n + n - 1}. 0 < x \<and> x < capacity_bundles l * n + n"
    by (meson atLeastAtMost_iff le_less_trans less_le_trans)
  moreover have "row_count l ow = capacity_bundles l * n + n"
    by (simp add: row_count_def slot_count_def LATENT n_def distrib_right)
  moreover have "set (map (\<lambda>i. b * n + i) [0..n - 1]) = {b * n..b * n + n - 1}"
    by (simp add: algebra_simps)
  ultimately have range: "\<forall>x\<in>set (map (\<lambda>i. b * n + i) [0..n - 1]). 0 < x \<and> x < row_count l ow" by (simp only:)
  show ?thesis
  proof (rule that)
    show "block_ids_for_bundle l ow b = Inr (map (\<lambda>i. b * n + i) [0..n - 1])"
      using b LATENT by (simp add: block_ids_for_bundle_def Let_def n_def)
    show "distinct (map (\<lambda>i. b * n + i) [0..n - 1])" by (simp add: distinct_map inj_on_def)
    show "int (length (map (\<lambda>i. b * n + i) [0..n - 1])) = blocks_per_bundle l ow"
      using LATENT \<open>0 < n\<close> by (simp add: n_def)
  qed (rule range)
next
  case INDEXER
  define np pp slab where "np = nope_pages_per_bundle l" and "pp = pe_pages_per_bundle l"
    and "slab = slot_count l * np"
  have nonneg: "0 \<le> np" "0 \<le> pp" and sum: "np + pp = indexer_blocks_per_bundle l"
    using ok by (simp_all add: np_def pp_def layout_ok_facts)
  have mult: "np \<le> b * np" "b * np \<le> capacity_bundles l * np" "pp \<le> b * pp" "b * pp \<le> capacity_bundles l * pp"
    using b nonneg by (simp_all add: mult_right_mono mult_le_cancel_right1)
  have size: "slab = capacity_bundles l * np + np" "row_count l ow = slab + capacity_bundles l * pp + pp"
    using INDEXER by (simp_all add: slab_def slot_count_def row_count_def distrib_left distrib_right flip: sum)
  let ?ids = "[b * np..b * np + np - 1] @ [slab + b * pp..slab + b * pp + pp - 1]"
  have "{b * np..b * np + np - 1} \<inter> {slab + b * pp..slab + b * pp + pp - 1} = {}"
    using mult size(1) nonneg by (simp only: disjoint_iff atLeastAtMost_iff) linarith
  moreover have "0 < x \<and> x < row_count l ow" if "x \<in> set ?ids" for x
  proof -
    from that consider "b * np \<le> x" "x \<le> b * np + np - 1" | "slab + b * pp \<le> x" "x \<le> slab + b * pp + pp - 1"
      by auto
    then show ?thesis using mult size nonneg by cases linarith+
  qed
  moreover have "block_ids_for_bundle l ow b = Inr ?ids"
    using INDEXER b by (simp add: block_ids_for_bundle_def Let_def np_def pp_def slab_def)
  moreover have "int (length ?ids) = blocks_per_bundle l ow" using nonneg sum INDEXER by simp
  ultimately show ?thesis by (intro that [of ?ids]) (simp_all only: distinct_append distinct_upto set_upto, blast)
qed

definition bids :: "dsa_layout \<Rightarrow> dsa_owner \<Rightarrow> int \<Rightarrow> int list" where
  "bids l ow b = projr (block_ids_for_bundle l ow b)"

lemma bids_exact:
  assumes "layout_ok l" and "1 \<le> b" and "b \<le> capacity_bundles l"
  shows "block_ids_for_bundle l ow b = Inr (bids l ow b)" and "distinct (bids l ow b)"
    and "int (length (bids l ow b)) = blocks_per_bundle l ow"
    and "x \<in> set (bids l ow b) \<longleftrightarrow> 0 < x \<and> x < row_count l ow \<and> bundle_id_for_block l ow x = Inr b"
proof -
  obtain ids where ids: "block_ids_for_bundle l ow b = Inr ids" "distinct ids"
    "int (length ids) = blocks_per_bundle l ow" "\<forall>x\<in>set ids. 0 < x \<and> x < row_count l ow"
    by (rule block_ids_props [OF assms])
  then show "block_ids_for_bundle l ow b = Inr (bids l ow b)" "distinct (bids l ow b)"
    "int (length (bids l ow b)) = blocks_per_bundle l ow" by (simp_all add: bids_def)
  show "x \<in> set (bids l ow b) \<longleftrightarrow> 0 < x \<and> x < row_count l ow \<and> bundle_id_for_block l ow x = Inr b"
    using ids bundle_id_iff [OF assms(1) _ _ assms(2,3), of x ow] by (auto simp: bids_def)
qed

lemma bundle_id_defined:
  assumes "layout_ok l" and "0 < x" and "x < row_count l ow"
  shows "\<exists>b. bundle_id_for_block l ow x = Inr b"
proof (cases ow)
  case LATENT
  then show ?thesis using assms(2) by (simp add: bundle_id_for_block_def)
next
  case INDEXER
  have "row_count l ow = slot_count l * nope_pages_per_bundle l + slot_count l * pe_pages_per_bundle l"
    using layout_ok_facts(6) [OF assms(1)] INDEXER by (simp add: row_count_def flip: distrib_left)
  then show ?thesis using assms(2,3) INDEXER by (auto simp: bundle_id_for_block_def Let_def)
qed

lemma bids_nonempty:
  assumes "layout_ok l" and "1 \<le> b" and "b \<le> capacity_bundles l"
  shows "bids l ow b \<noteq> []"
  using bids_exact(3) [OF assms, of ow] blocks_per_bundle_pos [OF assms(1), of ow] by auto

section \<open>The allocator as an interface\<close>

text \<open>What the logical pools rely on: who owns a bundle after an allocation and a release.\<close>

locale bundle_source =
  fixes inv :: "'a \<Rightarrow> bool"
    and own :: "'a \<Rightarrow> int \<Rightarrow> dsa_owner option"
    and alloc :: "dsa_owner \<Rightarrow> int \<Rightarrow> 'a \<Rightarrow> (int list \<times> 'a) res"
    and release :: "dsa_owner \<Rightarrow> int list \<Rightarrow> 'a \<Rightarrow> 'a res"
  assumes alloc_law: "inv a \<Longrightarrow> alloc ow n a = Inr (bs, a') \<Longrightarrow>
      inv a' \<and> distinct bs \<and> (\<forall>b\<in>set bs. own a b = None) \<and>
      own a' = (\<lambda>b. if b \<in> set bs then Some ow else own a b)"
    and release_law: "inv a \<Longrightarrow> release ow bs a = Inr a' \<Longrightarrow>
      inv a' \<and> own a' = (\<lambda>b. if b \<in> set bs then None else own a b)"
    and release_defined: "inv a \<Longrightarrow>
      (\<exists>a'. release ow bs a = Inr a') \<longleftrightarrow> distinct bs \<and> (\<forall>b\<in>set bs. own a b = Some ow)"
begin

lemma alloc_keeps_other:
  assumes "inv a" and "alloc ow n a = Inr (bs, a')" and "own a b = Some ow'"
  shows "own a' b = Some ow'"
  using alloc_law [OF assms(1,2)] assms(3) by auto

lemma release_keeps_other:
  assumes "inv a" and "release ow bs a = Inr a'" and "own a b = Some ow'" and "ow' \<noteq> ow"
  shows "own a' b = Some ow'"
  using release_law [OF assms(1,2)] release_defined [OF assms(1), of ow bs] assms(2-) by auto

lemma alloc_then_release:
  assumes "inv a" and "alloc ow n a = Inr (bs, a')" and "distinct cs" and "set cs \<subseteq> set bs"
  shows "\<exists>a''. release ow cs a' = Inr a''"
  using alloc_law [OF assms(1,2)] release_defined [of a' ow cs] assms(3,4) by auto

end

lemma owner_of_take:
  "set chosen \<inter> fst ` set (owners a) = {} \<Longrightarrow>
   owner_of (a\<lparr>free_ranges := rs, owners := owners a @ map (\<lambda>b. (b, ow)) chosen\<rparr>) =
   (\<lambda>b. if b \<in> set chosen then Some ow else owner_of a b)"
proof (rule ext)
  fix b
  assume "set chosen \<inter> fst ` set (owners a) = {}"
  then have "map_of (owners a) b = None" if "b \<in> set chosen" using that by (auto simp: map_of_eq_None_iff)
  then show "owner_of (a\<lparr>free_ranges := rs, owners := owners a @ map (\<lambda>b. (b, ow)) chosen\<rparr>) b =
      (if b \<in> set chosen then Some ow else owner_of a b)"
    by (auto simp: owner_of_def map_add_def map_of_map_restrict restrict_map_def split: option.split)
qed

lemma map_of_filter_keys: "map_of (filter (\<lambda>p. fst p \<notin> S) al) b = (if b \<in> S then None else map_of al b)"
  by (induction al) auto

lemma allocate_owner_law:
  assumes inv: "alloc_inv a" and alloc: "allocate ow n a = Inr (bs, a')"
  shows "alloc_inv a' \<and> distinct bs \<and> (\<forall>b\<in>set bs. owner_of a b = None) \<and>
    owner_of a' = (\<lambda>b. if b \<in> set bs then Some ow else owner_of a b)"
proof (cases "0 < n \<and> n \<le> free_bundle_count a")
  case True
  show ?thesis
  proof (rule allocate_spec [OF inv, of n ow])
    fix chosen rs
    assume eq: "allocate ow n a = Inr (chosen, a\<lparr>free_ranges := rs, owners := owners a @ map (\<lambda>b. (b, ow)) chosen\<rparr>)"
      and c: "distinct chosen" "set chosen \<subseteq> ranges_set (free_ranges a)"
    have fresh: "set chosen \<inter> fst ` set (owners a) = {}" using inv c(2) by (auto simp: alloc_inv_def)
    then have "\<forall>b\<in>set chosen. owner_of a b = None" by (auto simp: owner_of_def map_of_eq_None_iff)
    then show ?thesis
      using allocate_inv [OF inv alloc] alloc eq c(1) owner_of_take [OF fresh] by auto
  qed (simp_all add: True)
next
  case False
  then show ?thesis using assms by (auto simp: allocate_def split: if_splits)
qed

lemma free_bundles_defined:
  "(\<exists>a'. free_bundles ow ids a = Inr a') \<longleftrightarrow> distinct ids \<and> (\<forall>b\<in>set ids. owner_of a b = Some ow)"
  by (simp add: free_bundles_def owner_of_def)

lemma free_bundles_owner_law:
  assumes "alloc_inv a" and "free_bundles ow ids a = Inr a'"
  shows "alloc_inv a' \<and> owner_of a' = (\<lambda>b. if b \<in> set ids then None else owner_of a b)"
proof -
  have ids: "distinct ids" "\<forall>b\<in>set ids. owner_of a b = Some ow"
    using free_bundles_defined [of ow ids a] assms(2) by auto
  have "owner_of a' = (\<lambda>b. if b \<in> set ids then None else owner_of a b)"
    using free_bundles_spec [OF ids] assms(2) by (auto simp: owner_of_def map_of_filter_keys)
  then show ?thesis using free_bundles_inv [OF assms] by simp
qed

interpretation dsa: bundle_source alloc_inv owner_of allocate free_bundles
proof (unfold_locales, goal_cases)
  case (1 a ow n bs a')
  then show ?case by (rule allocate_owner_law)
next
  case (2 a ow bs a')
  then show ?case by (rule free_bundles_owner_law)
next
  case (3 a ow bs)
  show ?case by (rule free_bundles_defined)
qed

section \<open>Properties\<close>

text \<open>C12. \<^verbatim>\<open>DSASharedBundleAllocator.allocate\<close> on a well-formed allocator: a request for no
  bundles changes nothing; a request for more bundles than are free raises \<^verbatim>\<open>ValueError\<close>;
  any other request succeeds, returns that many distinct bundles that nobody owned, records
  the caller as their owner and nothing else, keeps the free ranges canonical and the
  partition of the capacity, and when some free range is long enough the bundles are
  contiguous and cut from the start of a shortest such range (best fit).\<close>

theorem allocate_contract:
  assumes "alloc_inv a"
  shows "(n \<le> 0 \<longrightarrow> allocate ow n a = Inr ([], a)) \<and>
    (0 < n \<and> free_bundle_count a < n \<longrightarrow> allocate ow n a = Inl ValueError) \<and>
    (0 < n \<and> n \<le> free_bundle_count a \<longrightarrow>
      (\<exists>bs a'. allocate ow n a = Inr (bs, a') \<and> int (length bs) = n \<and> distinct bs \<and>
        (\<forall>b\<in>set bs. owner_of a b = None) \<and> alloc_inv a' \<and>
        owner_of a' = (\<lambda>b. if b \<in> set bs then Some ow else owner_of a b) \<and>
        free_bundle_count a' = free_bundle_count a - n \<and>
        ((\<exists>r\<in>set (free_ranges a). n \<le> rlen r) \<longrightarrow>
          (\<exists>r\<in>set (free_ranges a). n \<le> rlen r \<and> bs = [fst r..fst r + n - 1] \<and>
            (\<forall>r'\<in>set (free_ranges a). n \<le> rlen r' \<longrightarrow> rlen r \<le> rlen r')))))"
proof (intro conjI impI)
  assume n: "0 < n \<and> n \<le> free_bundle_count a"
  show "\<exists>bs a'. allocate ow n a = Inr (bs, a') \<and> int (length bs) = n \<and> distinct bs \<and>
        (\<forall>b\<in>set bs. owner_of a b = None) \<and> alloc_inv a' \<and>
        owner_of a' = (\<lambda>b. if b \<in> set bs then Some ow else owner_of a b) \<and>
        free_bundle_count a' = free_bundle_count a - n \<and>
        ((\<exists>r\<in>set (free_ranges a). n \<le> rlen r) \<longrightarrow>
          (\<exists>r\<in>set (free_ranges a). n \<le> rlen r \<and> bs = [fst r..fst r + n - 1] \<and>
            (\<forall>r'\<in>set (free_ranges a). n \<le> rlen r' \<longrightarrow> rlen r \<le> rlen r')))"
  proof (rule allocate_spec [OF assms, of n ow])
    fix bs rs
    let ?a = "a\<lparr>free_ranges := rs, owners := owners a @ map (\<lambda>b. (b, ow)) bs\<rparr>"
    assume alloc: "allocate ow n a = Inr (bs, ?a)" and len: "int (length bs) = n" and dist: "distinct bs"
      and sub: "set bs \<subseteq> ranges_set (free_ranges a)"
      and rs: "ranges_set rs = ranges_set (free_ranges a) - set bs"
      and best: "\<exists>r\<in>set (free_ranges a). n \<le> rlen r \<Longrightarrow> \<exists>r\<in>set (free_ranges a). n \<le> rlen r \<and>
        bs = [fst r..fst r + n - 1] \<and> (\<forall>r'\<in>set (free_ranges a). n \<le> rlen r' \<longrightarrow> rlen r \<le> rlen r')"
    note law = allocate_owner_law [OF assms alloc]
    have "card (set bs) \<le> card (ranges_set (free_ranges a))" using sub by (simp add: card_mono)
    then have "free_bundle_count ?a = free_bundle_count a - n"
      using law assms rs sub dist len
      by (simp add: free_bundle_count_card card_Diff_subset distinct_card of_nat_diff)
    then show ?thesis using alloc len law best by blast
  qed (use n in auto)
qed (auto simp: allocate_def)

theorem allocate_contract_witness:
  "alloc_inv (DSASharedBundleAllocator \<lparr>latent_page_size_bytes = 1152, indexer_page_size_bytes = 256,
      capacity_bundles = 10, k_nope_dim = 512, k_pe_dim = 64, indexer_dim = 128\<rparr>) \<and>
   (\<exists>bs a'. allocate LATENT 3 (DSASharedBundleAllocator \<lparr>latent_page_size_bytes = 1152,
      indexer_page_size_bytes = 256, capacity_bundles = 10, k_nope_dim = 512, k_pe_dim = 64,
      indexer_dim = 128\<rparr>) = Inr (bs, a') \<and> length bs = 3 \<and> free_bundle_count a' = 7)"
proof -
  let ?a = "DSASharedBundleAllocator \<lparr>latent_page_size_bytes = 1152, indexer_page_size_bytes = 256,
      capacity_bundles = 10, k_nope_dim = 512, k_pe_dim = 64, indexer_dim = 128\<rparr>"
  have inv: "alloc_inv ?a" by (rule alloc_inv_init) simp
  have "free_bundle_count ?a = 10" by (simp add: DSASharedBundleAllocator_def free_bundle_count_def)
  then show ?thesis using allocate_contract [OF inv, of 3 LATENT] inv by auto
qed

text \<open>C24. Releasing what an allocation returned, in any order, gives back exactly the state of
  the allocator before it: the free ranges coalesce to the same list and the owner table
  is the same.\<close>

theorem free_undoes_allocate:
  assumes "alloc_inv a" and "allocate ow n a = Inr (bs, a')" and "mset ids = mset bs"
  shows "free_bundles ow ids a' = Inr a"
  using assms by (rule free_after_allocate)

theorem free_undoes_allocate_witness:
  "\<exists>a'. allocate INDEXER 2 \<lparr>layout = \<lparr>latent_page_size_bytes = 1152, indexer_page_size_bytes = 256,
      capacity_bundles = 6, k_nope_dim = 512, k_pe_dim = 64, indexer_dim = 128\<rparr>,
      owners = [(2, LATENT), (5, LATENT)], free_ranges = [(1, 1), (3, 4), (6, 6)]\<rparr> = Inr ([3, 4], a') \<and>
    free_bundles INDEXER [4, 3] a' = Inr \<lparr>layout = \<lparr>latent_page_size_bytes = 1152,
      indexer_page_size_bytes = 256, capacity_bundles = 6, k_nope_dim = 512, k_pe_dim = 64, indexer_dim = 128\<rparr>,
      owners = [(2, LATENT), (5, LATENT)], free_ranges = [(1, 1), (3, 4), (6, 6)]\<rparr>"
proof -
  let ?a = "\<lparr>layout = \<lparr>latent_page_size_bytes = 1152, indexer_page_size_bytes = 256,
      capacity_bundles = 6, k_nope_dim = 512, k_pe_dim = 64, indexer_dim = 128\<rparr>,
      owners = [(2, LATENT), (5, LATENT)], free_ranges = [(1, 1), (3, 4), (6, 6)]\<rparr>"
  have inv: "alloc_inv ?a" by (auto simp: alloc_inv_def range_ok_def)
  obtain a' where a': "allocate INDEXER 2 ?a = Inr ([3, 4], a')"
    by (simp add: allocate_def free_bundle_count_def take_from_best_contiguous_range_def upto.simps)
  with free_undoes_allocate [OF inv a', of "[4, 3]"] show ?thesis by auto
qed

text \<open>C25. \<^verbatim>\<open>DSASharedBundleAllocator.free\<close> raises \<^verbatim>\<open>ValueError\<close> exactly when a bundle is named
  twice or does not belong to the caller; otherwise those bundles and no others become
  unowned and free, and the state reached does not depend on the order in which the bundles
  are named (the caller collects them in a Python set).\<close>

theorem free_contract:
  assumes inv: "alloc_inv a"
  shows "((\<exists>e. free_bundles ow ids a = Inl e) \<longleftrightarrow> \<not> distinct ids \<or> (\<exists>b\<in>set ids. owner_of a b \<noteq> Some ow)) \<and>
    (\<forall>a'. free_bundles ow ids a = Inr a' \<longrightarrow> alloc_inv a' \<and>
       owner_of a' = (\<lambda>b. if b \<in> set ids then None else owner_of a b) \<and>
       free_bundle_count a' = free_bundle_count a + int (length ids) \<and>
       (\<forall>ids'. mset ids' = mset ids \<longrightarrow> free_bundles ow ids' a = Inr a'))"
proof (intro conjI allI impI)
  show "(\<exists>e. free_bundles ow ids a = Inl e) \<longleftrightarrow> \<not> distinct ids \<or> (\<exists>b\<in>set ids. owner_of a b \<noteq> Some ow)"
    by (auto simp: free_bundles_def owner_of_def)
next
  fix a' assume free: "free_bundles ow ids a = Inr a'"
  then have ids: "distinct ids" "\<forall>b\<in>set ids. owner_of a b = Some ow"
    using free_bundles_defined [of ow ids a] by auto
  note law = free_bundles_owner_law [OF inv free]
  then show "alloc_inv a'" "owner_of a' = (\<lambda>b. if b \<in> set ids then None else owner_of a b)" by simp_all
  have a': "a' = a\<lparr>owners := filter (\<lambda>p. fst p \<notin> set ids) (owners a),
     free_ranges := fold insert_free_bundle ids (free_ranges a)\<rparr>"
    using free_bundles_spec [OF ids] free by simp
  have canon: "canon (free_ranges a)" using inv by (simp add: alloc_inv_def)
  have "set ids \<inter> ranges_set (free_ranges a) = {}"
    using ids(2) inv by (force simp: alloc_inv_def owner_of_def dest: map_of_SomeD)
  then have "card (ranges_set (free_ranges a')) = length ids + card (ranges_set (free_ranges a))"
    using ids(1) by (simp add: a' fold_insert_free [OF canon] card_Un_disjoint distinct_card)
  then show "free_bundle_count a' = free_bundle_count a + int (length ids)"
    using inv law by (simp add: free_bundle_count_card)
  fix ids' assume perm: "mset ids' = mset ids"
  then have set: "set ids' = set ids" and dist: "distinct ids'"
    using ids(1) by (metis set_mset_mset, metis mset_eq_imp_distinct_iff)
  have "fold insert_free_bundle ids' (free_ranges a) = fold insert_free_bundle ids (free_ranges a)"
    by (rule canon_unique) (simp_all add: fold_insert_free [OF canon] set)
  then show "free_bundles ow ids' a = Inr a'"
    using free_bundles_spec [OF dist, of a ow] ids(2) set a' by simp
qed

theorem free_contract_witness:
  "\<exists>a'. free_bundles LATENT [5, 2] \<lparr>layout = \<lparr>latent_page_size_bytes = 1152, indexer_page_size_bytes = 256,
      capacity_bundles = 6, k_nope_dim = 512, k_pe_dim = 64, indexer_dim = 128\<rparr>,
      owners = [(2, LATENT), (5, LATENT)], free_ranges = [(1, 1), (3, 4), (6, 6)]\<rparr> = Inr a' \<and>
    free_ranges a' = [(1, 6)] \<and>
    free_bundles LATENT [2, 5] \<lparr>layout = \<lparr>latent_page_size_bytes = 1152, indexer_page_size_bytes = 256,
      capacity_bundles = 6, k_nope_dim = 512, k_pe_dim = 64, indexer_dim = 128\<rparr>,
      owners = [(2, LATENT), (5, LATENT)], free_ranges = [(1, 1), (3, 4), (6, 6)]\<rparr> = Inr a'"
proof -
  let ?a = "\<lparr>layout = \<lparr>latent_page_size_bytes = 1152, indexer_page_size_bytes = 256,
      capacity_bundles = 6, k_nope_dim = 512, k_pe_dim = 64, indexer_dim = 128\<rparr>,
      owners = [(2, LATENT), (5, LATENT)], free_ranges = [(1, 1), (3, 4), (6, 6)]\<rparr>"
  have inv: "alloc_inv ?a" by (auto simp: alloc_inv_def range_ok_def)
  obtain a' where a': "free_bundles LATENT [5, 2] ?a = Inr a'" "free_ranges a' = [(1, 6)]"
    by (simp add: free_bundles_def insert_free_bundle_def AList.delete_eq)
  with free_contract [OF inv, of LATENT "[5, 2]"] show ?thesis by auto
qed

text \<open>The states of an allocator built by its constructor and driven by the pools.\<close>

inductive alloc_reach :: "dsa_layout \<Rightarrow> dsa_allocator \<Rightarrow> bool" for l where
  init: "alloc_reach l (DSASharedBundleAllocator l)"
| alloc: "alloc_reach l a \<Longrightarrow> allocate ow n a = Inr (bs, a') \<Longrightarrow> alloc_reach l a'"
| free: "alloc_reach l a \<Longrightarrow> free_bundles ow ids a = Inr a' \<Longrightarrow> alloc_reach l a'"

lemma allocate_layout: "allocate ow n a = Inr (bs, a') \<Longrightarrow> layout a' = layout a"
  by (auto simp: allocate_def rbind_eq_Inr_iff split: if_splits)

lemma free_bundles_layout: "free_bundles ow ids a = Inr a' \<Longrightarrow> layout a' = layout a"
  by (auto simp: free_bundles_def free_bundles_state split: if_splits)

lemma alloc_reach_inv:
  "alloc_reach l a \<Longrightarrow> 0 < capacity_bundles l \<Longrightarrow> alloc_inv a \<and> layout a = l"
proof (induction rule: alloc_reach.induct)
  case init
  then show ?case by (simp add: alloc_inv_init) (simp add: DSASharedBundleAllocator_def)
qed (auto simp: allocate_layout free_bundles_layout dest: allocate_inv free_bundles_inv)

text \<open>C17. In every state an allocator reaches by allocations and releases, the free count and
  the per-owner counts it reports add up to the capacity, no bundle is both owned and free,
  and the free ranges are non-empty, increasing and never adjacent.\<close>

theorem reachable_allocator_conserves:
  assumes "alloc_reach l a" and "layout_ok l"
  shows "free_bundle_count a + int (owner_bundle_counts a LATENT) + int (owner_bundle_counts a INDEXER)
      = capacity_bundles l \<and>
    (\<forall>b. (1 \<le> b \<and> b \<le> capacity_bundles l) = (b \<in> ranges_set (free_ranges a) \<or> owner_of a b \<noteq> None)) \<and>
    (\<forall>b. \<not> (b \<in> ranges_set (free_ranges a) \<and> owner_of a b \<noteq> None)) \<and>
    canon (free_ranges a)"
proof -
  have cap: "0 < capacity_bundles l" using assms(2) by (rule layout_ok_facts)
  from alloc_reach_inv [OF assms(1) cap] have inv: "alloc_inv a" "layout a = l" by auto
  have dom: "owner_of a b \<noteq> None \<longleftrightarrow> b \<in> fst ` set (owners a)" for b
    using owner_of_dom [of a] by (auto simp: dom_def)
  show ?thesis
    using alloc_inv_counts [OF inv(1)] inv cap unfolding dom by (auto simp: alloc_inv_def set_eq_iff)
qed

theorem reachable_allocator_conserves_witness:
  "\<exists>a. alloc_reach \<lparr>latent_page_size_bytes = 1152, indexer_page_size_bytes = 256,
      capacity_bundles = 6, k_nope_dim = 512, k_pe_dim = 64, indexer_dim = 128\<rparr> a \<and>
    free_bundle_count a + int (owner_bundle_counts a LATENT) + int (owner_bundle_counts a INDEXER) = 6"
proof -
  let ?l = "\<lparr>latent_page_size_bytes = 1152, indexer_page_size_bytes = 256,
      capacity_bundles = 6, k_nope_dim = 512, k_pe_dim = 64, indexer_dim = 128\<rparr>"
  have "layout_ok ?l" by code_simp
  with reachable_allocator_conserves [OF alloc_reach.init [of ?l]] alloc_reach.init [of ?l] show ?thesis by auto
qed

text \<open>C26. For a layout the constructor accepts, every bundle's block ids are distinct, as many as
  a bundle has blocks, inside the owner's table and never the padding id 0; and decoding a
  block id with \<^verbatim>\<open>bundle_id_for_block\<close> gives exactly the bundle that lists it, for latent blocks
  and for both slabs of indexer blocks. So the bundles of one owner never share a block id.\<close>

theorem bundle_block_ids_round_trip:
  assumes "layout_ok l" and "1 \<le> b" and "b \<le> capacity_bundles l"
  shows "\<exists>ids. block_ids_for_bundle l ow b = Inr ids \<and> distinct ids \<and>
     int (length ids) = blocks_per_bundle l ow \<and>
     (\<forall>x. x \<in> set ids \<longleftrightarrow> 0 < x \<and> x < row_count l ow \<and> bundle_id_for_block l ow x = Inr b)"
  using bids_exact(1-3) [OF assms, where ow = ow] bids_exact(4) [OF assms, where ow = ow] by blast

theorem bundle_block_ids_round_trip_witness:
  "\<exists>ids. block_ids_for_bundle \<lparr>latent_page_size_bytes = 1152, indexer_page_size_bytes = 256,
      capacity_bundles = 6, k_nope_dim = 512, k_pe_dim = 64, indexer_dim = 128\<rparr> INDEXER 2 = Inr ids \<and>
    ids = [16, 17, 18, 19, 20, 21, 22, 23, 58] \<and> distinct ids"
proof -
  let ?l = "\<lparr>latent_page_size_bytes = 1152, indexer_page_size_bytes = 256,
      capacity_bundles = 6, k_nope_dim = 512, k_pe_dim = 64, indexer_dim = 128\<rparr>"
  have ok: "layout_ok ?l" by code_simp
  have "block_ids_for_bundle ?l INDEXER 2 = Inr [16, 17, 18, 19, 20, 21, 22, 23, 58]" by code_simp
  with bundle_block_ids_round_trip [OF ok, of 2 INDEXER] show ?thesis by auto
qed

end
