(* ===== verification/DSA_Logical_Pool.thy ===== *)
theory DSA_Logical_Pool
  imports Free_Queue DSA_Bundles
begin

text \<open>
  \<^verbatim>\<open>vllm/v1/core/block_pool.py\<close>, class \<^verbatim>\<open>DSASharedLogicalBlockPool\<close>: the pool interface over
  the shared bundle allocator. Two such pools, one per owner, share one allocator, so every
  operation takes the allocator beside the pool and returns both. The Python set of affected
  bundles is a list in insertion order; the allocator's \<^verbatim>\<open>free\<close> does not depend on that order.
  The lemmas tie ownership of a bundle to the reference counts of its blocks and show that the
  two pools never reference the same physical bundle.
\<close>

section \<open>The pool\<close>

record logical_pool =
  lp_owner :: dsa_owner
  lp_num_gpu_blocks :: int
  lp_store :: block_store

definition DSASharedLogicalBlockPool :: "dsa_owner \<Rightarrow> dsa_allocator \<Rightarrow> logical_pool res" where
  "DSASharedLogicalBlockPool ow a =
     (let n = row_count (layout a) ow;
          blocks = (\<lambda>b. case b of Blk i \<Rightarrow> KVCacheBlock (int i) | _ \<Rightarrow> KVCacheBlock (- 1))
      in if n \<le> 0 then Inl IndexError
         else Inr \<lparr>lp_owner = ow, lp_num_gpu_blocks = n,
                   lp_store = blocks(Blk 0 := (blocks (Blk 0))\<lparr>is_null := True\<rparr>)\<rparr>)"

text \<open>\<^verbatim>\<open>self.blocks[block_id]\<close>, with Python's negative indices.\<close>

definition lp_block :: "logical_pool \<Rightarrow> int \<Rightarrow> blk res" where
  "lp_block p i =
     (if 0 \<le> i \<and> i < lp_num_gpu_blocks p then Inr (Blk (nat i))
      else if - lp_num_gpu_blocks p \<le> i \<and> i < 0 then Inr (Blk (nat (lp_num_gpu_blocks p + i)))
      else Inl IndexError)"

definition lp_get_num_free_blocks :: "dsa_allocator \<Rightarrow> logical_pool \<Rightarrow> int" where
  "lp_get_num_free_blocks a p = free_bundle_count a * blocks_per_bundle (layout a) (lp_owner p)"

definition lp_get_num_bundles_to_allocate :: "dsa_allocator \<Rightarrow> logical_pool \<Rightarrow> int \<Rightarrow> int" where
  "lp_get_num_bundles_to_allocate a p num_blocks = bundle_count_for_blocks a (lp_owner p) num_blocks"

definition lp_take_block :: "blk \<Rightarrow> block_store \<Rightarrow> block_store res" where
  "lp_take_block b h = rassert (ref_cnt (h b) = 0) (Inr (h(b := (h b)\<lparr>ref_cnt := 1\<rparr>)))"

definition lp_get_new_blocks ::
  "int \<Rightarrow> dsa_allocator \<Rightarrow> logical_pool \<Rightarrow> (blk list \<times> dsa_allocator \<times> logical_pool) res" where
  "lp_get_new_blocks num_blocks a p =
     (if num_blocks > lp_get_num_free_blocks a p then Inl ValueError
      else rbind (allocate (lp_owner p) (bundle_count_for_blocks a (lp_owner p) num_blocks) a)
        (\<lambda>(bundle_ids, a').
           rbind (rmap (block_ids_for_bundle (layout a) (lp_owner p)) bundle_ids) (\<lambda>idss.
           rbind (rmap (lp_block p) (concat idss)) (\<lambda>ret.
           rbind (rfold lp_take_block ret (lp_store p)) (\<lambda>h.
           Inr (ret, a', p\<lparr>lp_store := h\<rparr>))))))"

definition lp_release_block ::
  "dsa_layout \<Rightarrow> dsa_owner \<Rightarrow> blk \<Rightarrow> block_store \<times> int list \<Rightarrow> (block_store \<times> int list) res" where
  "lp_release_block l ow b = (\<lambda>(h, affected_bundle_ids).
     if ref_cnt (h b) \<le> 0 then Inl ValueError
     else (let h' = h(b := (h b)\<lparr>ref_cnt := ref_cnt (h b) - 1\<rparr>)
           in rbind (bundle_id_for_block l ow (block_id (h' b)))
                (\<lambda>bundle_id. Inr (h', set_add bundle_id affected_bundle_ids))))"

text \<open>\<^verbatim>\<open>all(block.ref_cnt == 0 for block in bundle_blocks)\<close> over the generator of the blocks of a
  bundle: it stops at the first referenced block.\<close>

fun lp_all_unreferenced :: "logical_pool \<Rightarrow> block_store \<Rightarrow> int list \<Rightarrow> bool res" where
  "lp_all_unreferenced p h [] = Inr True"
| "lp_all_unreferenced p h (i # is) =
     rbind (lp_block p i) (\<lambda>b. if ref_cnt (h b) = 0 then lp_all_unreferenced p h is else Inr False)"

definition lp_bundle_unused :: "dsa_layout \<Rightarrow> logical_pool \<Rightarrow> block_store \<Rightarrow> int \<Rightarrow> bool res" where
  "lp_bundle_unused l p h bundle_id =
     rbind (block_ids_for_bundle l (lp_owner p) bundle_id) (\<lambda>ids. lp_all_unreferenced p h ids)"

definition lp_free_blocks ::
  "blk list \<Rightarrow> dsa_allocator \<Rightarrow> logical_pool \<Rightarrow> (dsa_allocator \<times> logical_pool) res" where
  "lp_free_blocks ordered_blocks a p =
     (let blocks_list = filter (\<lambda>b. \<not> is_null (lp_store p b)) ordered_blocks;
          l = layout a; ow = lp_owner p
      in if blocks_list = [] then Inr (a, p)
         else rbind (rfold (lp_release_block l ow) blocks_list (lp_store p, []))
           (\<lambda>(h, affected_bundle_ids).
              rbind (rmap (lp_bundle_unused l p h) affected_bundle_ids) (\<lambda>unused.
              rbind (free_bundles ow (map fst (filter snd (zip affected_bundle_ids unused))) a) (\<lambda>a'.
              Inr (a', p\<lparr>lp_store := h\<rparr>)))))"

text \<open>The prefix-caching part of the pool interface is refused.\<close>

definition lp_cache_full_blocks :: "logical_pool \<Rightarrow> logical_pool res" where
  "lp_cache_full_blocks p = Inl NotImplementedError"

definition lp_touch :: "blk list \<Rightarrow> logical_pool \<Rightarrow> logical_pool res" where
  "lp_touch bs p = Inl NotImplementedError"

definition lp_evict_blocks :: "int list \<Rightarrow> logical_pool \<Rightarrow> logical_pool res" where
  "lp_evict_blocks ids p = Inl NotImplementedError"

definition lp_reset_prefix_cache :: "logical_pool \<Rightarrow> bool \<times> logical_pool" where
  "lp_reset_prefix_cache p = (True, p)"

section \<open>Invariant\<close>

definition lp_wf :: "dsa_layout \<Rightarrow> logical_pool \<Rightarrow> bool" where
  "lp_wf l p \<longleftrightarrow> layout_ok l \<and> lp_num_gpu_blocks p = row_count l (lp_owner p) \<and>
     (\<forall>i. block_id (lp_store p (Blk i)) = int i \<and> is_null (lp_store p (Blk i)) = (i = 0) \<and>
          ref_cnt (lp_store p (Blk i)) \<in> {0, 1} \<and>
          (ref_cnt (lp_store p (Blk i)) = 1 \<longrightarrow> 0 < i \<and> int i < row_count l (lp_owner p)))"

text \<open>The bundles some referenced block of the pool lies in.\<close>

definition used_bundle :: "dsa_layout \<Rightarrow> logical_pool \<Rightarrow> int \<Rightarrow> bool" where
  "used_bundle l p b \<longleftrightarrow>
     (\<exists>i. ref_cnt (lp_store p (Blk i)) = 1 \<and> bundle_id_for_block l (lp_owner p) (int i) = Inr b)"

definition lp_inv :: "dsa_allocator \<Rightarrow> logical_pool \<Rightarrow> bool" where
  "lp_inv a p \<longleftrightarrow> alloc_inv a \<and> lp_wf (layout a) p \<and>
     (\<forall>b. owner_of a b = Some (lp_owner p) \<longleftrightarrow> used_bundle (layout a) p b)"

lemma lp_wf_block: "lp_wf l p \<Longrightarrow> 0 \<le> i \<Longrightarrow> i < row_count l (lp_owner p) \<Longrightarrow> lp_block p i = Inr (Blk (nat i))"
  by (simp add: lp_wf_def lp_block_def)

lemma lp_block_store [simp]: "lp_block (p\<lparr>lp_store := h\<rparr>) = lp_block p"
  by (rule ext) (auto simp: lp_block_def)

lemma owner_of_range: "alloc_inv a \<Longrightarrow> owner_of a b = Some ow \<Longrightarrow> 1 \<le> b \<and> b \<le> capacity_bundles (layout a)"
  using owner_of_dom [of a] by (auto simp: alloc_inv_def dom_def set_eq_iff)

section \<open>Allocation\<close>

lemma take_loop:
  "distinct bs \<Longrightarrow> (\<forall>b\<in>set bs. ref_cnt (h b) = 0) \<Longrightarrow>
   rfold lp_take_block bs h = Inr (\<lambda>b. if b \<in> set bs then (h b)\<lparr>ref_cnt := 1\<rparr> else h b)"
proof (induction bs arbitrary: h)
  case (Cons b bs)
  then have "rfold lp_take_block bs (h(b := (h b)\<lparr>ref_cnt := 1\<rparr>)) =
      Inr (\<lambda>c. if c \<in> set bs then ((h(b := (h b)\<lparr>ref_cnt := 1\<rparr>)) c)\<lparr>ref_cnt := 1\<rparr> else (h(b := (h b)\<lparr>ref_cnt := 1\<rparr>)) c)"
    by (intro Cons.IH) auto
  moreover have "lp_take_block b h = Inr (h(b := (h b)\<lparr>ref_cnt := 1\<rparr>))"
    using Cons.prems by (simp add: lp_take_block_def)
  ultimately show ?case using Cons.prems by (auto simp: fun_eq_iff)
qed simp

definition bundle_blocks :: "dsa_layout \<Rightarrow> dsa_owner \<Rightarrow> int list \<Rightarrow> blk list" where
  "bundle_blocks l ow bundles = map (\<lambda>x. Blk (nat x)) (concat (map (bids l ow) bundles))"

lemma in_bundle_blocks:
  assumes "layout_ok l" and "\<forall>b\<in>set bundles. 1 \<le> b \<and> b \<le> capacity_bundles l"
  shows "c \<in> set (bundle_blocks l ow bundles) \<longleftrightarrow>
    (\<exists>i. c = Blk i \<and> 0 < i \<and> int i < row_count l ow \<and> (\<exists>b\<in>set bundles. bundle_id_for_block l ow (int i) = Inr b))"
proof -
  define X where "X = set (concat (map (bids l ow) bundles))"
  have X: "x \<in> X \<longleftrightarrow> 0 < x \<and> x < row_count l ow \<and> (\<exists>b\<in>set bundles. bundle_id_for_block l ow x = Inr b)" for x
    using bids_exact(4) [OF assms(1)] assms(2) by (auto simp: X_def)
  have "set (bundle_blocks l ow bundles) = (\<lambda>x. Blk (nat x)) ` X" by (simp add: bundle_blocks_def X_def)
  also have "c \<in> \<dots> \<longleftrightarrow> (\<exists>i. c = Blk i \<and> 0 < i \<and> int i \<in> X)"
    using X by (auto simp: image_iff) (metis nat_int of_nat_0_less_iff)
  finally show ?thesis using X by auto
qed

lemma distinct_bundle_blocks:
  assumes "layout_ok l" and "\<forall>b\<in>set bundles. 1 \<le> b \<and> b \<le> capacity_bundles l" and "distinct bundles"
  shows "distinct (bundle_blocks l ow bundles)"
proof -
  have mem: "x \<in> set (bids l ow b) \<longleftrightarrow> 0 < x \<and> x < row_count l ow \<and> bundle_id_for_block l ow x = Inr b"
    if "b \<in> set bundles" for b x using bids_exact(4) [OF assms(1)] assms(2) that by simp
  have "distinct (concat (map (bids l ow) bundles))"
    using assms(2,3) mem
  proof (induction bundles)
    case (Cons b bundles)
    moreover have "distinct (bids l ow b)" using bids_exact(2) [OF assms(1)] Cons.prems by simp
    ultimately show ?case by fastforce
  qed simp
  moreover have "inj_on (\<lambda>x. Blk (nat x)) (set (concat (map (bids l ow) bundles)))"
    using mem by (auto simp: inj_on_def)
  ultimately show ?thesis by (simp add: bundle_blocks_def distinct_map)
qed

lemma length_bundle_blocks:
  assumes "layout_ok l" and "\<forall>b\<in>set bundles. 1 \<le> b \<and> b \<le> capacity_bundles l"
  shows "int (length (bundle_blocks l ow bundles)) = int (length bundles) * blocks_per_bundle l ow"
  using assms(2) by (induction bundles) (simp_all add: bundle_blocks_def bids_exact(3) [OF assms(1)] algebra_simps)

lemma dsa_cdiv_le_iff: "0 < b \<Longrightarrow> dsa_cdiv a b \<le> k \<longleftrightarrow> a \<le> k * b"
proof -
  assume b: "0 < b"
  have "dsa_cdiv a b < k + 1 \<longleftrightarrow> \<not> (k + 1) * b \<le> a + b - 1"
    unfolding dsa_cdiv_def using int_le_div_iff [OF b, of "k + 1" "a + b - 1"] by linarith
  then show ?thesis by (simp add: algebra_simps) linarith
qed

lemma get_new_blocks_spec:
  assumes inv: "lp_inv a p" and n: "n \<le> lp_get_num_free_blocks a p"
  obtains bundles a' where
    "allocate (lp_owner p) (bundle_count_for_blocks a (lp_owner p) n) a = Inr (bundles, a')"
    and "\<forall>b\<in>set bundles. 1 \<le> b \<and> b \<le> capacity_bundles (layout a)" and "distinct bundles"
    and "\<forall>b\<in>set bundles. owner_of a b = None"
    and "int (length bundles) = max 0 (bundle_count_for_blocks a (lp_owner p) n)"
    and "\<forall>c\<in>set (bundle_blocks (layout a) (lp_owner p) bundles). ref_cnt (lp_store p c) = 0"
    and "lp_get_new_blocks n a p = Inr (bundle_blocks (layout a) (lp_owner p) bundles, a',
      p\<lparr>lp_store := (\<lambda>c. if c \<in> set (bundle_blocks (layout a) (lp_owner p) bundles)
          then (lp_store p c)\<lparr>ref_cnt := 1\<rparr> else lp_store p c)\<rparr>)"
proof -
  let ?l = "layout a" and ?ow = "lp_owner p"
  let ?k = "bundle_count_for_blocks a ?ow n"
  have ai: "alloc_inv a" and wf: "lp_wf ?l p" and ok: "layout_ok ?l"
    and own: "\<And>b. owner_of a b = Some ?ow \<longleftrightarrow> used_bundle ?l p b"
    using inv by (auto simp: lp_inv_def lp_wf_def)
  have k: "?k \<le> free_bundle_count a"
    using n dsa_cdiv_le_iff [OF blocks_per_bundle_pos [OF ok, of ?ow]]
    by (simp add: bundle_count_for_blocks_def lp_get_num_free_blocks_def)
  obtain bundles a' where alloc: "allocate ?ow ?k a = Inr (bundles, a')"
    and len: "int (length bundles) = max 0 ?k"
    using allocate_succeeds [OF ai k, of ?ow] by blast
  note law = allocate_owner_law [OF ai alloc]
  have rng: "\<forall>b\<in>set bundles. 1 \<le> b \<and> b \<le> capacity_bundles ?l"
    using owner_of_range [of a'] law allocate_layout [OF alloc] by auto
  let ?bs = "bundle_blocks ?l ?ow bundles"
  have free: "ref_cnt (lp_store p c) = 0" if c: "c \<in> set ?bs" for c
  proof -
    obtain i b where i: "c = Blk i" "b \<in> set bundles" "bundle_id_for_block ?l ?ow (int i) = Inr b"
      using c in_bundle_blocks [OF ok rng] by blast
    have "\<not> used_bundle ?l p b" using own [of b] law i(2) by auto
    then show ?thesis using i wf unfolding used_bundle_def lp_wf_def by blast
  qed
  have ids: "rmap (block_ids_for_bundle ?l ?ow) bundles = Inr (map (bids ?l ?ow) bundles)"
    using bids_exact(1) [OF ok] rng by (intro rmap_map) auto
  have blks: "rmap (lp_block p) (concat (map (bids ?l ?ow) bundles)) = Inr ?bs"
    unfolding bundle_blocks_def using bids_exact(4) [OF ok] rng
    by (intro rmap_map lp_wf_block [OF wf]) auto
  have "lp_get_new_blocks n a p = Inr (?bs, a', p\<lparr>lp_store := (\<lambda>c. if c \<in> set ?bs
          then (lp_store p c)\<lparr>ref_cnt := 1\<rparr> else lp_store p c)\<rparr>)"
    using n alloc ids blks take_loop [OF distinct_bundle_blocks [OF ok rng], of ?ow "lp_store p"] law free
    by (simp add: lp_get_new_blocks_def)
  then show thesis using that alloc rng law len free by blast
qed

lemma used_bundleI:
  "ref_cnt (lp_store p (Blk i)) = 1 \<Longrightarrow> bundle_id_for_block l (lp_owner p) (int i) = Inr b \<Longrightarrow> used_bundle l p b"
  by (auto simp: used_bundle_def)

lemma get_new_blocks_inv:
  assumes inv: "lp_inv a p" and get: "lp_get_new_blocks n a p = Inr (ret, a', p')"
  shows "lp_inv a' p'"
proof -
  let ?l = "layout a" and ?ow = "lp_owner p"
  have n: "n \<le> lp_get_num_free_blocks a p" using get by (auto simp: lp_get_new_blocks_def split: if_splits)
  have ai: "alloc_inv a" and wf: "lp_wf ?l p" and ok: "layout_ok ?l"
    and own: "\<And>b. owner_of a b = Some ?ow \<longleftrightarrow> used_bundle ?l p b"
    using inv by (auto simp: lp_inv_def lp_wf_def)
  obtain bundles where alloc: "allocate ?ow (bundle_count_for_blocks a ?ow n) a = Inr (bundles, a')"
    and rng: "\<forall>b\<in>set bundles. 1 \<le> b \<and> b \<le> capacity_bundles ?l" and fresh: "\<forall>b\<in>set bundles. owner_of a b = None"
    and p': "p' = p\<lparr>lp_store := (\<lambda>c. if c \<in> set (bundle_blocks ?l ?ow bundles)
          then (lp_store p c)\<lparr>ref_cnt := 1\<rparr> else lp_store p c)\<rparr>"
    using get by (rule_tac get_new_blocks_spec [OF inv n]) auto
  note law = allocate_owner_law [OF ai alloc] and mem = in_bundle_blocks [OF ok rng, of _ ?ow]
  have lay: "layout a' = ?l" by (rule allocate_layout [OF alloc])
  have wf': "lp_wf ?l p'" using wf mem by (auto simp: lp_wf_def p')
  have "used_bundle ?l p' b \<longleftrightarrow> b \<in> set bundles \<or> used_bundle ?l p b" for b
  proof
    assume "used_bundle ?l p' b"
    then show "b \<in> set bundles \<or> used_bundle ?l p b"
      using mem by (auto simp: used_bundle_def p' split: if_splits)
  next
    assume "b \<in> set bundles \<or> used_bundle ?l p b"
    then show "used_bundle ?l p' b"
    proof
      assume b: "b \<in> set bundles"
      then obtain x where x: "x \<in> set (bids ?l ?ow b)" using bids_nonempty [OF ok, of b ?ow] rng by (cases "bids ?l ?ow b") auto
      then have "0 < x" "x < row_count ?l ?ow" "bundle_id_for_block ?l ?ow x = Inr b"
        using bids_exact(4) [OF ok] rng b by auto
      then have "Blk (nat x) \<in> set (bundle_blocks ?l ?ow bundles)" "bundle_id_for_block ?l ?ow (int (nat x)) = Inr b"
        using mem [of "Blk (nat x)"] b by auto
      then show ?thesis by (intro used_bundleI [of _ "nat x"]) (simp_all add: p')
    qed (auto simp: used_bundle_def p')
  qed
  then show ?thesis using law wf' own lay by (auto simp: lp_inv_def p')
qed

section \<open>Release\<close>

lemma release_loop:
  "distinct bs \<Longrightarrow> (\<forall>b\<in>set bs. ref_cnt (h b) = 1 \<and> bundle_id_for_block l ow (block_id (h b)) = Inr (bid b)) \<Longrightarrow>
   rfold (lp_release_block l ow) bs (h, aff) =
     Inr (\<lambda>b. if b \<in> set bs then (h b)\<lparr>ref_cnt := 0\<rparr> else h b, fold set_add (map bid bs) aff)"
proof (induction bs arbitrary: h aff)
  case (Cons b bs)
  let ?h = "h(b := (h b)\<lparr>ref_cnt := 0\<rparr>)"
  have "rfold (lp_release_block l ow) bs (?h, set_add (bid b) aff) =
      Inr (\<lambda>c. if c \<in> set bs then (?h c)\<lparr>ref_cnt := 0\<rparr> else ?h c, fold set_add (map bid bs) (set_add (bid b) aff))"
    using Cons.prems by (intro Cons.IH) auto
  moreover have "lp_release_block l ow b (h, aff) = Inr (?h, set_add (bid b) aff)"
    using Cons.prems by (simp add: lp_release_block_def)
  ultimately show ?case using Cons.prems by (auto simp: fun_eq_iff)
qed simp

lemma release_loop_error:
  "(\<forall>b\<in>set bs. ref_cnt (h b) \<in> {0, 1} \<and> (ref_cnt (h b) = 1 \<longrightarrow> (\<exists>x. bundle_id_for_block l ow (block_id (h b)) = Inr x))) \<Longrightarrow>
   \<not> distinct bs \<or> (\<exists>b\<in>set bs. ref_cnt (h b) = 0) \<Longrightarrow>
   rfold (lp_release_block l ow) bs (h, aff) = Inl ValueError"
proof (induction bs arbitrary: h aff)
  case (Cons b bs)
  show ?case
  proof (cases "ref_cnt (h b) = 0")
    case True
    then show ?thesis by (simp add: lp_release_block_def)
  next
    case False
    let ?h = "h(b := (h b)\<lparr>ref_cnt := 0\<rparr>)"
    obtain x where "bundle_id_for_block l ow (block_id (h b)) = Inr x" using Cons.prems(1) False by auto
    then have "lp_release_block l ow b (h, aff) = Inr (?h, set_add x aff)"
      using Cons.prems(1) False by (auto simp: lp_release_block_def)
    moreover have "rfold (lp_release_block l ow) bs (?h, set_add x aff) = Inl ValueError"
    proof (rule Cons.IH)
      show "\<not> distinct bs \<or> (\<exists>c\<in>set bs. ref_cnt (?h c) = 0)" using Cons.prems(2) False by auto
    qed (use Cons.prems(1) in auto)
    ultimately show ?thesis by simp
  qed
qed simp

lemma filter_zip_map: "map fst (filter snd (zip xs (map f xs))) = filter f xs"
  by (induction xs) auto

text \<open>The state a successful release leaves.\<close>

definition bundle_of :: "dsa_layout \<Rightarrow> dsa_owner \<Rightarrow> blk \<Rightarrow> int" where
  "bundle_of l ow c = (case c of Blk i \<Rightarrow> projr (bundle_id_for_block l ow (int i)) | _ \<Rightarrow> 0)"

definition released_store :: "blk list \<Rightarrow> block_store \<Rightarrow> block_store" where
  "released_store bs h = (\<lambda>c. if c \<in> set bs then (h c)\<lparr>ref_cnt := 0\<rparr> else h c)"

definition emptied :: "dsa_layout \<Rightarrow> logical_pool \<Rightarrow> blk list \<Rightarrow> int list" where
  "emptied l p bs = filter (\<lambda>b. \<not> used_bundle l (p\<lparr>lp_store := released_store bs (lp_store p)\<rparr>) b)
     (fold set_add (map (bundle_of l (lp_owner p)) bs) [])"

lemma referenced_block:
  assumes inv: "lp_inv a p" and c: "c = Blk i" "ref_cnt (lp_store p c) = 1"
  shows "bundle_id_for_block (layout a) (lp_owner p) (int i) = Inr (bundle_of (layout a) (lp_owner p) c)"
    and "owner_of a (bundle_of (layout a) (lp_owner p) c) = Some (lp_owner p)"
    and "1 \<le> bundle_of (layout a) (lp_owner p) c \<and> bundle_of (layout a) (lp_owner p) c \<le> capacity_bundles (layout a)"
proof -
  have "0 < int i" "int i < row_count (layout a) (lp_owner p)" "layout_ok (layout a)"
    using inv c by (auto simp: lp_inv_def lp_wf_def)
  then obtain b where b: "bundle_id_for_block (layout a) (lp_owner p) (int i) = Inr b"
    using bundle_id_defined by blast
  then show eq: "bundle_id_for_block (layout a) (lp_owner p) (int i) = Inr (bundle_of (layout a) (lp_owner p) c)"
    by (simp add: bundle_of_def c)
  then have "used_bundle (layout a) p (bundle_of (layout a) (lp_owner p) c)"
    using c by (auto simp: used_bundle_def)
  then show own: "owner_of a (bundle_of (layout a) (lp_owner p) c) = Some (lp_owner p)"
    using inv by (simp add: lp_inv_def)
  show "1 \<le> bundle_of (layout a) (lp_owner p) c \<and> bundle_of (layout a) (lp_owner p) c \<le> capacity_bundles (layout a)"
    using inv by (intro owner_of_range [OF _ own]) (simp add: lp_inv_def)
qed

lemma released_wf: "lp_wf l p \<Longrightarrow> lp_wf l (p\<lparr>lp_store := released_store bs (lp_store p)\<rparr>)"
  by (simp add: lp_wf_def released_store_def)

lemma all_unreferenced_eq:
  assumes "\<And>i. i \<in> set ids \<Longrightarrow> lp_block p i = Inr (f i)"
  shows "lp_all_unreferenced p h ids = Inr (\<forall>i\<in>set ids. ref_cnt (h (f i)) = 0)"
  using assms by (induction ids) auto

lemma all_unreferenced_store: "lp_all_unreferenced (p\<lparr>lp_store := s\<rparr>) h ids = lp_all_unreferenced p h ids"
  by (induction ids) (auto simp: lp_block_def)

lemma bundle_unused_spec:
  assumes wf: "lp_wf l p" and b: "1 \<le> b" "b \<le> capacity_bundles l"
  shows "lp_bundle_unused l p (lp_store p) b = Inr (\<not> used_bundle l p b)"
proof -
  have ok: "layout_ok l" using wf by (simp add: lp_wf_def)
  note mem = bids_exact(4) [OF ok b, of _ "lp_owner p"]
  have "lp_all_unreferenced p (lp_store p) (bids l (lp_owner p) b) =
      Inr (\<forall>x\<in>set (bids l (lp_owner p) b). ref_cnt (lp_store p (Blk (nat x))) = 0)"
    using mem by (intro all_unreferenced_eq lp_wf_block [OF wf]) auto
  moreover have "(\<forall>x\<in>set (bids l (lp_owner p) b). ref_cnt (lp_store p (Blk (nat x))) = 0) \<longleftrightarrow> \<not> used_bundle l p b"
  proof
    assume zero: "\<forall>x\<in>set (bids l (lp_owner p) b). ref_cnt (lp_store p (Blk (nat x))) = 0"
    show "\<not> used_bundle l p b"
    proof
      assume "used_bundle l p b"
      then obtain i where i: "ref_cnt (lp_store p (Blk i)) = 1" "bundle_id_for_block l (lp_owner p) (int i) = Inr b"
        by (auto simp: used_bundle_def)
      then have "int i \<in> set (bids l (lp_owner p) b)" using mem wf by (auto simp: lp_wf_def)
      then show False using zero i(1) by fastforce
    qed
  next
    assume unused: "\<not> used_bundle l p b"
    show "\<forall>x\<in>set (bids l (lp_owner p) b). ref_cnt (lp_store p (Blk (nat x))) = 0"
    proof
      fix x assume "x \<in> set (bids l (lp_owner p) b)"
      then have "bundle_id_for_block l (lp_owner p) (int (nat x)) = Inr b" using mem by simp
      then have "ref_cnt (lp_store p (Blk (nat x))) \<noteq> 1" using unused by (auto simp: used_bundle_def)
      then show "ref_cnt (lp_store p (Blk (nat x))) = 0" using wf by (auto simp: lp_wf_def)
    qed
  qed
  ultimately show ?thesis using bids_exact(1) [OF ok b] by (simp add: lp_bundle_unused_def)
qed

definition releasable :: "logical_pool \<Rightarrow> blk list \<Rightarrow> bool" where
  "releasable p bs \<longleftrightarrow>
     (let bl = filter (\<lambda>b. \<not> is_null (lp_store p b)) bs
      in distinct bl \<and> (\<forall>b\<in>set bl. ref_cnt (lp_store p b) = 1))"

lemma emptied_owned:
  assumes inv: "lp_inv a p" and bs: "\<forall>b\<in>set bs. (\<exists>i. b = Blk i) \<and> ref_cnt (lp_store p b) = 1"
  shows "distinct (emptied (layout a) p bs) \<and> (\<forall>b\<in>set (emptied (layout a) p bs). owner_of a b = Some (lp_owner p))"
  using referenced_block(2) [OF inv] bs by (auto simp: emptied_def fold_set_add)

lemma free_blocks_spec:
  assumes inv: "lp_inv a p" and refs: "\<forall>b\<in>set ordered. \<exists>i. b = Blk i" and rel: "releasable p ordered"
  defines "bs \<equiv> filter (\<lambda>b. \<not> is_null (lp_store p b)) ordered"
  shows "\<exists>a'. free_bundles (lp_owner p) (emptied (layout a) p bs) a = Inr a' \<and>
    lp_free_blocks ordered a p = Inr (a', p\<lparr>lp_store := released_store bs (lp_store p)\<rparr>)"
proof -
  let ?l = "layout a" and ?ow = "lp_owner p"
  let ?h = "released_store bs (lp_store p)"
  let ?p = "p\<lparr>lp_store := ?h\<rparr>" and ?aff = "fold set_add (map (bundle_of ?l ?ow) bs) []"
  have bs: "distinct bs" "\<forall>b\<in>set bs. (\<exists>i. b = Blk i) \<and> ref_cnt (lp_store p b) = 1"
    using rel refs by (auto simp: releasable_def bs_def Let_def)
  have wf: "lp_wf ?l p" using inv by (simp add: lp_inv_def)
  have "bundle_id_for_block ?l ?ow (block_id (lp_store p b)) = Inr (bundle_of ?l ?ow b)" if "b \<in> set bs" for b
    using bs(2) that wf referenced_block(1) [OF inv] by (fastforce simp: lp_wf_def)
  then have loop: "rfold (lp_release_block ?l ?ow) bs (lp_store p, []) = Inr (?h, ?aff)"
    unfolding released_store_def using bs by (intro release_loop) auto
  have "\<forall>b\<in>set ?aff. 1 \<le> b \<and> b \<le> capacity_bundles ?l"
    using referenced_block(3) [OF inv] bs(2) by (auto simp: fold_set_add)
  moreover have "lp_bundle_unused ?l p ?h b = lp_bundle_unused ?l ?p (lp_store ?p) b" for b
    by (simp add: lp_bundle_unused_def all_unreferenced_store)
  ultimately have "rmap (lp_bundle_unused ?l p ?h) ?aff = Inr (map (\<lambda>b. \<not> used_bundle ?l ?p b) ?aff)"
    using bundle_unused_spec [OF released_wf [OF wf, of bs]] by (intro rmap_map) simp
  moreover obtain a' where a': "free_bundles ?ow (emptied ?l p bs) a = Inr a'"
    using emptied_owned [OF inv bs(2)] free_bundles_defined [of ?ow "emptied ?l p bs" a] by auto
  ultimately have "lp_free_blocks ordered a p = Inr (a', ?p)"
  proof (cases "bs = []")
    case True
    then have "?h = lp_store p" "emptied ?l p bs = []" by (simp_all add: released_store_def emptied_def)
    moreover have "free_bundles ?ow [] a = Inr a" by (simp add: free_bundles_def)
    ultimately show ?thesis using True a' by (simp add: lp_free_blocks_def bs_def)
  qed (simp add: lp_free_blocks_def Let_def bs_def [symmetric] loop filter_zip_map emptied_def [symmetric])
  then show ?thesis using a' by simp
qed

lemma free_blocks_error:
  assumes inv: "lp_inv a p" and refs: "\<forall>b\<in>set ordered. \<exists>i. b = Blk i" and rel: "\<not> releasable p ordered"
  shows "lp_free_blocks ordered a p = Inl ValueError"
proof -
  let ?bs = "filter (\<lambda>b. \<not> is_null (lp_store p b)) ordered"
  have wf: "lp_wf (layout a) p" using inv by (simp add: lp_inv_def)
  have "ref_cnt (lp_store p b) \<in> {0, 1} \<and> (ref_cnt (lp_store p b) = 1 \<longrightarrow>
      (\<exists>x. bundle_id_for_block (layout a) (lp_owner p) (block_id (lp_store p b)) = Inr x))" if b: "b \<in> set ?bs" for b
  proof -
    obtain i where i: "b = Blk i" using refs b(1) by auto
    then have "ref_cnt (lp_store p b) \<in> {0, 1}" "block_id (lp_store p b) = int i" using wf by (auto simp: lp_wf_def)
    then show ?thesis using referenced_block(1) [OF inv i] by auto
  qed
  moreover have "\<not> distinct ?bs \<or> (\<exists>b\<in>set ?bs. ref_cnt (lp_store p b) = 0)"
    using rel calculation unfolding releasable_def Let_def by blast
  ultimately have "rfold (lp_release_block (layout a) (lp_owner p)) ?bs (lp_store p, []) = Inl ValueError"
    by (intro release_loop_error) blast+
  moreover have "releasable p ordered" if "?bs = []" using that by (simp add: releasable_def)
  with rel have "?bs \<noteq> []" by blast
  ultimately show ?thesis by (simp add: lp_free_blocks_def)
qed

lemma free_blocks_inv:
  assumes inv: "lp_inv a p" and refs: "\<forall>b\<in>set ordered. \<exists>i. b = Blk i" and free: "lp_free_blocks ordered a p = Inr (a', p')"
  shows "lp_inv a' p'"
proof -
  let ?l = "layout a" and ?ow = "lp_owner p"
  define bs where "bs = filter (\<lambda>b. \<not> is_null (lp_store p b)) ordered"
  have rel: "releasable p ordered" using free_blocks_error [OF inv refs] free by auto
  have bs: "\<forall>b\<in>set bs. (\<exists>i. b = Blk i) \<and> ref_cnt (lp_store p b) = 1"
    using rel refs by (auto simp: releasable_def bs_def Let_def)
  have a': "free_bundles ?ow (emptied ?l p bs) a = Inr a'" and p': "p' = p\<lparr>lp_store := released_store bs (lp_store p)\<rparr>"
    using free_blocks_spec [OF inv refs rel] free by (auto simp: bs_def)
  have ai: "alloc_inv a" and wf: "lp_wf ?l p" and own: "\<And>b. owner_of a b = Some ?ow \<longleftrightarrow> used_bundle ?l p b"
    using inv by (auto simp: lp_inv_def)
  note law = free_bundles_owner_law [OF ai a']
  have sub: "used_bundle ?l p b" if "used_bundle ?l p' b" for b
    using that by (auto simp: used_bundle_def p' released_store_def split: if_splits)
  have "used_bundle ?l p' b" if b: "used_bundle ?l p b" "b \<notin> set (emptied ?l p bs)" for b
  proof (rule ccontr)
    assume unused: "\<not> used_bundle ?l p' b"
    obtain i where i: "ref_cnt (lp_store p (Blk i)) = 1" "bundle_id_for_block ?l ?ow (int i) = Inr b"
      using b(1) by (auto simp: used_bundle_def)
    have "Blk i \<in> set bs"
    proof (rule ccontr)
      assume "Blk i \<notin> set bs"
      then have "used_bundle ?l p' b" using i by (intro used_bundleI [of _ i]) (simp_all add: p' released_store_def)
      then show False using unused by simp
    qed
    moreover have "bundle_of ?l ?ow (Blk i) = b" using i by (simp add: bundle_of_def)
    ultimately have "b \<in> bundle_of ?l ?ow ` set bs" by blast
    then have "b \<in> set (emptied ?l p bs)"
      using unused by (simp add: emptied_def fold_set_add p')
    then show False using b(2) by simp
  qed
  moreover have "\<not> used_bundle ?l p' b" if "b \<in> set (emptied ?l p bs)" for b
    using that by (simp add: emptied_def p')
  ultimately have "owner_of a' b = Some ?ow \<longleftrightarrow> used_bundle ?l p' b" for b
    using law own sub by auto
  then show ?thesis
    using law released_wf [OF wf, of bs] free_bundles_layout [OF a'] by (simp add: lp_inv_def p')
qed

section \<open>The two pools together\<close>

text \<open>An operation of one owner leaves the invariant of the other owner's pool in place.\<close>

lemma lp_inv_other_alloc:
  assumes "lp_inv a q" and "allocate ow n a = Inr (bs, a')" and "lp_owner q \<noteq> ow"
  shows "lp_inv a' q"
  using assms allocate_owner_law [of a ow n bs a'] allocate_layout [OF assms(2)]
  unfolding lp_inv_def by (metis option.distinct(1) option.inject)

lemma lp_inv_other_free:
  assumes "lp_inv a q" and "free_bundles ow ids a = Inr a'" and "lp_owner q \<noteq> ow"
  shows "lp_inv a' q"
proof -
  have ai: "alloc_inv a" using assms(1) by (simp add: lp_inv_def)
  have "owner_of a' b = Some (lp_owner q) \<longleftrightarrow> owner_of a b = Some (lp_owner q)" for b
    using dsa.release_law [OF ai assms(2)] dsa.release_keeps_other [OF ai assms(2) _ assms(3), of b] by auto
  then show ?thesis
    using assms(1) free_bundles_inv [OF ai assms(2)] free_bundles_layout [OF assms(2)] by (simp add: lp_inv_def)
qed

record dsa_pools =
  dp_alloc :: dsa_allocator
  dp_pool :: "dsa_owner \<Rightarrow> logical_pool"

definition pools_inv :: "dsa_pools \<Rightarrow> bool" where
  "pools_inv s \<longleftrightarrow> (\<forall>ow. lp_owner (dp_pool s ow) = ow \<and> lp_inv (dp_alloc s) (dp_pool s ow))"

inductive pools_reach :: "dsa_layout \<Rightarrow> dsa_pools \<Rightarrow> bool" for l where
  init: "DSASharedLogicalBlockPool LATENT (DSASharedBundleAllocator l) = Inr pl \<Longrightarrow>
    DSASharedLogicalBlockPool INDEXER (DSASharedBundleAllocator l) = Inr pi \<Longrightarrow>
    pools_reach l \<lparr>dp_alloc = DSASharedBundleAllocator l, dp_pool = case_dsa_owner pl pi\<rparr>"
| new_blocks: "pools_reach l s \<Longrightarrow> lp_get_new_blocks n (dp_alloc s) (dp_pool s ow) = Inr (ret, a', p') \<Longrightarrow>
    pools_reach l \<lparr>dp_alloc = a', dp_pool = (dp_pool s)(ow := p')\<rparr>"
| free_blocks: "pools_reach l s \<Longrightarrow> \<forall>b\<in>set bs. \<exists>i. b = Blk i \<Longrightarrow>
    lp_free_blocks bs (dp_alloc s) (dp_pool s ow) = Inr (a', p') \<Longrightarrow>
    pools_reach l \<lparr>dp_alloc = a', dp_pool = (dp_pool s)(ow := p')\<rparr>"

lemma init_pool_inv:
  assumes "layout_ok l" and "DSASharedLogicalBlockPool ow (DSASharedBundleAllocator l) = Inr p"
  shows "lp_owner p = ow \<and> lp_inv (DSASharedBundleAllocator l) p"
proof -
  have l: "layout (DSASharedBundleAllocator l) = l" by (simp add: DSASharedBundleAllocator_def)
  have p: "lp_owner p = ow" "lp_num_gpu_blocks p = row_count l ow"
    "lp_store p (Blk i) = (if i = 0 then (KVCacheBlock 0)\<lparr>is_null := True\<rparr> else KVCacheBlock (int i))" for i
    using assms(2) by (auto simp: DSASharedLogicalBlockPool_def l Let_def split: if_splits)
  moreover have "owner_of (DSASharedBundleAllocator l) b = None" for b
    by (simp add: owner_of_def DSASharedBundleAllocator_def)
  moreover have "lp_wf l p" using assms(1) p by (simp add: lp_wf_def KVCacheBlock_def)
  moreover have "\<not> used_bundle l p b" for b using p(3) by (simp add: used_bundle_def KVCacheBlock_def)
  ultimately show ?thesis
    using alloc_inv_init [OF layout_ok_facts(3) [OF assms(1)]] by (simp add: lp_inv_def l)
qed

lemma get_new_blocks_alloc:
  assumes "lp_get_new_blocks n a p = Inr (ret, a', p')"
  shows "\<exists>bs. allocate (lp_owner p) (bundle_count_for_blocks a (lp_owner p) n) a = Inr (bs, a') \<and> lp_owner p' = lp_owner p"
  using assms by (auto simp: lp_get_new_blocks_def rbind_eq_Inr_iff split: if_splits)

lemma free_blocks_free:
  assumes "lp_free_blocks bs a p = Inr (a', p')"
  shows "\<exists>ids. free_bundles (lp_owner p) ids a = Inr a' \<and> lp_owner p' = lp_owner p"
proof (cases "filter (\<lambda>b. \<not> is_null (lp_store p b)) bs = []")
  case True
  then have "a' = a \<and> p' = p" using assms by (auto simp: lp_free_blocks_def)
  moreover have "free_bundles (lp_owner p) [] a = Inr a" by (simp add: free_bundles_def)
  ultimately show ?thesis by blast
next
  case False
  then show ?thesis using assms by (auto simp: lp_free_blocks_def Let_def rbind_eq_Inr_iff)
qed

lemma pools_inv_update:
  assumes "pools_inv s" and "lp_inv a' p'" and "lp_owner p' = ow"
    and "\<And>q. lp_inv (dp_alloc s) q \<Longrightarrow> lp_owner q \<noteq> ow \<Longrightarrow> lp_inv a' q"
  shows "pools_inv \<lparr>dp_alloc = a', dp_pool = (dp_pool s)(ow := p')\<rparr>"
  using assms by (auto simp: pools_inv_def)

lemma pools_reach_inv: "pools_reach l s \<Longrightarrow> layout_ok l \<Longrightarrow> pools_inv s \<and> layout (dp_alloc s) = l"
proof (induction rule: pools_reach.induct)
  case (init pl pi)
  then have "lp_owner pl = LATENT \<and> lp_inv (DSASharedBundleAllocator l) pl"
    "lp_owner pi = INDEXER \<and> lp_inv (DSASharedBundleAllocator l) pi" by (simp_all add: init_pool_inv)
  then show ?case by (auto simp: pools_inv_def DSASharedBundleAllocator_def split: dsa_owner.split)
next
  case (new_blocks s n ow ret a' p')
  then have s: "lp_inv (dp_alloc s) (dp_pool s ow)" "lp_owner (dp_pool s ow) = ow" by (auto simp: pools_inv_def)
  obtain bs where bs: "allocate ow (bundle_count_for_blocks (dp_alloc s) ow n) (dp_alloc s) = Inr (bs, a')"
    "lp_owner p' = ow" using get_new_blocks_alloc [OF new_blocks.hyps(2)] s(2) by auto
  have "pools_inv \<lparr>dp_alloc = a', dp_pool = (dp_pool s)(ow := p')\<rparr>"
    using new_blocks get_new_blocks_inv [OF s(1) new_blocks.hyps(2)] bs lp_inv_other_alloc [OF _ bs(1)]
    by (intro pools_inv_update) auto
  then show ?case using new_blocks allocate_layout [OF bs(1)] by simp
next
  case (free_blocks s bs ow a' p')
  then have s: "lp_inv (dp_alloc s) (dp_pool s ow)" "lp_owner (dp_pool s ow) = ow" by (auto simp: pools_inv_def)
  obtain ids where ids: "free_bundles ow ids (dp_alloc s) = Inr a'" "lp_owner p' = ow"
    using free_blocks_free [OF free_blocks.hyps(3)] s(2) by auto
  have "pools_inv \<lparr>dp_alloc = a', dp_pool = (dp_pool s)(ow := p')\<rparr>"
    using free_blocks free_blocks_inv [OF s(1) free_blocks.hyps(2,3)] ids lp_inv_other_free [OF _ ids(1)]
    by (intro pools_inv_update) auto
  then show ?case using free_blocks free_bundles_layout [OF ids(1)] by simp
qed

lemma free_after_get:
  assumes inv: "lp_inv a p" and get: "lp_get_new_blocks n a p = Inr (ret, a', p')" and perm: "mset bs = mset ret"
  shows "lp_free_blocks bs a' p' = Inr (a, p)"
proof -
  let ?l = "layout a" and ?ow = "lp_owner p"
  have n: "n \<le> lp_get_num_free_blocks a p" using get by (auto simp: lp_get_new_blocks_def split: if_splits)
  have ai: "alloc_inv a" and wf: "lp_wf ?l p" and ok: "layout_ok ?l" using inv by (auto simp: lp_inv_def lp_wf_def)
  obtain bundles where alloc: "allocate ?ow (bundle_count_for_blocks a ?ow n) a = Inr (bundles, a')"
    and rng: "\<forall>b\<in>set bundles. 1 \<le> b \<and> b \<le> capacity_bundles ?l" and dist: "distinct bundles"
    and zero: "\<forall>c\<in>set (bundle_blocks ?l ?ow bundles). ref_cnt (lp_store p c) = 0"
    and ret: "ret = bundle_blocks ?l ?ow bundles"
    and p': "p' = p\<lparr>lp_store := (\<lambda>c. if c \<in> set ret then (lp_store p c)\<lparr>ref_cnt := 1\<rparr> else lp_store p c)\<rparr>"
    using get by (rule_tac get_new_blocks_spec [OF inv n]) auto
  note mem = in_bundle_blocks [OF ok rng, of _ ?ow, folded ret]
  have bs: "distinct bs" "set bs = set ret"
    using perm distinct_bundle_blocks [OF ok rng dist, of ?ow] ret
    by (metis mset_eq_imp_distinct_iff) (use perm in \<open>metis set_mset_mset\<close>)
  have lay: "layout a' = ?l" by (rule allocate_layout [OF alloc])
  have real: "\<exists>i. c = Blk i \<and> 0 < i \<and> bundle_of ?l ?ow c \<in> set bundles" if "c \<in> set bs" for c
    using that mem bs(2) by (auto simp: bundle_of_def)
  have filt: "filter (\<lambda>b. \<not> is_null (lp_store p' b)) bs = bs"
    unfolding filter_id_conv
  proof
    fix c assume "c \<in> set bs"
    then obtain i where "c = Blk i" "0 < i" using real by blast
    then show "\<not> is_null (lp_store p' c)" using wf by (simp add: p' lp_wf_def)
  qed
  have inv': "lp_inv a' p'" by (rule get_new_blocks_inv [OF inv get])
  have restored: "released_store bs (lp_store p') = lp_store p"
    using zero bs(2) ret by (auto simp: released_store_def p' fun_eq_iff)
  have p: "p'\<lparr>lp_store := lp_store p\<rparr> = p" by (simp add: p')
  have "bundle_of ?l ?ow ` set bs = set bundles"
  proof (intro equalityI subsetI)
    fix b assume b: "b \<in> set bundles"
    then obtain x where x: "x \<in> set (bids ?l ?ow b)" using bids_nonempty [OF ok, of b ?ow] rng by (cases "bids ?l ?ow b") auto
    then have "0 < x" "x < row_count ?l ?ow" "bundle_id_for_block ?l ?ow x = Inr b"
      using bids_exact(4) [OF ok] rng b by auto
    then have "Blk (nat x) \<in> set bs" "bundle_of ?l ?ow (Blk (nat x)) = b"
      using mem b bs(2) by (auto simp: bundle_of_def)
    then show "b \<in> bundle_of ?l ?ow ` set bs" by force
  qed (use real in blast)
  moreover have "\<not> used_bundle ?l p b" if "b \<in> set bundles" for b
    using that allocate_owner_law [OF ai alloc] inv unfolding lp_inv_def by (metis option.distinct(1))
  moreover have "lp_owner p' = ?ow" by (simp add: p')
  ultimately have "set (emptied ?l p' bs) = set bundles" "distinct (emptied ?l p' bs)"
    by (auto simp: emptied_def restored p fold_set_add)
  then have "mset (emptied ?l p' bs) = mset bundles" using dist by (simp add: set_eq_iff_mset_eq_distinct)
  then have "free_bundles ?ow (emptied ?l p' bs) a' = Inr a" by (rule free_after_allocate [OF ai alloc])
  moreover have "releasable p' bs" using filt bs by (simp add: releasable_def p')
  ultimately show ?thesis
    using free_blocks_spec [OF inv', of bs] real filt lay \<open>lp_owner p' = ?ow\<close> by (auto simp: restored p)
qed

text \<open>A small layout and its two pools, for the concrete instances below.\<close>

definition small_layout :: dsa_layout where
  "small_layout = \<lparr>latent_page_size_bytes = 1152, indexer_page_size_bytes = 256,
      capacity_bundles = 6, k_nope_dim = 512, k_pe_dim = 64, indexer_dim = 128\<rparr>"

definition small_pool :: "dsa_owner \<Rightarrow> logical_pool" where
  "small_pool ow = projr (DSASharedLogicalBlockPool ow (DSASharedBundleAllocator small_layout))"

lemma small_layout_ok: "layout_ok small_layout"
  by code_simp

lemma small_pool_init: "DSASharedLogicalBlockPool ow (DSASharedBundleAllocator small_layout) = Inr (small_pool ow)"
proof -
  have "row_count small_layout LATENT = 14" "row_count small_layout INDEXER = 63" by code_simp+
  then have "0 < row_count small_layout ow" by (cases ow) simp_all
  then show ?thesis
    by (simp add: small_pool_def DSASharedLogicalBlockPool_def DSASharedBundleAllocator_def Let_def not_le)
qed

lemma small_pool_inv: "lp_inv (DSASharedBundleAllocator small_layout) (small_pool ow) \<and> lp_owner (small_pool ow) = ow"
  using init_pool_inv [OF small_layout_ok small_pool_init] by simp

lemma small_pool_free: "lp_get_num_free_blocks (DSASharedBundleAllocator small_layout) (small_pool LATENT) = 12"
proof -
  have "lp_owner (small_pool LATENT) = LATENT" using small_pool_inv by simp
  moreover have "latent_blocks_per_bundle small_layout = 2" by code_simp
  ultimately show ?thesis
    by (simp add: lp_get_num_free_blocks_def free_bundle_count_def DSASharedBundleAllocator_def)
      (simp add: small_layout_def)
qed

section \<open>Properties\<close>

text \<open>C4. The latent pool and the indexer pool hand out blocks of one shared set of physical
  bundles. In every state they reach by \<^verbatim>\<open>get_new_blocks\<close> and \<^verbatim>\<open>free_blocks\<close> calls, no bundle
  holds a referenced latent block and a referenced indexer block at the same time, a bundle is
  owned by a pool exactly while one of that pool's blocks in it is referenced (so nothing
  leaks and nothing is handed back early), and the padding block 0 is never referenced.\<close>

theorem shared_pools_never_alias:
  assumes "layout_ok l" and "pools_reach l s"
  shows "(\<forall>i j. ref_cnt (lp_store (dp_pool s LATENT) (Blk i)) \<noteq> 0 \<and> ref_cnt (lp_store (dp_pool s INDEXER) (Blk j)) \<noteq> 0 \<longrightarrow>
      bundle_id_for_block l LATENT (int i) \<noteq> bundle_id_for_block l INDEXER (int j)) \<and>
    (\<forall>ow b. owner_of (dp_alloc s) b = Some ow \<longleftrightarrow>
      (\<exists>i. ref_cnt (lp_store (dp_pool s ow) (Blk i)) \<noteq> 0 \<and> bundle_id_for_block l ow (int i) = Inr b)) \<and>
    (\<forall>ow. ref_cnt (lp_store (dp_pool s ow) (Blk 0)) = 0)"
proof -
  have inv: "lp_inv (dp_alloc s) (dp_pool s ow)" "lp_owner (dp_pool s ow) = ow" "layout (dp_alloc s) = l" for ow
    using pools_reach_inv [OF assms(2,1)] by (auto simp: pools_inv_def)
  have one: "ref_cnt (lp_store (dp_pool s ow) (Blk i)) \<noteq> 0 \<longleftrightarrow> ref_cnt (lp_store (dp_pool s ow) (Blk i)) = 1" for ow i
    using inv(1) [of ow] unfolding lp_inv_def lp_wf_def by force
  have own: "owner_of (dp_alloc s) b = Some ow \<longleftrightarrow>
      (\<exists>i. ref_cnt (lp_store (dp_pool s ow) (Blk i)) = 1 \<and> bundle_id_for_block l ow (int i) = Inr b)" for ow b
    using inv(1,2) [of ow] inv(3) by (simp add: lp_inv_def used_bundle_def)
  have "bundle_id_for_block l LATENT (int i) \<noteq> bundle_id_for_block l INDEXER (int j)"
    if "ref_cnt (lp_store (dp_pool s LATENT) (Blk i)) = 1" "ref_cnt (lp_store (dp_pool s INDEXER) (Blk j)) = 1" for i j
    using referenced_block(1,2) [OF inv(1) refl that(1)] referenced_block(1,2) [OF inv(1) refl that(2)]
    by (auto simp: inv(2,3))
  moreover have "ref_cnt (lp_store (dp_pool s ow) (Blk 0)) = 0" for ow
    using inv(1) [of ow] unfolding lp_inv_def lp_wf_def by force
  ultimately show ?thesis unfolding one using own by blast
qed

theorem shared_pools_never_alias_witness:
  "pools_reach small_layout \<lparr>dp_alloc = DSASharedBundleAllocator small_layout,
      dp_pool = case_dsa_owner (small_pool LATENT) (small_pool INDEXER)\<rparr> \<and>
   ref_cnt (lp_store (small_pool LATENT) (Blk 0)) = 0"
proof -
  have reach: "pools_reach small_layout \<lparr>dp_alloc = DSASharedBundleAllocator small_layout,
      dp_pool = case_dsa_owner (small_pool LATENT) (small_pool INDEXER)\<rparr>"
    by (rule pools_reach.init [OF small_pool_init small_pool_init])
  then have "ref_cnt (lp_store (dp_pool \<lparr>dp_alloc = DSASharedBundleAllocator small_layout,
      dp_pool = case_dsa_owner (small_pool LATENT) (small_pool INDEXER)\<rparr> LATENT) (Blk 0)) = 0"
    using shared_pools_never_alias [OF small_layout_ok] by blast
  then show ?thesis using reach by simp
qed

lemma logical_get_new_blocks_cases:
  assumes inv: "lp_inv a p"
  shows "((\<exists>e. lp_get_new_blocks n a p = Inl e) \<longleftrightarrow> lp_get_num_free_blocks a p < n) \<and>
    (\<forall>ret a' p'. lp_get_new_blocks n a p = Inr (ret, a', p') \<longrightarrow>
       n \<le> int (length ret) \<and>
       int (length ret) = max 0 (lp_get_num_bundles_to_allocate a p n) * blocks_per_bundle (layout a) (lp_owner p) \<and>
       distinct ret \<and>
       (\<forall>c\<in>set ret. ref_cnt (lp_store p c) = 0 \<and> \<not> is_null (lp_store p c)) \<and>
       lp_store p' = (\<lambda>c. if c \<in> set ret then (lp_store p c)\<lparr>ref_cnt := 1\<rparr> else lp_store p c) \<and>
       lp_get_num_free_blocks a' p' = lp_get_num_free_blocks a p - int (length ret) \<and> lp_inv a' p')"
proof (cases "n \<le> lp_get_num_free_blocks a p")
  case False
  then have "lp_get_new_blocks n a p = Inl ValueError" by (simp add: lp_get_new_blocks_def)
  then show ?thesis using False by simp
next
  case True
  let ?l = "layout a" and ?ow = "lp_owner p"
  let ?k = "bundle_count_for_blocks a ?ow n"
  have ai: "alloc_inv a" and wf: "lp_wf ?l p" and ok: "layout_ok ?l" using inv by (auto simp: lp_inv_def lp_wf_def)
  obtain bundles a' where alloc: "allocate ?ow ?k a = Inr (bundles, a')"
    and rng: "\<forall>b\<in>set bundles. 1 \<le> b \<and> b \<le> capacity_bundles ?l" and dist: "distinct bundles"
    and len: "int (length bundles) = max 0 ?k"
    and zero: "\<forall>c\<in>set (bundle_blocks ?l ?ow bundles). ref_cnt (lp_store p c) = 0"
    and get: "lp_get_new_blocks n a p = Inr (bundle_blocks ?l ?ow bundles, a',
      p\<lparr>lp_store := (\<lambda>c. if c \<in> set (bundle_blocks ?l ?ow bundles)
          then (lp_store p c)\<lparr>ref_cnt := 1\<rparr> else lp_store p c)\<rparr>)"
    by (rule get_new_blocks_spec [OF inv True])
  let ?ret = "bundle_blocks ?l ?ow bundles"
  have length: "int (length ?ret) = max 0 ?k * blocks_per_bundle ?l ?ow"
    using length_bundle_blocks [OF ok rng, of ?ow] len by simp
  have pos: "0 < blocks_per_bundle ?l ?ow" by (rule blocks_per_bundle_pos [OF ok])
  have enough: "n \<le> max 0 ?k * blocks_per_bundle ?l ?ow"
    using dsa_cdiv_le_iff [OF pos, of n "max 0 ?k"] by (simp add: bundle_count_for_blocks_def)
  have null: "\<not> is_null (lp_store p c)" if c: "c \<in> set ?ret" for c
  proof -
    obtain i where "c = Blk i" "0 < i" using c in_bundle_blocks [OF ok rng, of c ?ow] by blast
    then show ?thesis using wf by (simp add: lp_wf_def)
  qed
  have "free_bundle_count a' = free_bundle_count a - max 0 ?k"
  proof -
    have cap: "0 < capacity_bundles ?l" by (rule layout_ok_facts(3) [OF ok])
    have a': "alloc_inv a'" by (rule allocate_inv [OF ai alloc])
    have "length (owners a') = length (owners a) + length bundles"
      using allocate_owners_length [OF ai alloc] .
    then show ?thesis
      using alloc_inv_length [OF ai cap] alloc_inv_length [OF a'] cap len by (simp add: allocate_layout [OF alloc])
  qed
  then have free: "lp_get_num_free_blocks a' p' = lp_get_num_free_blocks a p - int (length ?ret)"
    if "lp_owner p' = ?ow" for p'
    using that length by (simp add: lp_get_num_free_blocks_def allocate_layout [OF alloc] left_diff_distrib)
  show ?thesis
    using get True length enough zero null distinct_bundle_blocks [OF ok rng dist, of ?ow]
      get_new_blocks_inv [OF inv get] free by (auto simp: lp_get_num_bundles_to_allocate_def)
qed

text \<open>C30. \<^verbatim>\<open>get_new_blocks\<close> of the logical pool raises \<^verbatim>\<open>ValueError\<close> exactly when more blocks are
  asked for than whole free bundles can hold, and its assertion on reference counts never
  fails: otherwise it returns distinct, previously unreferenced, non-null blocks, at least as
  many as asked for (the request rounded up to whole bundles), each with reference count 1,
  leaves every other block alone and keeps the invariant.\<close>

theorem logical_get_new_blocks_contract:
  assumes inv: "lp_inv a p"
  shows "((\<exists>e. lp_get_new_blocks n a p = Inl e) \<longleftrightarrow> lp_get_num_free_blocks a p < n) \<and>
    (\<forall>ret a' p'. lp_get_new_blocks n a p = Inr (ret, a', p') \<longrightarrow>
       n \<le> int (length ret) \<and>
       int (length ret) = max 0 (lp_get_num_bundles_to_allocate a p n) * blocks_per_bundle (layout a) (lp_owner p) \<and>
       distinct ret \<and>
       (\<forall>c\<in>set ret. ref_cnt (lp_store p c) = 0 \<and> \<not> is_null (lp_store p c)) \<and>
       lp_store p' = (\<lambda>c. if c \<in> set ret then (lp_store p c)\<lparr>ref_cnt := 1\<rparr> else lp_store p c) \<and>
       lp_get_num_free_blocks a' p' = lp_get_num_free_blocks a p - int (length ret) \<and> lp_inv a' p')"
  by (rule logical_get_new_blocks_cases [OF inv])

theorem logical_get_new_blocks_contract_witness:
  "\<exists>ret a' p'. lp_get_new_blocks 3 (DSASharedBundleAllocator small_layout) (small_pool LATENT) = Inr (ret, a', p') \<and>
     3 \<le> length ret \<and> distinct ret \<and> lp_inv a' p'"
proof -
  have inv: "lp_inv (DSASharedBundleAllocator small_layout) (small_pool LATENT)" using small_pool_inv by simp
  note contract = logical_get_new_blocks_contract [OF inv, of 3]
  then have "\<not> (\<exists>e. lp_get_new_blocks 3 (DSASharedBundleAllocator small_layout) (small_pool LATENT) = Inl e)"
    using small_pool_free by simp
  then obtain r where r: "lp_get_new_blocks 3 (DSASharedBundleAllocator small_layout) (small_pool LATENT) = Inr r"
    by (cases "lp_get_new_blocks 3 (DSASharedBundleAllocator small_layout) (small_pool LATENT)") auto
  obtain ret a' p' where "r = (ret, a', p')" by (cases r)
  with r contract show ?thesis by auto
qed

text \<open>C31. Freeing exactly the blocks that a \<^verbatim>\<open>get_new_blocks\<close> returned, in any order, restores both
  the shared allocator and the logical pool to the states they had before.\<close>

theorem logical_free_undoes_get:
  assumes "lp_inv a p" and "lp_get_new_blocks n a p = Inr (ret, a', p')" and "mset bs = mset ret"
  shows "lp_free_blocks bs a' p' = Inr (a, p)"
  using assms by (rule free_after_get)

theorem logical_free_undoes_get_witness:
  "\<exists>ret a' p'. lp_get_new_blocks 3 (DSASharedBundleAllocator small_layout) (small_pool LATENT) = Inr (ret, a', p') \<and>
     lp_free_blocks (rev ret) a' p' = Inr (DSASharedBundleAllocator small_layout, small_pool LATENT)"
proof -
  have inv: "lp_inv (DSASharedBundleAllocator small_layout) (small_pool LATENT)" using small_pool_inv by simp
  obtain ret a' p' where get: "lp_get_new_blocks 3 (DSASharedBundleAllocator small_layout) (small_pool LATENT) = Inr (ret, a', p')"
    by (rule get_new_blocks_spec [OF inv, of 3]) (use small_pool_free in auto)
  have "lp_free_blocks (rev ret) a' p' = Inr (DSASharedBundleAllocator small_layout, small_pool LATENT)"
    by (rule logical_free_undoes_get [OF inv get]) simp
  then show ?thesis using get by blast
qed

text \<open>C32. \<^verbatim>\<open>free_blocks\<close> of the logical pool ignores null blocks and raises \<^verbatim>\<open>ValueError\<close> exactly when
  a block is named twice or is not referenced. Otherwise it drops the reference of exactly the
  named blocks, keeps the invariant, and a bundle changes owner only if it was this pool's and
  none of its blocks is referenced any more: a bundle released in parts stays owned until its
  last block is freed.\<close>

theorem logical_free_blocks_contract:
  assumes inv: "lp_inv a p" and refs: "\<forall>b\<in>set bs. \<exists>i. b = Blk i"
  shows "((\<exists>e. lp_free_blocks bs a p = Inl e) \<longleftrightarrow> \<not> releasable p bs) \<and>
    (\<forall>a' p'. lp_free_blocks bs a p = Inr (a', p') \<longrightarrow>
       lp_store p' = (\<lambda>c. if c \<in> set bs \<and> \<not> is_null (lp_store p c) then (lp_store p c)\<lparr>ref_cnt := 0\<rparr> else lp_store p c) \<and>
       lp_inv a' p' \<and>
       (\<forall>b. owner_of a' b = (if owner_of a b = Some (lp_owner p) \<and> \<not> used_bundle (layout a) p' b
              then None else owner_of a b)))"
proof (cases "releasable p bs")
  case False
  then show ?thesis using free_blocks_error [OF inv refs] by simp
next
  case True
  let ?bl = "filter (\<lambda>b. \<not> is_null (lp_store p b)) bs"
  let ?p = "p\<lparr>lp_store := released_store ?bl (lp_store p)\<rparr>"
  obtain a' where a': "free_bundles (lp_owner p) (emptied (layout a) p ?bl) a = Inr a'"
    and free: "lp_free_blocks bs a p = Inr (a', ?p)"
    using free_blocks_spec [OF inv refs True] by blast
  have ai: "alloc_inv a" using inv by (simp add: lp_inv_def)
  have inv': "lp_inv a' ?p" by (rule free_blocks_inv [OF inv refs free])
  note law = free_bundles_owner_law [OF ai a']
  have own: "owner_of a' b = Some (lp_owner p) \<longleftrightarrow> used_bundle (layout a) ?p b" for b
    using inv' free_bundles_layout [OF a'] by (simp add: lp_inv_def)
  have "owner_of a b = Some (lp_owner p)" if "b \<in> set (emptied (layout a) p ?bl)" for b
    using that free_bundles_defined [of "lp_owner p" "emptied (layout a) p ?bl" a] a' by auto
  then have "owner_of a' b = (if owner_of a b = Some (lp_owner p) \<and> \<not> used_bundle (layout a) ?p b
              then None else owner_of a b)" for b
    using law own [of b] by (auto split: if_splits)
  then show ?thesis using True free inv' by (auto simp: released_store_def fun_eq_iff)
qed

theorem logical_free_blocks_contract_witness:
  "\<exists>ret a' p'. lp_get_new_blocks 3 (DSASharedBundleAllocator small_layout) (small_pool LATENT) = Inr (ret, a', p') \<and>
     (\<forall>b\<in>set ret. \<exists>i. b = Blk i) \<and> releasable p' ret \<and> lp_inv (DSASharedBundleAllocator small_layout) (small_pool LATENT)"
proof -
  have inv: "lp_inv (DSASharedBundleAllocator small_layout) (small_pool LATENT)" using small_pool_inv by simp
  obtain ret a' p' where get: "lp_get_new_blocks 3 (DSASharedBundleAllocator small_layout) (small_pool LATENT) = Inr (ret, a', p')"
    and refs: "\<forall>b\<in>set ret. \<exists>i. b = Blk i"
    by (rule get_new_blocks_spec [OF inv, of 3]) (use small_pool_free in \<open>auto simp: bundle_blocks_def\<close>)
  have free: "lp_free_blocks ret a' p' = Inr (DSASharedBundleAllocator small_layout, small_pool LATENT)"
    by (rule free_after_get [OF inv get]) simp
  note logical_free_blocks_contract [OF get_new_blocks_inv [OF inv get] refs]
  then have "releasable p' ret" "lp_inv (DSASharedBundleAllocator small_layout) (small_pool LATENT)"
    using free by auto
  then show ?thesis using get refs by blast
qed

end
