(* ===== verification/Request.thy ===== *)
theory Request
  imports Prelude "HOL-Library.List_Lexorder" "HOL-Library.Char_ord" "HOL-Library.Product_Lexorder"
begin

text \<open>
  \<^verbatim>\<open>vllm/v1/request.py\<close> and \<^verbatim>\<open>vllm/v1/core/sched/utils.py\<close>: the request, its status machine and
  order, the tokens it carries, and the stop check that the scheduler runs on every new token.
  The block hasher is a closure the request is built with; it is a parameter of the operations
  that call it. The hidden-state hand-off fields of the constructor are not part of the record.
  The lemmas characterise the status tests, show that the order is a strict total order on
  request objects, that the token lists stay in step, and what the stop check decides.
\<close>

section \<open>Status\<close>

datatype request_status =
    WAITING
  | WAITING_FOR_FSM
  | WAITING_FOR_REMOTE_KVS
  | WAITING_FOR_STREAMING_REQ
  | RUNNING
  | PREEMPTED
  | FINISHED_STOPPED
  | FINISHED_LENGTH_CAPPED
  | FINISHED_ABORTED
  | FINISHED_IGNORED
  | FINISHED_ERROR
  | FINISHED_REPETITION

text \<open>The values \<^verbatim>\<open>enum.auto()\<close> assigns, which the integer comparison of the enum uses.\<close>

fun status_value :: "request_status \<Rightarrow> nat" where
  "status_value WAITING = 1"
| "status_value WAITING_FOR_FSM = 2"
| "status_value WAITING_FOR_REMOTE_KVS = 3"
| "status_value WAITING_FOR_STREAMING_REQ = 4"
| "status_value RUNNING = 5"
| "status_value PREEMPTED = 6"
| "status_value FINISHED_STOPPED = 7"
| "status_value FINISHED_LENGTH_CAPPED = 8"
| "status_value FINISHED_ABORTED = 9"
| "status_value FINISHED_IGNORED = 10"
| "status_value FINISHED_ERROR = 11"
| "status_value FINISHED_REPETITION = 12"

instantiation request_status :: linorder
begin

definition less_eq_request_status :: "request_status \<Rightarrow> request_status \<Rightarrow> bool" where
  "less_eq_request_status s t \<longleftrightarrow> status_value s \<le> status_value t"

definition less_request_status :: "request_status \<Rightarrow> request_status \<Rightarrow> bool" where
  "less_request_status s t \<longleftrightarrow> status_value s < status_value t"

instance
proof
  fix s t :: request_status
  assume "s \<le> t" "t \<le> s"
  then have "status_value s = status_value t" by (simp add: less_eq_request_status_def)
  then show "s = t" by (cases s; cases t) simp_all
qed (auto simp: less_eq_request_status_def less_request_status_def)

end

datatype finish_reason = FR_STOP | FR_LENGTH | FR_ABORT | FR_ERROR | FR_REPETITION

definition is_finished :: "request_status \<Rightarrow> bool" where
  "is_finished s \<longleftrightarrow> s > PREEMPTED"

fun get_finished_reason :: "request_status \<Rightarrow> finish_reason option" where
  "get_finished_reason FINISHED_STOPPED = Some FR_STOP"
| "get_finished_reason FINISHED_LENGTH_CAPPED = Some FR_LENGTH"
| "get_finished_reason FINISHED_ABORTED = Some FR_ABORT"
| "get_finished_reason FINISHED_IGNORED = Some FR_LENGTH"
| "get_finished_reason FINISHED_ERROR = Some FR_ERROR"
| "get_finished_reason WAITING_FOR_STREAMING_REQ = Some FR_STOP"
| "get_finished_reason FINISHED_REPETITION = Some FR_REPETITION"
| "get_finished_reason _ = None"

section \<open>The request\<close>

text \<open>Of the sampling parameters, the fields that the modelled code reads.\<close>

record repetition_params =
  max_pattern_size :: int
  min_pattern_size :: int
  min_count :: int

record sampling_params =
  sp_max_tokens :: int
  min_tokens :: int
  eos_token_id :: "int option"
  stop_token_ids :: "int list"
  repetition_detection :: "repetition_params option"
  sp_skip_reading_prefix_cache :: "bool option"

record mm_feature =
  mm_identifier :: "string option"
  mm_offset :: int
  mm_length :: int

record lora_request =
  lora_name :: string
  lora_int_id :: int

datatype stop_reason = StopToken int | StopText string

text \<open>\<^verbatim>\<open>obj_id\<close> is the identity of the request object, which \<^verbatim>\<open>id(self)\<close>, \<^verbatim>\<open>==\<close> and set membership use.
  Arrival times are only compared, so any totally ordered type serves.\<close>

record request =
  obj_id :: int
  request_id :: string
  client_index :: int
  priority :: int
  arrival_time :: int
  samp :: sampling_params
  max_tokens :: int
  status :: request_status
  req_stop_reason :: "stop_reason option"
  lora_req :: "lora_request option"
  has_prompt_embeds :: bool
  mm_features :: "mm_feature list"
  cache_salt :: "string option"
  num_prompt_tokens :: int
  output_token_ids :: "int list"
  all_token_ids :: "int list"
  spec_token_ids :: "int list"
  num_computed_tokens :: int
  num_output_placeholders :: int
  discard_latest_async_tokens :: bool
  num_cached_tokens :: int
  is_prefill_chunk :: bool
  num_preemptions :: int
  num_external_computed_tokens :: int
  block_hashes :: "bytes list"
  skip_reading_prefix_cache :: bool
  resumable :: bool
  dsa_compact_allocated :: bool

definition num_tokens :: "request \<Rightarrow> int" where
  "num_tokens r = int (length (all_token_ids r))"

definition num_tokens_with_spec :: "request \<Rightarrow> int" where
  "num_tokens_with_spec r = int (length (all_token_ids r)) + int (length (spec_token_ids r))"

definition num_output_tokens :: "request \<Rightarrow> int" where
  "num_output_tokens r = int (length (output_token_ids r))"

type_synonym block_hasher = "(request \<Rightarrow> bytes list res) option"

definition update_block_hashes :: "block_hasher \<Rightarrow> request \<Rightarrow> request res" where
  "update_block_hashes hasher r =
     (case hasher of
        None \<Rightarrow> Inr r
      | Some f \<Rightarrow> rbind (f r) (\<lambda>hs. Inr (r\<lparr>block_hashes := block_hashes r @ hs\<rparr>)))"

definition append_output_token_ids :: "block_hasher \<Rightarrow> int list \<Rightarrow> request \<Rightarrow> request res" where
  "append_output_token_ids hasher ts r =
     update_block_hashes hasher
       (r\<lparr>output_token_ids := output_token_ids r @ ts, all_token_ids := all_token_ids r @ ts\<rparr>)"

definition get_skip_reading_prefix_cache :: "sampling_params \<Rightarrow> bool" where
  "get_skip_reading_prefix_cache sp =
     (case sp_skip_reading_prefix_cache sp of Some b \<Rightarrow> b | None \<Rightarrow> False)"

text \<open>The constructor on the token-prompt path: media, LoRA, embeddings and pooling are refused.\<close>

definition Request ::
  "block_hasher \<Rightarrow> int \<Rightarrow> string \<Rightarrow> int list \<Rightarrow> sampling_params \<Rightarrow> bool \<Rightarrow> int \<Rightarrow> int \<Rightarrow> mm_feature list \<Rightarrow>
   lora_request option \<Rightarrow> bool \<Rightarrow> bool \<Rightarrow> string option \<Rightarrow> int \<Rightarrow> bool \<Rightarrow> request res" where
  "Request hasher oid rid prompt sp structured client arrival mm lora embeds pooling salt prio resum =
     (if mm \<noteq> [] \<or> embeds \<or> pooling \<or> lora \<noteq> None then Inl ValueError
      else update_block_hashes hasher
        \<lparr>obj_id = oid, request_id = rid, client_index = client, priority = prio, arrival_time = arrival,
         samp = sp, max_tokens = sp_max_tokens sp,
         status = (if structured then WAITING_FOR_FSM else WAITING),
         req_stop_reason = None, lora_req = lora, has_prompt_embeds = embeds, mm_features = mm,
         cache_salt = salt, num_prompt_tokens = int (length prompt), output_token_ids = [],
         all_token_ids = prompt, spec_token_ids = [], num_computed_tokens = 0,
         num_output_placeholders = 0, discard_latest_async_tokens = False, num_cached_tokens = - 1,
         is_prefill_chunk = False, num_preemptions = 0, num_external_computed_tokens = 0,
         block_hashes = [], skip_reading_prefix_cache = get_skip_reading_prefix_cache sp,
         resumable = resum, dsa_compact_allocated = False\<rparr>)"

definition request_lt :: "request \<Rightarrow> request \<Rightarrow> bool" where
  "request_lt r s =
     (if priority r \<noteq> priority s then priority r < priority s
      else if arrival_time r \<noteq> arrival_time s then arrival_time r < arrival_time s
      else if request_id r \<noteq> request_id s then request_id r < request_id s
      else obj_id r < obj_id s)"

section \<open>Stop check\<close>

text \<open>\<^verbatim>\<open>token_ids[-n]\<close> for a positive \<open>n\<close>.\<close>

definition from_end :: "int list \<Rightarrow> int \<Rightarrow> int res" where
  "from_end xs n = (if 1 \<le> n \<and> n \<le> int (length xs) then Inr (xs ! (length xs - nat n)) else Inl IndexError)"

fun repeats_at :: "int list \<Rightarrow> int \<Rightarrow> int \<Rightarrow> int \<Rightarrow> int list \<Rightarrow> bool res" where
  "repeats_at xs pattern_len n target [] = Inr True"
| "repeats_at xs pattern_len n target (m # ms) =
     rbind (from_end xs (pattern_len * m + n)) (\<lambda>t.
       if t \<noteq> target then Inr False else repeats_at xs pattern_len n target ms)"

fun repeats_all :: "int list \<Rightarrow> int \<Rightarrow> int \<Rightarrow> int list \<Rightarrow> bool res" where
  "repeats_all xs pattern_len cnt [] = Inr True"
| "repeats_all xs pattern_len cnt (n # ns) =
     rbind (from_end xs n) (\<lambda>target.
     rbind (repeats_at xs pattern_len n target [1..cnt - 1]) (\<lambda>ok.
       if \<not> ok then Inr False else repeats_all xs pattern_len cnt ns))"

definition has_repeating_pattern :: "int list \<Rightarrow> int \<Rightarrow> int \<Rightarrow> bool res" where
  "has_repeating_pattern xs pattern_len repetition_min_count =
     repeats_all xs pattern_len repetition_min_count [1..pattern_len]"

fun repetition_scan :: "int list \<Rightarrow> int \<Rightarrow> int list \<Rightarrow> bool res" where
  "repetition_scan xs cnt [] = Inr False"
| "repetition_scan xs cnt (pattern_len # ps) =
     (if pattern_len * cnt > int (length xs) then Inr False
      else rbind (has_repeating_pattern xs pattern_len cnt) (\<lambda>found.
        if found then Inr True else repetition_scan xs cnt ps))"

definition check_sequence_repetition :: "int list \<Rightarrow> repetition_params \<Rightarrow> bool res" where
  "check_sequence_repetition xs p =
     (let mn = (if min_pattern_size p \<le> 0 then 1 else min_pattern_size p)
      in if max_pattern_size p \<le> 0 \<or> min_count p < 2 \<or> mn > max_pattern_size p then Inr False
         else repetition_scan xs (min_count p) [mn..max_pattern_size p])"

definition check_stop :: "int \<Rightarrow> request \<Rightarrow> (bool \<times> request) res" where
  "check_stop max_model_len r =
     (if num_output_tokens r < min_tokens (samp r) then Inr (False, r)
      else rbind (from_end (output_token_ids r) 1) (\<lambda>last_token_id.
        if Some last_token_id = eos_token_id (samp r)
        then Inr (True, r\<lparr>status := FINISHED_STOPPED\<rparr>)
        else if last_token_id \<in> set (stop_token_ids (samp r))
        then Inr (True, r\<lparr>status := FINISHED_STOPPED, req_stop_reason := Some (StopToken last_token_id)\<rparr>)
        else if num_tokens r \<ge> max_model_len \<or> num_output_tokens r \<ge> max_tokens r
        then Inr (True, r\<lparr>status := FINISHED_LENGTH_CAPPED\<rparr>)
        else (case repetition_detection (samp r) of
            None \<Rightarrow> Inr (False, r)
          | Some p \<Rightarrow> rbind (check_sequence_repetition (output_token_ids r) p) (\<lambda>rep.
              if rep then Inr (True, r\<lparr>status := FINISHED_REPETITION,
                                       req_stop_reason := Some (StopText ''repetition_detected'')\<rparr>)
              else Inr (False, r)))))"

text \<open>\<^verbatim>\<open>remove_all\<close>; the set of items is a list without repetitions.\<close>

definition remove_all :: "'a list \<Rightarrow> 'a list \<Rightarrow> 'a list" where
  "remove_all lst items =
     (if items = [] then lst
      else if length items = 1 then remove1 (hd items) lst
      else filter (\<lambda>x. x \<notin> set items) lst)"

section \<open>Order\<close>

definition request_key :: "request \<Rightarrow> int \<times> int \<times> string \<times> int" where
  "request_key r = (priority r, arrival_time r, request_id r, obj_id r)"

lemma request_lt_key: "request_lt r s \<longleftrightarrow> request_key r < request_key s"
  by (auto simp: request_lt_def request_key_def less_prod_def)

lemma request_lt_trans: "request_lt r s \<Longrightarrow> request_lt s t \<Longrightarrow> request_lt r t"
  unfolding request_lt_key by (rule order.strict_trans)

lemma request_lt_total: "obj_id r \<noteq> obj_id s \<Longrightarrow> request_lt r s \<or> request_lt s r"
  unfolding request_lt_key using linorder_neq_iff [of "request_key r" "request_key s"]
  by (auto simp: request_key_def)

section \<open>Repetition\<close>

lemma from_end_rev: "1 \<le> n \<Longrightarrow> n \<le> int (length xs) \<Longrightarrow> from_end xs n = Inr (rev xs ! nat (n - 1))"
proof -
  assume n: "1 \<le> n" "n \<le> int (length xs)"
  then have "length xs - nat n = length xs - Suc (nat (n - 1))" "nat (n - 1) < length xs" by linarith+
  then show ?thesis using n by (simp add: from_end_def rev_nth)
qed

lemma repeats_at_eq:
  assumes "\<forall>m\<in>set ms. 1 \<le> p * m + n \<and> p * m + n \<le> int (length xs)"
  shows "repeats_at xs p n target ms = Inr (\<forall>m\<in>set ms. rev xs ! nat (p * m + n - 1) = target)"
  using assms by (induction ms) (auto simp: from_end_rev)

lemma repeats_all_eq:
  assumes "0 < p" and "p * c \<le> int (length xs)" and "2 \<le> c" and "set ns \<subseteq> {1..p}"
  shows "repeats_all xs p c ns =
    Inr (\<forall>n\<in>set ns. \<forall>m\<in>{1..c - 1}. rev xs ! nat (p * m + n - 1) = rev xs ! nat (n - 1))"
  using assms(4)
proof (induction ns)
  case (Cons n ns)
  have "p * 1 \<le> p * c" using assms(1,3) by (intro mult_left_mono) auto
  moreover have np: "1 \<le> n" "n \<le> p" using Cons.prems by simp_all
  ultimately have n: "1 \<le> n" "n \<le> int (length xs)" using assms(2) by linarith+
  have "\<forall>m\<in>set [1..c - 1]. 1 \<le> p * m + n \<and> p * m + n \<le> int (length xs)"
  proof
    fix m assume "m \<in> set [1..c - 1]"
    then have "p * 1 \<le> p * m" "p * m \<le> p * (c - 1)" using assms(1) by (auto intro!: mult_left_mono)
    moreover have "p * (c - 1) = p * c - p" by (simp add: right_diff_distrib)
    ultimately show "1 \<le> p * m + n \<and> p * m + n \<le> int (length xs)"
      using np assms(1,2) by linarith
  qed
  then show ?case using Cons n by (auto simp: from_end_rev repeats_at_eq)
qed simp

lemma nth_concat_replicate: "i < c * length w \<Longrightarrow> concat (replicate c w) ! i = w ! (i mod length w)"
proof (induction c arbitrary: i)
  case (Suc c)
  then show ?case
  proof (cases "i < length w")
    case False
    then have "concat (replicate c w) ! (i - length w) = w ! ((i - length w) mod length w)"
      using Suc by (intro Suc.IH) auto
    then show ?thesis using False by (simp add: nth_append le_mod_geq)
  qed (simp add: nth_append)
qed simp

text \<open>The tail of \<open>xs\<close> is \<open>c\<close> copies of one pattern of length \<open>p\<close>.\<close>

definition ends_repeating :: "int list \<Rightarrow> nat \<Rightarrow> nat \<Rightarrow> bool" where
  "ends_repeating xs p c \<longleftrightarrow> (\<exists>pre pat. length pat = p \<and> xs = pre @ concat (replicate c pat))"

lemma length_concat_replicate [simp]: "length (concat (replicate c w)) = c * length w"
  by (induction c) auto

lemma rev_concat_replicate [simp]: "rev (concat (replicate c w)) = concat (replicate c (rev w))"
  by (simp add: rev_concat)

lemma ends_repeating_iff:
  assumes "0 < p" and "0 < c" and "p * c \<le> length xs"
  shows "ends_repeating xs p c \<longleftrightarrow> (\<forall>i<p * c. rev xs ! i = rev xs ! (i mod p))"
proof
  assume "ends_repeating xs p c"
  then obtain pre pat where pat: "length pat = p" "rev xs = concat (replicate c (rev pat)) @ rev pre"
    by (auto simp: ends_repeating_def)
  have "rev xs ! i = rev pat ! (i mod p)" if "i < p * c" for i
    using that pat nth_concat_replicate [of i c "rev pat"] by (simp add: nth_append mult.commute)
  moreover have "i mod p < p * c" for i
  proof -
    have "i mod p < p" using assms(1) by simp
    also have "p \<le> p * c" using assms(2) by simp
    finally show ?thesis .
  qed
  ultimately show "\<forall>i<p * c. rev xs ! i = rev xs ! (i mod p)" by simp
next
  assume rep: "\<forall>i<p * c. rev xs ! i = rev xs ! (i mod p)"
  have "p \<le> p * c" using assms(2) by simp
  then have p: "p \<le> length xs" using assms(3) by linarith
  have "take (p * c) (rev xs) = concat (replicate c (take p (rev xs)))"
  proof (rule nth_equalityI)
    show "length (take (p * c) (rev xs)) = length (concat (replicate c (take p (rev xs))))"
      using assms p by (simp add: min_absorb2 mult.commute)
    fix i assume "i < length (take (p * c) (rev xs))"
    then have i: "i < p * c" by simp
    then show "take (p * c) (rev xs) ! i = concat (replicate c (take p (rev xs))) ! i"
      using rep assms p nth_concat_replicate [of i c "take p (rev xs)"] by (simp add: min_absorb2 mult.commute)
  qed
  then have "rev xs = concat (replicate c (take p (rev xs))) @ drop (p * c) (rev xs)"
    by (metis append_take_drop_id)
  then have "xs = rev (drop (p * c) (rev xs)) @ concat (replicate c (rev (take p (rev xs))))"
    by (metis rev_append rev_concat_replicate rev_rev_ident)
  moreover have "length (rev (take p (rev xs))) = p" using p by simp
  ultimately show "ends_repeating xs p c" unfolding ends_repeating_def by blast
qed

lemma has_repeating_pattern_eq:
  assumes "0 < p" and "2 \<le> c" and "p * c \<le> int (length xs)"
  shows "has_repeating_pattern xs p c = Inr (ends_repeating xs (nat p) (nat c))"
proof -
  have "(\<forall>n\<in>set [1..p]. \<forall>m\<in>{1..c - 1}. rev xs ! nat (p * m + n - 1) = rev xs ! nat (n - 1)) \<longleftrightarrow>
      (\<forall>i<nat p * nat c. rev xs ! i = rev xs ! (i mod nat p))" (is "?L \<longleftrightarrow> ?R")
  proof
    assume L: ?L
    show ?R
    proof (intro allI impI)
      fix i assume i: "i < nat p * nat c"
      define m n where "m = int (i div nat p)" and "n = int (i mod nat p) + 1"
      have "i mod nat p < nat p" using assms(1) by simp
      then have n: "n \<in> set [1..p]" by (simp add: n_def)
      have "i div nat p < nat c" using i by (simp add: less_mult_imp_div_less mult.commute)
      then have m: "0 \<le> m" "m \<le> c - 1" by (auto simp: m_def)
      have "int i = int (nat p * (i div nat p) + i mod nat p)" by simp
      also have "\<dots> = p * m + n - 1" using assms(1) by (simp only: of_nat_add of_nat_mult m_def n_def) simp
      finally have "i = nat (p * m + n - 1)" "i mod nat p = nat (n - 1)" by (simp_all add: n_def)
      then show "rev xs ! i = rev xs ! (i mod nat p)"
      proof (cases "m = 0")
        case False
        then have "m \<in> {1..c - 1}" using m by auto
        then show ?thesis using L n \<open>i = nat (p * m + n - 1)\<close> \<open>i mod nat p = nat (n - 1)\<close> by (simp only:)
      qed (use \<open>i = nat (p * m + n - 1)\<close> \<open>i mod nat p = nat (n - 1)\<close> in simp)
    qed
  next
    assume R: ?R
    show ?L
    proof (intro ballI)
      fix n m assume n: "n \<in> set [1..p]" and m: "m \<in> {1..c - 1}"
      define i where "i = nat (p * m + n - 1)"
      have "p * m + n - 1 = int (nat p * nat m + nat (n - 1))" using assms(1) n m by simp
      then have i: "i = nat p * nat m + nat (n - 1)" by (simp only: i_def nat_int)
      moreover have "nat p * nat m + nat (n - 1) < nat p * nat c"
      proof -
        have "nat (n - 1) < nat p" using n by auto
        then have "nat p * nat m + nat (n - 1) < nat p * Suc (nat m)" by simp
        also have "\<dots> \<le> nat p * nat c" using m by (intro mult_le_mono2) auto
        finally show ?thesis .
      qed
      ultimately have "rev xs ! i = rev xs ! (i mod nat p)" using R by simp
      moreover have "nat (n - 1) < nat p" using n by auto
      then have "i mod nat p = nat (n - 1)" by (simp add: i)
      ultimately show "rev xs ! nat (p * m + n - 1) = rev xs ! nat (n - 1)" by (simp add: i_def)
    qed
  qed
  moreover have "nat p * nat c = nat (p * c)" using assms(1) by (simp add: nat_mult_distrib)
  with assms(3) have "nat p * nat c \<le> length xs" by simp
  ultimately have "(\<forall>n\<in>set [1..p]. \<forall>m\<in>{1..c - 1}. rev xs ! nat (p * m + n - 1) = rev xs ! nat (n - 1)) \<longleftrightarrow>
      ends_repeating xs (nat p) (nat c)"
    using ends_repeating_iff [of "nat p" "nat c" xs] assms(1,2) by simp
  moreover have "set [1..p] \<subseteq> {1..p}" by simp
  ultimately show ?thesis
    unfolding has_repeating_pattern_def by (simp only: repeats_all_eq [OF assms(1,3,2)])
qed

lemma repetition_scan_eq:
  assumes "2 \<le> c" and "sorted ps" and "\<forall>p\<in>set ps. 0 < p"
  shows "repetition_scan xs c ps = Inr (\<exists>p\<in>set ps. p * c \<le> int (length xs) \<and> ends_repeating xs (nat p) (nat c))"
  using assms(2,3)
proof (induction ps)
  case (Cons p ps)
  show ?case
  proof (cases "p * c \<le> int (length xs)")
    case True
    then show ?thesis using Cons assms(1) by (auto simp: has_repeating_pattern_eq)
  next
    case False
    have "\<not> q * c \<le> int (length xs)" if "q \<in> set (p # ps)" for q
    proof -
      have "p * c \<le> q * c" using Cons.prems(1) that assms(1) by (intro mult_right_mono) auto
      then show ?thesis using False by linarith
    qed
    moreover have "int (length xs) < p * c" using False by linarith
    ultimately show ?thesis by simp
  qed
qed simp

lemma ends_repeating_length: "ends_repeating xs p c \<Longrightarrow> p * c \<le> length xs"
  by (auto simp: ends_repeating_def mult.commute)

lemma check_sequence_repetition_total: "\<exists>b. check_sequence_repetition xs p = Inr b"
proof (cases "min_count p < 2")
  case False
  then have "\<exists>b. repetition_scan xs (min_count p) [mn..max_pattern_size p] = Inr b" if "0 < mn" for mn
    using repetition_scan_eq [of "min_count p" "[mn..max_pattern_size p]" xs] that by auto
  then show ?thesis unfolding check_sequence_repetition_def Let_def by (auto intro: exI [of _ False])
qed (auto simp: check_sequence_repetition_def intro: exI [of _ False])

section \<open>Properties\<close>

text \<open>C35. \<^verbatim>\<open>check_sequence_repetition\<close> never reads outside the token list, and says yes exactly when
  detection is enabled and the output ends in \<^verbatim>\<open>min_count\<close> copies of one pattern whose length
  lies between the configured bounds (a lower bound of zero or less meaning one). The early exit
  on the first pattern that is too long loses nothing.\<close>

theorem check_sequence_repetition_correct:
  "check_sequence_repetition xs p =
     Inr (2 \<le> min_count p \<and>
       (\<exists>n. max 1 (min_pattern_size p) \<le> n \<and> n \<le> max_pattern_size p \<and>
            ends_repeating xs (nat n) (nat (min_count p))))"
proof -
  define mn where "mn = (if min_pattern_size p \<le> 0 then 1 else min_pattern_size p)"
  have mn: "mn = max 1 (min_pattern_size p)" by (simp add: mn_def)
  show ?thesis
  proof (cases "max_pattern_size p \<le> 0 \<or> min_count p < 2 \<or> mn > max_pattern_size p")
    case True
    then show ?thesis unfolding check_sequence_repetition_def Let_def mn_def [symmetric] mn [symmetric]
      using mn by auto
  next
    case False
    then have "check_sequence_repetition xs p = repetition_scan xs (min_count p) [mn..max_pattern_size p]"
      by (simp add: check_sequence_repetition_def mn_def [symmetric])
    also have "\<dots> = Inr (\<exists>n\<in>set [mn..max_pattern_size p]. n * min_count p \<le> int (length xs) \<and>
        ends_repeating xs (nat n) (nat (min_count p)))"
      using False mn by (intro repetition_scan_eq) auto
    also have "(\<exists>n\<in>set [mn..max_pattern_size p]. n * min_count p \<le> int (length xs) \<and>
        ends_repeating xs (nat n) (nat (min_count p))) \<longleftrightarrow>
        2 \<le> min_count p \<and> (\<exists>n. mn \<le> n \<and> n \<le> max_pattern_size p \<and> ends_repeating xs (nat n) (nat (min_count p)))"
    proof -
      have "n * min_count p \<le> int (length xs)" if "mn \<le> n" "ends_repeating xs (nat n) (nat (min_count p))" for n
      proof -
        have "0 \<le> n" "0 \<le> min_count p" using that(1) mn False by auto
        then have "n * min_count p = int (nat n * nat (min_count p))" by simp
        also have "\<dots> \<le> int (length xs)" using ends_repeating_length [OF that(2)] by (rule of_nat_mono)
        finally show ?thesis .
      qed
      then show ?thesis using False by (auto simp: Bex_def)
    qed
    finally show ?thesis using mn by simp
  qed
qed

text \<open>C36. The stop check on a request that has produced at least one token never raises. It answers
  yes exactly when the minimum length is reached and the last token is the end-of-sequence or a
  stop token, a length cap is hit, or the output repeats. The status written tells which: a stop
  for one of the two token conditions, a length cap only when neither holds, a repetition only
  when nothing else does. The stop reason becomes the stop token when that token is not the
  end-of-sequence token, the repetition text for a repetition, and is kept otherwise. Every yes
  leaves a finished status with a finish reason, a no leaves the request unchanged, and nothing
  but the status and the stop reason is ever written.\<close>

theorem check_stop_correct:
  assumes "output_token_ids r \<noteq> []"
  shows "\<exists>b r'. check_stop max_model_len r = Inr (b, r') \<and>
    (b \<longleftrightarrow> min_tokens (samp r) \<le> num_output_tokens r \<and>
       (eos_token_id (samp r) = Some (last (output_token_ids r)) \<or>
        last (output_token_ids r) \<in> set (stop_token_ids (samp r)) \<or>
        max_model_len \<le> num_tokens r \<or> max_tokens r \<le> num_output_tokens r \<or>
        (\<exists>p. repetition_detection (samp r) = Some p \<and> check_sequence_repetition (output_token_ids r) p = Inr True))) \<and>
    (b \<and> status r' = FINISHED_STOPPED \<longleftrightarrow> min_tokens (samp r) \<le> num_output_tokens r \<and>
       (eos_token_id (samp r) = Some (last (output_token_ids r)) \<or>
        last (output_token_ids r) \<in> set (stop_token_ids (samp r)))) \<and>
    (b \<and> status r' = FINISHED_LENGTH_CAPPED \<longleftrightarrow> b \<and> status r' \<noteq> FINISHED_STOPPED \<and>
       (max_model_len \<le> num_tokens r \<or> max_tokens r \<le> num_output_tokens r)) \<and>
    (b \<and> status r' = FINISHED_REPETITION \<longleftrightarrow> b \<and> status r' \<notin> {FINISHED_STOPPED, FINISHED_LENGTH_CAPPED}) \<and>
    req_stop_reason r' =
      (if b \<and> status r' = FINISHED_STOPPED \<and> eos_token_id (samp r) \<noteq> Some (last (output_token_ids r))
       then Some (StopToken (last (output_token_ids r)))
       else if b \<and> status r' = FINISHED_REPETITION then Some (StopText ''repetition_detected'')
       else req_stop_reason r) \<and>
    (b \<longrightarrow> is_finished (status r') \<and> get_finished_reason (status r') \<noteq> None) \<and>
    (\<not> b \<longrightarrow> r' = r) \<and>
    r'\<lparr>status := status r, req_stop_reason := req_stop_reason r\<rparr> = r"
proof -
  have last: "from_end (output_token_ids r) 1 = Inr (last (output_token_ids r))"
    using assms by (cases "output_token_ids r" rule: rev_cases) (auto simp: from_end_def)
  obtain rep where rep: "check_sequence_repetition (output_token_ids r) p = Inr (rep p)" for p
    using check_sequence_repetition_total by metis
  show ?thesis
    using rep by (auto simp: check_stop_def last is_finished_def less_request_status_def split: option.split)
qed

definition sample_request :: request where
  "sample_request = (case Request None 1 ''a'' [5, 6] \<lparr>sp_max_tokens = 100, min_tokens = 0, eos_token_id = Some 2,
     stop_token_ids = [], repetition_detection = Some \<lparr>max_pattern_size = 3, min_pattern_size = 1, min_count = 2\<rparr>,
     sp_skip_reading_prefix_cache = None\<rparr> False 0 0 [] None False False None 0 False of Inr r \<Rightarrow>
       (case append_output_token_ids None [7, 8, 9, 8, 9] r of Inr r' \<Rightarrow> r'))"

theorem check_stop_correct_witness:
  "output_token_ids sample_request = [7, 8, 9, 8, 9] \<and>
   (\<exists>r'. check_stop 4096 sample_request = Inr (True, r') \<and> status r' = FINISHED_REPETITION \<and>
      req_stop_reason r' = Some (StopText ''repetition_detected''))"
proof -
  have out: "output_token_ids sample_request = [7, 8, 9, 8, 9]" by code_simp
  have "case_sum (\<lambda>_. False) (\<lambda>(b, r'). b \<and> status r' = FINISHED_REPETITION) (check_stop 4096 sample_request)" by code_simp
  moreover have "output_token_ids sample_request \<noteq> []" using out by simp
  from check_stop_correct [OF this, of 4096] obtain b r' where
    "check_stop 4096 sample_request = Inr (b, r')"
    "req_stop_reason r' = (if b \<and> status r' = FINISHED_STOPPED \<and> eos_token_id (samp sample_request) \<noteq> Some (last (output_token_ids sample_request))
       then Some (StopToken (last (output_token_ids sample_request)))
       else if b \<and> status r' = FINISHED_REPETITION then Some (StopText ''repetition_detected'')
       else req_stop_reason sample_request)" by blast
  ultimately show ?thesis using out by simp
qed

text \<open>\<^verbatim>\<open>remove_all\<close>, used on the running queue, equals the plain filter on a list without
  repetitions: the in-place fast path for a single item agrees with the general path.\<close>

theorem remove_all_eq_filter:
  assumes "distinct lst"
  shows "remove_all lst items = filter (\<lambda>x. x \<notin> set items) lst"
proof (cases items)
  case (Cons x xs)
  then show ?thesis
    using assms by (cases xs) (auto simp: remove_all_def distinct_remove1_removeAll removeAll_filter_not_eq intro: filter_cong)
qed (simp add: remove_all_def)

theorem remove_all_eq_filter_witness:
  "remove_all [3, 1, 2 :: int] [1] = [3, 2]"
proof -
  have "distinct [3, 1, 2 :: int]" by simp
  from remove_all_eq_filter [OF this, of "[1]"] show ?thesis by simp
qed

end
