(* ===== verification/Block_Hash.thy ===== *)
theory Block_Hash
  imports Request
begin

text \<open>
  \<^verbatim>\<open>vllm/v1/core/kv_cache_utils.py\<close>, block hashes: packing a hash with its group id, the extra
  keys of a block, the chained hash of the token blocks of a request, and the view that merges
  hashes to a larger block size. The hash function and the seed hash of the process are
  parameters, as is the digest of a slice of prompt embeddings. The lemmas show the round trip
  of packed keys, that incremental hashing computes the same chain as hashing from scratch, and
  that, as long as the hash function has no collision on the inputs hashed, equal block hashes
  mean equal token prefixes.
\<close>

unbundle bit_operations_syntax

section \<open>Packed keys\<close>

definition be4 :: "int \<Rightarrow> bytes" where
  "be4 n = [word_of_int (n div 2 ^ 24), word_of_int (n div 2 ^ 16), word_of_int (n div 2 ^ 8), word_of_int n]"

definition from_bytes :: "bytes \<Rightarrow> int" where
  "from_bytes bs = foldl (\<lambda>n b. n * 256 + uint b) 0 bs"

definition make_block_hash_with_group_id :: "bytes \<Rightarrow> int \<Rightarrow> bytes res" where
  "make_block_hash_with_group_id h group_id =
     (if 0 \<le> group_id \<and> group_id < 2 ^ 32 then Inr (h @ be4 group_id) else Inl OverflowError)"

definition get_block_hash :: "bytes \<Rightarrow> bytes" where
  "get_block_hash key = take (length key - 4) key"

definition get_group_id :: "bytes \<Rightarrow> int" where
  "get_group_id key = from_bytes (drop (length key - 4) key)"

datatype external_hash = ExtBytes bytes | ExtInt int

definition maybe_convert_block_hash :: "bool \<Rightarrow> bytes \<Rightarrow> external_hash" where
  "maybe_convert_block_hash use_int h =
     (if \<not> use_int then ExtBytes h else ExtInt (from_bytes h AND (push_bit 64 1 - 1)))"

section \<open>Extra keys\<close>

datatype extra_key = KStr string | KBytes bytes

type_synonym extra_keys = "extra_key list option"

definition need_extra_keys :: "request \<Rightarrow> bool" where
  "need_extra_keys r \<longleftrightarrow> mm_features r \<noteq> [] \<or> lora_req r \<noteq> None \<or> cache_salt r \<noteq> None"

text \<open>The loop of \<^verbatim>\<open>_gen_mm_extra_hash_keys\<close> over the features from the current index on; it returns
  the keys and the index reached.\<close>

fun mm_loop :: "int \<Rightarrow> int \<Rightarrow> int \<Rightarrow> mm_feature list \<Rightarrow> (extra_key list \<times> int) res" where
  "mm_loop start_tok end_tok cur [] = Inr ([], cur)"
| "mm_loop start_tok end_tok cur (f # fs) =
     (case mm_identifier f of
        None \<Rightarrow> Inl AssertionError
      | Some ident \<Rightarrow>
          if end_tok > mm_offset f
          then if start_tok > mm_offset f + mm_length f
               then mm_loop start_tok end_tok (cur + 1) fs
               else if end_tok \<ge> mm_offset f + mm_length f
               then rbind (mm_loop start_tok end_tok (cur + 1) fs)
                      (\<lambda>(keys, i). Inr (KStr ident # keys, i))
               else Inr ([KStr ident], cur)
          else Inr ([], cur))"

definition gen_mm_extra_hash_keys :: "request \<Rightarrow> int \<Rightarrow> int \<Rightarrow> int \<Rightarrow> (extra_key list \<times> int) res" where
  "gen_mm_extra_hash_keys r start_tok end_tok start_mm_idx =
     (let feats = mm_features r
      in if feats = [] then Inr ([], start_mm_idx)
         else if mm_offset (last feats) + mm_length (last feats) < start_tok then Inr ([], start_mm_idx)
         else rassert (start_mm_idx < 0 \<longrightarrow> - start_mm_idx \<le> int (length feats))
           (let idx = (if start_mm_idx < 0 then int (length feats) + start_mm_idx else start_mm_idx)
            in mm_loop start_tok end_tok idx (drop (nat idx) feats)))"

definition gen_lora_extra_hash_keys :: "request \<Rightarrow> extra_key list" where
  "gen_lora_extra_hash_keys r = (case lora_req r of None \<Rightarrow> [] | Some l \<Rightarrow> [KStr (lora_name l)])"

type_synonym embeds_digest = "request \<Rightarrow> int \<Rightarrow> int \<Rightarrow> bytes"

definition gen_prompt_embeds_extra_hash_keys :: "embeds_digest \<Rightarrow> request \<Rightarrow> int \<Rightarrow> int \<Rightarrow> extra_key list" where
  "gen_prompt_embeds_extra_hash_keys digest r start_tok end_tok =
     (if \<not> has_prompt_embeds r then [] else [KBytes (digest r start_tok end_tok)])"

definition generate_block_hash_extra_keys ::
  "embeds_digest \<Rightarrow> request \<Rightarrow> int \<Rightarrow> int \<Rightarrow> int \<Rightarrow> (extra_keys \<times> int) res" where
  "generate_block_hash_extra_keys digest r start_tok end_tok start_mm_idx =
     rbind (gen_mm_extra_hash_keys r start_tok end_tok start_mm_idx) (\<lambda>(mm_keys, new_idx).
       let salt_keys = (case cache_salt r of
              Some s \<Rightarrow> if start_tok = 0 \<and> s \<noteq> [] then [KStr s] else []
            | None \<Rightarrow> []);
           keys = gen_lora_extra_hash_keys r @ mm_keys @ salt_keys
                  @ gen_prompt_embeds_extra_hash_keys digest r start_tok end_tok
       in if keys = [] then Inr (None, new_idx) else Inr (Some keys, new_idx))"

section \<open>Block hashes of a request\<close>

type_synonym hash_input = "bytes \<times> int list \<times> extra_keys"
type_synonym hash_fn = "hash_input \<Rightarrow> bytes"

definition hash_block_tokens :: "bytes \<Rightarrow> hash_fn \<Rightarrow> bytes option \<Rightarrow> int list \<Rightarrow> extra_keys \<Rightarrow> bytes" where
  "hash_block_tokens NONE_HASH hf parent toks keys =
     (let p = (case parent of None \<Rightarrow> NONE_HASH | Some h \<Rightarrow> if h = [] then NONE_HASH else h)
      in hf (p, toks, keys))"

text \<open>\<^verbatim>\<open>all_token_ids[start:end]\<close> for non-negative bounds.\<close>

definition tok_slice :: "request \<Rightarrow> int \<Rightarrow> int \<Rightarrow> int list" where
  "tok_slice r s e = take (nat e - nat s) (drop (nat s) (all_token_ids r))"

text \<open>The loop of \<^verbatim>\<open>request_block_hasher\<close>. For a block size that is not positive the loop of the
  source never ends, which is the outer \<open>None\<close>.\<close>

partial_function (option) hash_loop ::
  "bytes \<Rightarrow> hash_fn \<Rightarrow> embeds_digest \<Rightarrow> int \<Rightarrow> request \<Rightarrow> int \<Rightarrow> int \<Rightarrow> bytes option \<Rightarrow> bytes list \<Rightarrow>
   bytes list res option" where
  "hash_loop NONE_HASH hf digest block_size r start_tok mm_idx prev acc =
     (let end_tok = start_tok + block_size
      in if end_tok > num_tokens r then Some (Inr acc)
         else (case generate_block_hash_extra_keys digest r start_tok end_tok mm_idx of
             Inl e \<Rightarrow> Some (Inl e)
           | Inr (keys, mm_idx') \<Rightarrow>
               (let h = hash_block_tokens NONE_HASH hf prev (tok_slice r start_tok end_tok) keys
                in hash_loop NONE_HASH hf digest block_size r (start_tok + block_size) mm_idx' (Some h) (acc @ [h]))))"

definition request_block_hasher ::
  "bytes \<Rightarrow> hash_fn \<Rightarrow> embeds_digest \<Rightarrow> int \<Rightarrow> request \<Rightarrow> bytes list res option" where
  "request_block_hasher NONE_HASH hf digest block_size r =
     (let start_tok = int (length (block_hashes r)) * block_size
      in if start_tok + block_size > num_tokens r then Some (Inr [])
         else hash_loop NONE_HASH hf digest block_size r start_tok
                (if start_tok > 0 then - 1 else 0)
                (if block_hashes r = [] then None else Some (last (block_hashes r))) [])"

text \<open>The closure handed to a request, for a block size with which its loop returns.\<close>

definition get_request_block_hasher :: "bytes \<Rightarrow> hash_fn \<Rightarrow> embeds_digest \<Rightarrow> int \<Rightarrow> block_hasher" where
  "get_request_block_hasher NONE_HASH hf digest block_size =
     Some (\<lambda>r. the (request_block_hasher NONE_HASH hf digest block_size r))"

section \<open>Merged hashes\<close>

record hash_view =
  hv_block_hashes :: "bytes list"
  scale_factor :: int

definition BlockHashListWithBlockSize :: "bytes list \<Rightarrow> int \<Rightarrow> int \<Rightarrow> hash_view res" where
  "BlockHashListWithBlockSize hs hash_block_size target_block_size =
     (if hash_block_size = 0 then Inl ZeroDivisionError
      else rassert (target_block_size mod hash_block_size = 0)
        (Inr \<lparr>hv_block_hashes = hs, scale_factor = target_block_size div hash_block_size\<rparr>))"

definition hv_len :: "hash_view \<Rightarrow> int res" where
  "hv_len v = (if scale_factor v = 0 then Inl ZeroDivisionError
               else Inr (int (length (hv_block_hashes v)) div scale_factor v))"

definition hv_get_value_at :: "hash_view \<Rightarrow> int \<Rightarrow> bytes res" where
  "hv_get_value_at v idx =
     (let base = idx * scale_factor v; last_idx = base + scale_factor v
      in rbind (py_index (hv_block_hashes v) base) (\<lambda>h.
         rbind (rmap (py_index (hv_block_hashes v)) [base + 1..last_idx - 1]) (\<lambda>hs.
         Inr (h @ concat hs))))"

text \<open>\<^verbatim>\<open>range(*slice(a, b, k).indices(n))\<close> as a list; a bound or a step that is left out is \<open>None\<close>.\<close>

definition slice_indices :: "int option \<Rightarrow> int option \<Rightarrow> int option \<Rightarrow> int \<Rightarrow> int list res" where
  "slice_indices a b step n =
     (let k = (case step of None \<Rightarrow> 1 | Some s \<Rightarrow> s);
          lower = (if k < 0 then - 1 else 0);
          upper = (if k < 0 then n - 1 else n);
          bound = (\<lambda>x d. case x of None \<Rightarrow> d | Some i \<Rightarrow> if i < 0 then max lower (i + n) else min upper i);
          start = bound a (if k < 0 then upper else lower);
          stop = bound b (if k < 0 then lower else upper)
      in if k = 0 then Inl ValueError
         else Inr (map (\<lambda>i. start + int i * k)
                [0..<nat (if k > 0 then cdiv (stop - start) k else cdiv (start - stop) (- k))]))"

text \<open>\<^verbatim>\<open>view[a:b:step]\<close> and \<^verbatim>\<open>view[start:]\<close>.\<close>

definition hv_slice :: "hash_view \<Rightarrow> int option \<Rightarrow> int option \<Rightarrow> int option \<Rightarrow> bytes list res" where
  "hv_slice v a b step =
     rbind (hv_len v) (\<lambda>n. rbind (slice_indices a b step n) (rmap (hv_get_value_at v)))"

definition hv_from :: "hash_view \<Rightarrow> int \<Rightarrow> bytes list res" where
  "hv_from v start = hv_slice v (Some start) None None"

section \<open>Packing\<close>

lemma from_bytes_be4:
  assumes "0 \<le> n" and "n < 2 ^ 32"
  shows "from_bytes (be4 n) = n"
proof -
  define q1 q2 q3 where "q1 = n div 256" and "q2 = q1 div 256" and "q3 = q2 div 256"
  have n: "n = 256 * q1 + n mod 256" "q1 = 256 * q2 + q1 mod 256" "q2 = 256 * q3 + q2 mod 256"
    by (simp_all add: q1_def q2_def q3_def)
  have q: "n div 2 ^ 16 = q2" "n div 2 ^ 24 = q3"
    using zdiv_zmult2_eq [of 256 n 256] zdiv_zmult2_eq [of 256 n 65536] zdiv_zmult2_eq [of 256 q1 256]
    by (simp_all add: q1_def q2_def q3_def)
  have q': "n div 65536 = q2" "n div 16777216 = q3" using q by simp_all
  then have "n = 16777216 * q3 + n mod 16777216" by (metis mult_div_mod_eq)
  moreover have "0 \<le> n mod 16777216" "n mod 16777216 < 16777216" by simp_all
  moreover have "n < 4294967296" using assms(2) by simp
  ultimately have "0 \<le> q3 \<and> q3 < 256" using assms(1) by (intro conjI) linarith+
  then have q3: "q3 mod 256 = q3" by simp
  have "from_bytes (be4 n) = ((q3 mod 256 * 256 + q2 mod 256) * 256 + q1 mod 256) * 256 + n mod 256"
    by (simp add: from_bytes_def be4_def uint_word_of_int q' q1_def)
  also have "\<dots> = n"
  proof -
    have "q3 * 256 + q2 mod 256 = q2" "q2 * 256 + q1 mod 256 = q1" "q1 * 256 + n mod 256 = n"
      by (simp_all add: q1_def q2_def q3_def)
    then show ?thesis by (simp only: q3)
  qed
  finally show ?thesis .
qed

lemma length_be4 [simp]: "length (be4 n) = 4"
  by (simp add: be4_def)

lemma unpack:
  assumes "make_block_hash_with_group_id h g = Inr k"
  shows "get_block_hash k = h" and "get_group_id k = g"
  using assms from_bytes_be4 [of g]
  by (auto simp: make_block_hash_with_group_id_def get_block_hash_def get_group_id_def split: if_splits)

lemma pack_inj:
  "make_block_hash_with_group_id h g = Inr k \<Longrightarrow> make_block_hash_with_group_id h' g' = Inr k \<Longrightarrow> h = h' \<and> g = g'"
  using unpack by metis

section \<open>The chain\<close>

definition block_keys :: "string option \<Rightarrow> nat \<Rightarrow> extra_keys" where
  "block_keys salt n = (case salt of Some s \<Rightarrow> if n = 0 \<and> s \<noteq> [] then Some [KStr s] else None | None \<Rightarrow> None)"

definition block_toks :: "nat \<Rightarrow> int list \<Rightarrow> nat \<Rightarrow> int list" where
  "block_toks bs toks n = take bs (drop (n * bs) toks)"

text \<open>The hash of block \<open>n\<close>, computed from the first block on.\<close>

primrec block_hash_at :: "bytes \<Rightarrow> hash_fn \<Rightarrow> nat \<Rightarrow> string option \<Rightarrow> int list \<Rightarrow> nat \<Rightarrow> bytes" where
  "block_hash_at NH hf bs salt toks 0 = hf (NH, block_toks bs toks 0, block_keys salt 0)"
| "block_hash_at NH hf bs salt toks (Suc n) =
     (let h = block_hash_at NH hf bs salt toks n
      in hf (if h = [] then NH else h, block_toks bs toks (Suc n), block_keys salt (Suc n)))"

definition block_chain :: "bytes \<Rightarrow> hash_fn \<Rightarrow> nat \<Rightarrow> string option \<Rightarrow> int list \<Rightarrow> bytes list" where
  "block_chain NH hf bs salt toks = map (block_hash_at NH hf bs salt toks) [0..<length toks div bs]"

definition text_request :: "request \<Rightarrow> bool" where
  "text_request r \<longleftrightarrow> mm_features r = [] \<and> lora_req r = None \<and> \<not> has_prompt_embeds r"

lemma extra_keys_text:
  assumes "text_request r" and "0 < bs"
  shows "generate_block_hash_extra_keys digest r (int (n * bs)) (int (n * bs) + int bs) i =
    Inr (block_keys (cache_salt r) n, i)"
  using assms by (auto simp: text_request_def generate_block_hash_extra_keys_def gen_mm_extra_hash_keys_def
      gen_lora_extra_hash_keys_def gen_prompt_embeds_extra_hash_keys_def block_keys_def split: option.split)

lemma hash_loop_chain:
  fixes NH hf
  assumes plain: "text_request r" and bs: "0 < bs"
  defines "toks \<equiv> all_token_ids r" and "B \<equiv> block_hash_at NH hf bs (cache_salt r) (all_token_ids r)"
  assumes k: "k \<le> length toks div bs"
  shows "hash_loop NH hf digest (int bs) r (int (k * bs)) i (if k = 0 then None else Some (B (k - 1))) acc =
    Some (Inr (acc @ map B [k..<length toks div bs]))"
  using k
proof (induction "length toks div bs - k" arbitrary: k i acc)
  case 0
  then have "k = length toks div bs" by simp
  then have "length toks < (k + 1) * bs" using bs by (simp add: dividend_less_div_times)
  then have "int (length toks) < int ((k + 1) * bs)" by (simp only: of_nat_less_iff)
  then have "int (k * bs) + int bs > num_tokens r" by (simp add: num_tokens_def toks_def [symmetric] algebra_simps)
  then show ?case using \<open>k = _\<close> by (simp add: hash_loop.simps)
next
  case (Suc d)
  then have k: "k < length toks div bs" by simp
  then have "(k + 1) * bs \<le> length toks" using bs by (metis Suc_eq_plus1 Suc_leI less_eq_div_iff_mult_less_eq)
  then have "int ((k + 1) * bs) \<le> int (length toks)" by (simp only: of_nat_le_iff)
  then have le: "\<not> int (k * bs) + int bs > num_tokens r" by (simp add: num_tokens_def toks_def [symmetric] algebra_simps)
  have slice: "tok_slice r (int (k * bs)) (int (k * bs) + int bs) = block_toks bs toks k"
    unfolding tok_slice_def block_toks_def toks_def nat_int by (simp add: nat_add_distrib nat_mult_distrib)
  have h: "hash_block_tokens NH hf (if k = 0 then None else Some (B (k - 1))) (block_toks bs toks k)
      (block_keys (cache_salt r) k) = B k"
    by (cases k) (simp_all add: hash_block_tokens_def B_def toks_def Let_def)
  have step: "int (Suc k * bs) = int (k * bs) + int bs" by simp
  have "hash_loop NH hf digest (int bs) r (int (k * bs)) i (if k = 0 then None else Some (B (k - 1))) acc =
      hash_loop NH hf digest (int bs) r (int (Suc k * bs)) i (Some (B k)) (acc @ [B k])"
    by (subst hash_loop.simps)
      (simp only: Let_def extra_keys_text [OF plain bs] sum.case prod.case slice h le if_False step)
  also have "\<dots> = Some (Inr ((acc @ [B k]) @ map B [Suc k..<length toks div bs]))"
    using Suc.hyps(1) [of "Suc k" i "acc @ [B k]"] Suc.hyps(2) k by simp
  also have "(acc @ [B k]) @ map B [Suc k..<length toks div bs] = acc @ map B [k..<length toks div bs]"
    using k by (simp add: upt_conv_Cons)
  finally show ?case .
qed

lemma block_toks_prefix: "(n + 1) * bs \<le> length xs \<Longrightarrow> block_toks bs (xs @ ys) n = block_toks bs xs n"
  by (simp add: block_toks_def)

lemma block_hash_at_prefix:
  "(n + 1) * bs \<le> length xs \<Longrightarrow> block_hash_at NH hf bs salt (xs @ ys) n = block_hash_at NH hf bs salt xs n"
proof (induction n)
  case (Suc n)
  then have "(n + 1) * bs \<le> length xs" by simp
  then show ?case using Suc block_toks_prefix [of "Suc n" bs xs ys] by (simp add: Let_def)
qed (use block_toks_prefix [of 0 bs xs ys] in simp)

text \<open>A request whose stored hashes are the chain of a prefix of its tokens catches up.\<close>

lemma hasher_catches_up:
  assumes plain: "text_request r" and bs: "0 < bs" and toks: "all_token_ids r = xs @ ys"
    and hashes: "block_hashes r = block_chain NH hf bs (cache_salt r) xs"
  shows "request_block_hasher NH hf digest (int bs) r = Some (Inr (drop (length xs div bs)
    (block_chain NH hf bs (cache_salt r) (xs @ ys))))"
    and "block_hashes r @ drop (length xs div bs) (block_chain NH hf bs (cache_salt r) (xs @ ys)) =
      block_chain NH hf bs (cache_salt r) (xs @ ys)"
proof -
  let ?B = "block_hash_at NH hf bs (cache_salt r) (xs @ ys)" and ?k = "length xs div bs"
  let ?N = "length (xs @ ys) div bs"
  have kN: "?k \<le> ?N" by (simp add: div_le_mono)
  have B: "block_hash_at NH hf bs (cache_salt r) xs n = ?B n" if "n < ?k" for n
  proof -
    have "(n + 1) * bs \<le> ?k * bs" using that by (intro mult_le_mono1) simp
    also have "\<dots> \<le> length xs" by simp
    finally show ?thesis by (simp add: block_hash_at_prefix)
  qed
  then have hs: "block_hashes r = map ?B [0..<?k]" by (simp add: hashes block_chain_def)
  have "drop ?k (block_chain NH hf bs (cache_salt r) (xs @ ys)) = map ?B [?k..<?N]"
    by (simp add: block_chain_def drop_map)
  moreover have "[0..<?N] = [0..<?k] @ [?k..<?N]" using kN by (metis le0 upt_add_eq_append le_add_diff_inverse)
  ultimately show "block_hashes r @ drop ?k (block_chain NH hf bs (cache_salt r) (xs @ ys)) =
      block_chain NH hf bs (cache_salt r) (xs @ ys)"
    by (simp add: hs block_chain_def drop_map)
  have start: "int (length (block_hashes r)) * int bs = int (?k * bs)" by (simp add: hs)
  have prev: "(if block_hashes r = [] then None else Some (last (block_hashes r))) =
      (if ?k = 0 then None else Some (?B (?k - 1)))"
    by (simp add: hs last_map)
  show "request_block_hasher NH hf digest (int bs) r = Some (Inr (drop ?k
    (block_chain NH hf bs (cache_salt r) (xs @ ys))))"
  proof (cases "int (?k * bs) + int bs > num_tokens r")
    case True
    then have "int (length (xs @ ys)) < int ((?k + 1) * bs)" using toks by (simp add: num_tokens_def algebra_simps)
    then have "length (xs @ ys) < (?k + 1) * bs" by (simp only: of_nat_less_iff)
    then have "?N < ?k + 1" using bs by (simp only: div_less_iff_less_mult)
    then have "?N \<le> ?k" by simp
    then show ?thesis using True by (simp add: request_block_hasher_def start block_chain_def)
  next
    case False
    have "request_block_hasher NH hf digest (int bs) r = Some (Inr ([] @ map ?B [?k..<?N]))"
      using False kN hash_loop_chain [OF plain bs, of ?k NH hf digest, unfolded toks]
      unfolding request_block_hasher_def Let_def start prev by auto
    then show ?thesis by (simp add: block_chain_def drop_map)
  qed
qed

lemma update_catches_up:
  assumes plain: "text_request r" and bs: "0 < bs" and toks: "all_token_ids r = xs @ ys"
    and hashes: "block_hashes r = block_chain NH hf bs (cache_salt r) xs"
  shows "update_block_hashes (get_request_block_hasher NH hf digest (int bs)) r =
    Inr (r\<lparr>block_hashes := block_chain NH hf bs (cache_salt r) (all_token_ids r)\<rparr>)"
  using hasher_catches_up [OF assms] toks by (simp add: update_block_hashes_def get_request_block_hasher_def)

definition hashed_request :: "bytes \<Rightarrow> hash_fn \<Rightarrow> nat \<Rightarrow> request \<Rightarrow> bool" where
  "hashed_request NH hf bs r \<longleftrightarrow> text_request r \<and>
     block_hashes r = block_chain NH hf bs (cache_salt r) (all_token_ids r)"

lemma append_hashed:
  assumes "hashed_request NH hf bs r" and "0 < bs"
  shows "append_output_token_ids (get_request_block_hasher NH hf digest (int bs)) ts r =
    Inr (r\<lparr>output_token_ids := output_token_ids r @ ts, all_token_ids := all_token_ids r @ ts,
          block_hashes := block_chain NH hf bs (cache_salt r) (all_token_ids r @ ts)\<rparr>)"
  using assms update_catches_up [of "r\<lparr>output_token_ids := output_token_ids r @ ts, all_token_ids := all_token_ids r @ ts\<rparr>"
      bs "all_token_ids r" ts NH hf digest]
  by (simp add: append_output_token_ids_def hashed_request_def text_request_def)

lemma rfold_append_hashed:
  assumes "hashed_request NH hf bs r" and "0 < bs"
  shows "rfold (append_output_token_ids (get_request_block_hasher NH hf digest (int bs))) tss r =
    Inr (r\<lparr>output_token_ids := output_token_ids r @ concat tss, all_token_ids := all_token_ids r @ concat tss,
          block_hashes := block_chain NH hf bs (cache_salt r) (all_token_ids r @ concat tss)\<rparr>)"
  using assms(1)
proof (induction tss arbitrary: r)
  case Nil
  then have "block_hashes r = block_chain NH hf bs (cache_salt r) (all_token_ids r)"
    by (simp add: hashed_request_def)
  then show ?case by simp
next
  case (Cons ts tss)
  let ?r = "r\<lparr>output_token_ids := output_token_ids r @ ts, all_token_ids := all_token_ids r @ ts,
          block_hashes := block_chain NH hf bs (cache_salt r) (all_token_ids r @ ts)\<rparr>"
  have "hashed_request NH hf bs ?r" using Cons.prems by (simp add: hashed_request_def text_request_def)
  from Cons.IH [OF this] show ?case by (simp add: append_hashed [OF Cons.prems assms(2)])
qed

text \<open>The hashing at construction and every append leave the stored hashes equal to the chain.\<close>

lemma lifetime_hashed:
  assumes "0 < bs" and "text_request r" and "block_hashes r = []"
    and "update_block_hashes (get_request_block_hasher NH hf digest (int bs)) r = Inr r1"
    and "rfold (append_output_token_ids (get_request_block_hasher NH hf digest (int bs))) tss r1 = Inr q"
  shows "hashed_request NH hf bs q"
proof -
  have "r1 = r\<lparr>block_hashes := block_chain NH hf bs (cache_salt r) (all_token_ids r)\<rparr>"
    using update_catches_up [OF assms(2,1), of "[]" "all_token_ids r" NH hf digest] assms(3,4) by (simp add: block_chain_def)
  then have "hashed_request NH hf bs r1" using assms(2) by (simp add: hashed_request_def text_request_def)
  with rfold_append_hashed [OF this assms(1), of digest tss] assms(5) show ?thesis
    by (auto simp: hashed_request_def text_request_def)
qed

section \<open>Collision freedom\<close>

text \<open>The inputs the hash function is applied to for the first \<open>n + 1\<close> blocks.\<close>

definition chain_input :: "bytes \<Rightarrow> hash_fn \<Rightarrow> nat \<Rightarrow> string option \<Rightarrow> int list \<Rightarrow> nat \<Rightarrow> hash_input" where
  "chain_input NH hf bs salt toks n =
     (case n of 0 \<Rightarrow> NH
      | Suc m \<Rightarrow> (let h = block_hash_at NH hf bs salt toks m in if h = [] then NH else h),
      block_toks bs toks n, block_keys salt n)"

lemma block_hash_at_input: "block_hash_at NH hf bs salt toks n = hf (chain_input NH hf bs salt toks n)"
  by (cases n) (simp_all add: chain_input_def Let_def)

definition chain_inputs :: "bytes \<Rightarrow> hash_fn \<Rightarrow> nat \<Rightarrow> string option \<Rightarrow> int list \<Rightarrow> hash_input list" where
  "chain_inputs NH hf bs salt toks = map (chain_input NH hf bs salt toks) [0..<length toks div bs]"

definition collision_free :: "bytes \<Rightarrow> hash_fn \<Rightarrow> hash_input list \<Rightarrow> bool" where
  "collision_free NH hf inputs \<longleftrightarrow>
     (\<forall>x\<in>set inputs. hf x \<noteq> NH \<and> hf x \<noteq> [] \<and> (\<forall>y\<in>set inputs. hf x = hf y \<longrightarrow> x = y))"

lemma equal_hash_equal_prefix:
  assumes cf: "collision_free NH hf (chain_inputs NH hf bs s xs @ chain_inputs NH hf bs t ys)"
    and "i < length xs div bs" and "j < length ys div bs"
    and "block_hash_at NH hf bs s xs i = block_hash_at NH hf bs t ys j"
  shows "i = j \<and> take ((i + 1) * bs) xs = take ((j + 1) * bs) ys \<and> block_keys s 0 = block_keys t 0"
  using assms(2-)
proof (induction i arbitrary: j)
  case (0 j)
  have mem: "chain_input NH hf bs s xs 0 \<in> set (chain_inputs NH hf bs s xs)"
    "chain_input NH hf bs t ys j \<in> set (chain_inputs NH hf bs t ys)"
    using 0 by (auto simp: chain_inputs_def)
  then have eq: "chain_input NH hf bs s xs 0 = chain_input NH hf bs t ys j"
    using cf 0(3) unfolding collision_free_def block_hash_at_input by (metis UnCI set_append)
  have "j = 0"
  proof (cases j)
    case (Suc m)
    then have m: "chain_input NH hf bs t ys m \<in> set (chain_inputs NH hf bs t ys)" using 0 by (auto simp: chain_inputs_def)
    then have "block_hash_at NH hf bs t ys m \<noteq> NH" "block_hash_at NH hf bs t ys m \<noteq> []"
      using cf unfolding collision_free_def block_hash_at_input by auto
    then show ?thesis using eq Suc by (simp add: chain_input_def Let_def)
  qed
  then show ?case using eq by (simp add: chain_input_def block_toks_def)
next
  case (Suc i j)
  have mem: "chain_input NH hf bs s xs (Suc i) \<in> set (chain_inputs NH hf bs s xs)"
    "chain_input NH hf bs t ys j \<in> set (chain_inputs NH hf bs t ys)"
    "chain_input NH hf bs s xs i \<in> set (chain_inputs NH hf bs s xs)"
    using Suc.prems by (auto simp: chain_inputs_def)
  then have eq: "chain_input NH hf bs s xs (Suc i) = chain_input NH hf bs t ys j"
    using cf Suc.prems(3) unfolding collision_free_def block_hash_at_input by (metis UnCI set_append)
  have hi: "block_hash_at NH hf bs s xs i \<noteq> NH" "block_hash_at NH hf bs s xs i \<noteq> []"
    using mem(3) cf unfolding collision_free_def block_hash_at_input by auto
  then obtain m where m: "j = Suc m" using eq by (cases j) (auto simp: chain_input_def Let_def)
  then have "chain_input NH hf bs t ys m \<in> set (chain_inputs NH hf bs t ys)"
    using Suc.prems by (auto simp: chain_inputs_def)
  then have "block_hash_at NH hf bs t ys m \<noteq> []" using cf unfolding collision_free_def block_hash_at_input by auto
  then have "block_hash_at NH hf bs s xs i = block_hash_at NH hf bs t ys m"
    and toks: "block_toks bs xs (Suc i) = block_toks bs ys (Suc m)"
    using eq m hi by (simp_all add: chain_input_def Let_def)
  then have IH: "i = m \<and> take ((i + 1) * bs) xs = take ((m + 1) * bs) ys \<and> block_keys s 0 = block_keys t 0"
    using Suc.prems m by (intro Suc.IH) auto
  have split: "take ((Suc n + 1) * bs) zs = take ((n + 1) * bs) zs @ block_toks bs zs (Suc n)" for n and zs :: "int list"
    using take_add [of "(n + 1) * bs" bs zs] by (simp add: block_toks_def add.commute)
  from IH have "i = m" by simp
  with IH toks show ?case unfolding m \<open>i = m\<close> split by simp
qed

section \<open>Merged views\<close>

lemma hv_get_value_at_eq:
  assumes f: "0 < f" and idx: "0 \<le> idx" "(idx + 1) * int f \<le> int (length hs)"
  shows "hv_get_value_at \<lparr>hv_block_hashes = hs, scale_factor = int f\<rparr> idx =
    Inr (concat (take f (drop (nat idx * f) hs)))"
proof -
  define base where "base = nat idx * f"
  have b: "idx * int f = int base" using idx(1) by (simp add: base_def)
  have len: "base + f \<le> length hs" using idx(2) b by (simp add: distrib_right)
  have "rmap (py_index hs) [int base + 1..int base + int f - 1] =
      Inr (map (\<lambda>i. hs ! nat i) [int base + 1..int base + int f - 1])"
    using len by (intro rmap_map py_index_nth) auto
  moreover have "map (\<lambda>i. hs ! nat i) [int base + 1..int base + int f - 1] = take (f - 1) (drop (Suc base) hs)"
  proof -
    have "[int base + 1..int base + int f - 1] = map int [Suc base..<base + f]"
      using upto_map_int [of "Suc base" "base + f"] by (simp add: add.commute)
    then show ?thesis using len f by (simp add: o_def) (rule nth_equalityI; simp)
  qed
  moreover have "py_index hs (int base) = Inr (hs ! base)" using len f by (simp add: py_index_nth)
  moreover have "take f (drop base hs) = hs ! base # take (f - 1) (drop (Suc base) hs)"
    using len f by (cases f) (auto simp: Cons_nth_drop_Suc [symmetric])
  ultimately show ?thesis by (simp add: hv_get_value_at_def Let_def b base_def [symmetric])
qed

lemma slice_indices_range:
  assumes "slice_indices a b step n = Inr is" and "0 \<le> n" and "x \<in> set is"
  shows "0 \<le> x \<and> x < n"
proof -
  define k where "k = (case step of None \<Rightarrow> 1 | Some s \<Rightarrow> s)"
  define lower upper where "lower = (if k < 0 then - 1 else 0 :: int)" and "upper = (if k < 0 then n - 1 else n)"
  define bound where
    "bound x d = (case x of None \<Rightarrow> d | Some i \<Rightarrow> if i < 0 then max lower (i + n) else min upper i)" for x d
  define start where "start = bound a (if k < 0 then upper else lower)"
  define stop where "stop = bound b (if k < 0 then lower else upper)"
  have range: "lower \<le> bound y d \<and> bound y d \<le> upper" if "lower \<le> d" "d \<le> upper" for y d
    using that assms(2) by (auto simp: bound_def lower_def upper_def split: option.split)
  have lu: "lower \<le> upper" using assms(2) by (simp add: lower_def upper_def)
  have st: "lower \<le> start" "start \<le> upper" "lower \<le> stop" "stop \<le> upper"
    using range lu by (simp_all add: start_def stop_def)
  have "k \<noteq> 0 \<and> (\<exists>i. x = start + int i * k \<and> int i < (if k > 0 then cdiv (stop - start) k else cdiv (start - stop) (- k)))"
    using assms(1,3) unfolding slice_indices_def k_def [symmetric] Let_def lower_def [symmetric] upper_def [symmetric]
      bound_def [symmetric] start_def [symmetric] stop_def [symmetric] by (auto split: if_splits)
  then obtain i where k: "k \<noteq> 0" and x: "x = start + int i * k"
    and i: "int i < (if k > 0 then cdiv (stop - start) k else cdiv (start - stop) (- k))" by blast
  show ?thesis
  proof (cases "k > 0")
    case True
    then have "int i * k < stop - start" using i cdiv_le_iff [of k "stop - start" "int i"] by (simp add: not_le [symmetric])
    moreover have "0 \<le> int i * k" using True by simp
    ultimately show ?thesis using st True by (simp add: x lower_def upper_def)
  next
    case False
    then have "0 < - k" using k by simp
    then have "int i * (- k) < start - stop" using i False cdiv_le_iff [of "- k" "start - stop" "int i"] by (simp add: not_le [symmetric])
    moreover have "int i * k \<le> 0" using False by (simp add: mult_nonneg_nonpos)
    ultimately show ?thesis using st False k by (simp add: x lower_def upper_def)
  qed
qed

lemma slice_indices_from: "slice_indices (Some (int k)) None None (int n) = Inr (map int [k..<n])"
proof (cases "k \<le> n")
  case True
  have "map (\<lambda>i. int k + int i) [0..<n - k] = map int [k..<n]" by (rule nth_equalityI) auto
  then show ?thesis using True by (simp add: slice_indices_def cdiv_def nat_diff_distrib)
qed (simp add: slice_indices_def cdiv_def)

lemma hash_view_spec:
  assumes "0 < hb" and "0 < f"
  shows "\<exists>v. BlockHashListWithBlockSize hs (int hb) (int (f * hb)) = Inr v \<and>
    hv_len v = Inr (int (length hs div f)) \<and>
    (\<forall>i<length hs div f. hv_get_value_at v (int i) = Inr (concat (take f (drop (i * f) hs)))) \<and>
    (\<forall>k. hv_from v (int k) = Inr (map (\<lambda>i. concat (take f (drop (i * f) hs))) [k..<length hs div f])) \<and>
    (\<forall>a b step. hv_slice v a b step = rbind (slice_indices a b step (int (length hs div f)))
       (\<lambda>is. Inr (map (\<lambda>i. concat (take f (drop (nat i * f) hs))) is)))"
proof -
  let ?v = "\<lparr>hv_block_hashes = hs, scale_factor = int f\<rparr>" and ?n = "length hs div f"
  have v: "BlockHashListWithBlockSize hs (int hb) (int (f * hb)) = Inr ?v"
    using assms by (simp add: BlockHashListWithBlockSize_def)
  have len: "hv_len ?v = Inr (int ?n)" using assms(2) by (simp add: hv_len_def zdiv_int)
  have val: "hv_get_value_at ?v (int i) = Inr (concat (take f (drop (i * f) hs)))" if "i < ?n" for i
  proof -
    have "(i + 1) * f \<le> ?n * f" using that by (intro mult_le_mono1) simp
    also have "\<dots> \<le> length hs" by simp
    finally have "int ((i + 1) * f) \<le> int (length hs)" by (simp only: of_nat_le_iff)
    then have "(int i + 1) * int f \<le> int (length hs)" by (simp add: algebra_simps)
    then show ?thesis using hv_get_value_at_eq [OF assms(2), of "int i" hs] by simp
  qed
  have slice: "hv_slice ?v a b step = rbind (slice_indices a b step (int ?n))
      (\<lambda>is. Inr (map (\<lambda>i. concat (take f (drop (nat i * f) hs))) is))" for a b step
  proof (cases "slice_indices a b step (int ?n)")
    case (Inr js)
    have "hv_get_value_at ?v x = Inr (concat (take f (drop (nat x * f) hs)))" if "x \<in> set js" for x
      using slice_indices_range [OF Inr _ that] val [of "nat x"] by (simp add: nat_less_iff)
    then show ?thesis using Inr by (simp add: hv_slice_def len rmap_map)
  qed (simp add: hv_slice_def len)
  have "hv_from ?v (int k) = Inr (map (\<lambda>i. concat (take f (drop (i * f) hs))) [k..<?n])" for k
    by (simp add: hv_from_def slice slice_indices_from o_def)
  then show ?thesis using v len val slice by blast
qed

section \<open>Properties\<close>

text \<open>C33. Packing a block hash with a group id raises \<^verbatim>\<open>OverflowError\<close> exactly when the id does not fit
  four bytes; otherwise both parts are recovered from the key, so two keys are equal only if
  hash and group id are equal.\<close>

theorem group_key_round_trip:
  "((\<exists>e. make_block_hash_with_group_id h g = Inl e) \<longleftrightarrow> g < 0 \<or> 2 ^ 32 \<le> g) \<and>
   (\<forall>k. make_block_hash_with_group_id h g = Inr k \<longrightarrow> get_block_hash k = h \<and> get_group_id k = g \<and>
     (\<forall>h' g'. make_block_hash_with_group_id h' g' = Inr k \<longrightarrow> h' = h \<and> g' = g))"
proof (intro conjI allI impI)
  show "(\<exists>e. make_block_hash_with_group_id h g = Inl e) \<longleftrightarrow> g < 0 \<or> 2 ^ 32 \<le> g"
    by (auto simp: make_block_hash_with_group_id_def)
next
  fix k assume k: "make_block_hash_with_group_id h g = Inr k"
  show "get_block_hash k = h" "get_group_id k = g" using unpack [OF k] by simp_all
  fix h' g' assume "make_block_hash_with_group_id h' g' = Inr k"
  then show "h' = h" "g' = g" using pack_inj [OF k] by auto
qed

theorem group_key_round_trip_witness:
  "\<exists>k. make_block_hash_with_group_id [0xAB, 0xCD] 70000 = Inr k \<and> get_block_hash k = [0xAB, 0xCD] \<and> get_group_id k = 70000"
proof -
  obtain k where k: "make_block_hash_with_group_id [0xAB, 0xCD] 70000 = Inr k"
    by (simp add: make_block_hash_with_group_id_def)
  with group_key_round_trip [of "[0xAB, 0xCD]" 70000] show ?thesis by blast
qed

text \<open>C14. For a request the constructor accepts and any sequence of token appends, hashing never
  raises and always returns, the prompt and the appended tokens end up in the token lists in
  order, and the stored block hashes are exactly the chain that hashing all full blocks from
  scratch gives: computing hashes incrementally, at any chunking, changes nothing.\<close>

theorem incremental_hashing_equals_from_scratch:
  assumes "0 < bs"
    and "Request (get_request_block_hasher NH hf digest (int bs)) oid rid prompt sp st cl arr mm lora emb pool salt prio res
      = Inr r0"
  shows "\<exists>r. rfold (append_output_token_ids (get_request_block_hasher NH hf digest (int bs))) tss r0 = Inr r \<and>
    all_token_ids r = prompt @ concat tss \<and> output_token_ids r = concat tss \<and>
    block_hashes r = block_chain NH hf bs salt (prompt @ concat tss)"
proof -
  define r where "r = \<lparr>obj_id = oid, request_id = rid, client_index = cl, priority = prio, arrival_time = arr,
         samp = sp, max_tokens = sp_max_tokens sp, status = (if st then WAITING_FOR_FSM else WAITING),
         req_stop_reason = None, lora_req = lora, has_prompt_embeds = emb, mm_features = mm,
         cache_salt = salt, num_prompt_tokens = int (length prompt), output_token_ids = [],
         all_token_ids = prompt, spec_token_ids = [], num_computed_tokens = 0,
         num_output_placeholders = 0, discard_latest_async_tokens = False, num_cached_tokens = - 1,
         is_prefill_chunk = False, num_preemptions = 0, num_external_computed_tokens = 0,
         block_hashes = [], skip_reading_prefix_cache = get_skip_reading_prefix_cache sp, resumable = res, dsa_compact_allocated = False\<rparr>"
  have ok: "mm = []" "\<not> emb" "lora = None"
    and r0: "update_block_hashes (get_request_block_hasher NH hf digest (int bs)) r = Inr r0"
    using assms(2) by (auto simp: Request_def r_def split: if_splits)
  have plain: "text_request r" by (simp add: text_request_def r_def ok)
  have "update_block_hashes (get_request_block_hasher NH hf digest (int bs)) r =
      Inr (r\<lparr>block_hashes := block_chain NH hf bs (cache_salt r) (all_token_ids r)\<rparr>)"
    by (rule update_catches_up [OF plain assms(1), of "[]" prompt]) (simp_all add: r_def block_chain_def)
  with r0 have eq: "r0 = r\<lparr>block_hashes := block_chain NH hf bs salt prompt\<rparr>" by (simp add: r_def)
  then have "hashed_request NH hf bs r0" using plain by (simp add: hashed_request_def text_request_def r_def)
  from rfold_append_hashed [OF this assms(1), of digest tss] show ?thesis
    by (intro exI conjI, assumption) (simp_all add: eq r_def)
qed

text \<open>A hash function for concrete instances: tagged concatenation.\<close>

fun toy_hash :: hash_fn where
  "toy_hash (p, ts, ks) = 1 # p @ map word_of_int ts @ (case ks of None \<Rightarrow> [] | Some l \<Rightarrow> [of_nat (length l)])"

definition bare_request :: request where
  "bare_request = sample_request\<lparr>mm_features := [], lora_req := None, has_prompt_embeds := False, cache_salt := None,
     all_token_ids := [5, 6], output_token_ids := [], block_hashes := []\<rparr>"

theorem incremental_hashing_equals_from_scratch_witness:
  "\<exists>r0 r. Request (get_request_block_hasher [0] toy_hash (\<lambda>_ _ _. []) (int 2))
      1 ''a'' [5, 6, 7] (samp sample_request) False 0 0 [] None False False None 0 False = Inr r0 \<and>
    rfold (append_output_token_ids (get_request_block_hasher [0] toy_hash (\<lambda>_ _ _. []) (int 2)))
      [[8], [9, 10]] r0 = Inr r \<and> block_hashes r = [[1, 0, 5, 6], [1, 1, 0, 5, 6, 7, 8], [1, 1, 1, 0, 5, 6, 7, 8, 9, 10]]"
proof -
  let ?H = "get_request_block_hasher [0] toy_hash (\<lambda>_ _ _. []) (int 2)"
  have "request_block_hasher [0] toy_hash (\<lambda>_ _ _. []) (int 2) r =
      Some (Inr (drop 0 (block_chain [0] toy_hash 2 (cache_salt r) ([] @ all_token_ids r))))"
    if "text_request r" "block_hashes r = []" for r
    using hasher_catches_up(1) [OF that(1), of 2 "[]" "all_token_ids r" "[0]" toy_hash] that(2) by (simp add: block_chain_def)
  then obtain r0 where r0: "Request ?H 1 ''a'' [5, 6, 7] (samp sample_request) False 0 0 [] None False False None 0 False = Inr r0"
    by (simp add: Request_def update_block_hashes_def get_request_block_hasher_def text_request_def)
  have "block_chain [0] toy_hash 2 None [5, 6, 7, 8, 9, 10] =
      [[1, 0, 5, 6], [1, 1, 0, 5, 6, 7, 8], [1, 1, 1, 0, 5, 6, 7, 8, 9, 10]]"
    by code_simp
  with incremental_hashing_equals_from_scratch [OF _ r0, of "[[8], [9, 10]]"] r0 show ?thesis by auto
qed

text \<open>C5. Two text requests are hashed when they are created and again after every append of tokens, with the
  same hash function and block size. If the function has no collision on the inputs hashed for the
  two (and never returns the seed hash or an empty string on them), then a stored block hash of
  one equals a stored block hash of the other only if both blocks are at the same position, all
  tokens up to the end of the block agree, and so do the cache salts, an empty salt counting as
  none: a cache hit never serves a different prefix.\<close>

theorem equal_block_hashes_mean_equal_prefixes:
  assumes "0 < bs" and "text_request r" and "text_request r'" and "block_hashes r = []" and "block_hashes r' = []"
    and "update_block_hashes (get_request_block_hasher NH hf digest (int bs)) r = Inr r1"
    and "rfold (append_output_token_ids (get_request_block_hasher NH hf digest (int bs))) tss r1 = Inr q"
    and "update_block_hashes (get_request_block_hasher NH hf digest (int bs)) r' = Inr r1'"
    and "rfold (append_output_token_ids (get_request_block_hasher NH hf digest (int bs))) tss' r1' = Inr q'"
    and "collision_free NH hf (chain_inputs NH hf bs (cache_salt q) (all_token_ids q) @
           chain_inputs NH hf bs (cache_salt q') (all_token_ids q'))"
    and "i < length (block_hashes q)" and "j < length (block_hashes q')" and "block_hashes q ! i = block_hashes q' ! j"
  shows "i = j \<and> take ((i + 1) * bs) (all_token_ids q) = take ((i + 1) * bs) (all_token_ids q') \<and>
    (cache_salt q = cache_salt q' \<or> {cache_salt q, cache_salt q'} \<subseteq> {None, Some []})"
proof -
  have q: "block_hashes q = block_chain NH hf bs (cache_salt q) (all_token_ids q)"
    using lifetime_hashed [OF assms(1,2,4,6,7)] by (simp add: hashed_request_def)
  have q': "block_hashes q' = block_chain NH hf bs (cache_salt q') (all_token_ids q')"
    using lifetime_hashed [OF assms(1,3,5,8,9)] by (simp add: hashed_request_def)
  have "i = j \<and> take ((i + 1) * bs) (all_token_ids q) = take ((j + 1) * bs) (all_token_ids q') \<and>
      block_keys (cache_salt q) 0 = block_keys (cache_salt q') 0"
    using assms(11-13) unfolding q q' by (intro equal_hash_equal_prefix [OF assms(10)]) (simp_all add: block_chain_def)
  then show ?thesis by (auto simp: block_keys_def split: option.splits if_splits)
qed

theorem equal_block_hashes_mean_equal_prefixes_witness:
  "\<exists>q q'. rfold (append_output_token_ids (get_request_block_hasher [0] toy_hash (\<lambda>_ _ _. []) (int 2))) [[], [7, 8]] bare_request = Inr q \<and>
     rfold (append_output_token_ids (get_request_block_hasher [0] toy_hash (\<lambda>_ _ _. []) (int 2))) [[], [9], [9]] bare_request = Inr q' \<and>
     block_hashes q ! 0 = block_hashes q' ! 0 \<and> take 2 (all_token_ids q) = take 2 (all_token_ids q')"
proof -
  let ?H = "get_request_block_hasher [0] toy_hash (\<lambda>_ _ _. []) (int 2)"
  let ?r1 = "bare_request\<lparr>block_hashes := block_chain [0] toy_hash 2 None [5, 6]\<rparr>"
  have r: "text_request bare_request" "block_hashes bare_request = []" "all_token_ids bare_request = [5, 6]"
    "cache_salt bare_request = None" "output_token_ids bare_request = []" by code_simp+
  have u: "update_block_hashes ?H bare_request = Inr ?r1"
    using update_catches_up [OF r(1), of 2 "[]" "[5, 6]" "[0]" toy_hash] r by (simp add: block_chain_def)
  have h: "hashed_request [0] toy_hash 2 ?r1" using r by (simp add: hashed_request_def text_request_def)
  let ?q = "\<lambda>ts. ?r1\<lparr>output_token_ids := ts, all_token_ids := [5, 6] @ ts, block_hashes := block_chain [0] toy_hash 2 None ([5, 6] @ ts)\<rparr>"
  have app: "rfold (append_output_token_ids ?H) tss ?r1 = Inr (?q (concat tss))" for tss
    using rfold_append_hashed [OF h, of "\<lambda>_ _ _. []" tss] r by simp
  have first: "append_output_token_ids ?H [] bare_request = Inr ?r1"
    using u by (simp add: append_output_token_ids_def)
  have cf: "collision_free [0] toy_hash (chain_inputs [0] toy_hash 2 None [5, 6, 7, 8] @ chain_inputs [0] toy_hash 2 None [5, 6, 9, 9])"
    by code_simp
  have eq: "block_chain [0] toy_hash 2 None [5, 6, 7, 8] ! 0 = block_chain [0] toy_hash 2 None [5, 6, 9, 9] ! 0"
    "length (block_chain [0] toy_hash 2 None [5, 6, 7, 8]) = 2" "length (block_chain [0] toy_hash 2 None [5, 6, 9, 9]) = 2"
    by code_simp+
  have "take 2 (all_token_ids (?q [7, 8])) = take 2 (all_token_ids (?q [9, 9]))"
    using equal_block_hashes_mean_equal_prefixes [OF _ r(1) r(1) r(2) r(2) u app [of "[[7, 8]]"] u app [of "[[9], [9]]"], of 0 0]
      cf eq r by simp
  moreover have "rfold (append_output_token_ids ?H) [[], [7, 8]] bare_request = Inr (?q [7, 8])"
    "rfold (append_output_token_ids ?H) [[], [9], [9]] bare_request = Inr (?q [9, 9])"
    using first app [of "[[7, 8]]"] app [of "[[9], [9]]"] by simp_all
  moreover have "block_hashes (?q [7, 8]) ! 0 = block_hashes (?q [9, 9]) ! 0" using eq(1) by simp
  ultimately show ?thesis by blast
qed

text \<open>C34. The merged view of block hashes at a block size that is a multiple of the hash block size:
  its length is the number of complete larger blocks, every index below it yields the
  concatenation of the hashes of the small blocks it covers, slicing from a start index
  yields exactly the values from there on, and a slice with any start, stop and step yields the
  values at the indices Python's slice selects, all of them in range.\<close>

theorem merged_hash_view_correct:
  assumes "0 < hb" and "0 < f"
  shows "\<exists>v. BlockHashListWithBlockSize hs (int hb) (int (f * hb)) = Inr v \<and>
    hv_len v = Inr (int (length hs div f)) \<and>
    (\<forall>i<length hs div f. hv_get_value_at v (int i) = Inr (concat (take f (drop (i * f) hs)))) \<and>
    (\<forall>k. hv_from v (int k) = Inr (map (\<lambda>i. concat (take f (drop (i * f) hs))) [k..<length hs div f])) \<and>
    (\<forall>a b step. hv_slice v a b step = rbind (slice_indices a b step (int (length hs div f)))
       (\<lambda>is. Inr (map (\<lambda>i. concat (take f (drop (nat i * f) hs))) is)))"
  by (rule hash_view_spec [OF assms])

theorem merged_hash_view_correct_witness:
  "\<exists>v. BlockHashListWithBlockSize [[1], [2], [3], [4], [5]] (int 16) (int (2 * 16)) = Inr v \<and>
     hv_get_value_at v (int 1) = Inr [3, 4] \<and> hv_slice v None None (Some (- 1)) = Inr [[3, 4], [1, 2]]"
proof -
  have "slice_indices None None (Some (- 1)) 2 = Inr [1, 0]" by code_simp
  then show ?thesis using merged_hash_view_correct [of 16 2 "[[1], [2], [3], [4], [5]]"] by auto
qed

end
