(* ===== verification/Block_Pool.thy ===== *)
theory Block_Pool
  imports Free_Queue Block_Hash "HOL-Library.AList"
begin

text \<open>
  \<^verbatim>\<open>vllm/v1/core/block_pool.py\<close>, classes \<^verbatim>\<open>BlockHashToBlockMap\<close> and \<^verbatim>\<open>BlockPool\<close>: the prefix cache
  and the pool of cache blocks. The block objects of the pool are the store of its free queue.
  The optional metrics collector only observes and is left out, as are the usage ratio and the
  medium of the events, which is always the constant for the GPU.
  The invariant ties the free queue to the reference counts and the cache to the hashes the
  blocks carry; every operation is shown to keep it and its effect on free list, counts and
  hashes is stated exactly.
\<close>

section \<open>The hash map\<close>

datatype cache_entry = One blk | Many "(int \<times> blk) list"

type_synonym block_cache = "bytes \<rightharpoonup> cache_entry"

definition get_one_block :: "block_cache \<Rightarrow> bytes \<Rightarrow> blk option res" where
  "get_one_block c key =
     (case c key of
        None \<Rightarrow> Inr None
      | Some (One b) \<Rightarrow> Inr (Some b)
      | Some (Many bs) \<Rightarrow> (case bs of [] \<Rightarrow> Inl StopIteration | (_, b) # _ \<Rightarrow> Inr (Some b)))"

definition insert_block :: "block_store \<Rightarrow> bytes \<Rightarrow> blk \<Rightarrow> block_cache \<Rightarrow> block_cache" where
  "insert_block h key b c =
     (case c key of
        None \<Rightarrow> c(key \<mapsto> One b)
      | Some (One b0) \<Rightarrow> c(key \<mapsto> Many (AList.update (block_id (h b)) b [(block_id (h b0), b0)]))
      | Some (Many bs) \<Rightarrow> c(key \<mapsto> Many (AList.update (block_id (h b)) b bs)))"

definition pop_block :: "block_store \<Rightarrow> bytes \<Rightarrow> int \<Rightarrow> block_cache \<Rightarrow> blk option \<times> block_cache" where
  "pop_block h key bid c =
     (case c key of
        None \<Rightarrow> (None, c)
      | Some (One b) \<Rightarrow> if block_id (h b) = bid then (Some b, c(key := None)) else (None, c)
      | Some (Many bs) \<Rightarrow>
          (let rest = AList.delete bid bs
           in (map_of bs bid, c(key := (if rest \<noteq> [] then Some (Many rest) else None)))))"

section \<open>The pool\<close>

datatype kv_event =
    BlockStored "external_hash list" "external_hash option" "int list" int "int option" "string option"
      "extra_keys list option"
  | BlockRemoved "external_hash list"
  | AllBlocksCleared

record block_pool =
  num_gpu_blocks :: int
  enable_caching :: bool
  hash_block_size :: int
  free_block_queue :: free_queue
  cached_block_hash_to_block :: block_cache
  null_block :: blk
  enable_kv_cache_events :: bool
  use_int_block_hashes :: bool
  kv_event_queue :: "kv_event list"

definition bstore :: "block_pool \<Rightarrow> block_store" where
  "bstore p = store (free_block_queue p)"

definition upd_block :: "blk \<Rightarrow> (kv_block \<Rightarrow> kv_block) \<Rightarrow> block_pool \<Rightarrow> block_pool" where
  "upd_block b f p = p\<lparr>free_block_queue := (free_block_queue p)\<lparr>store := (bstore p)(b := f (bstore p b))\<rparr>\<rparr>"

definition BlockPool :: "int \<Rightarrow> bool \<Rightarrow> int \<Rightarrow> bool \<Rightarrow> bool \<Rightarrow> block_pool res" where
  "BlockPool n caching hbs events use_int =
     rassert (n > 0)
       (let h = (\<lambda>b. case b of Blk i \<Rightarrow> KVCacheBlock (int i) | _ \<Rightarrow> KVCacheBlock (- 1))
        in rbind (popleft (FreeKVCacheBlockQueue (map Blk [0..<nat n]) h)) (\<lambda>(nb, q).
          Inr (upd_block nb (\<lambda>b. b\<lparr>is_null := True\<rparr>)
            \<lparr>num_gpu_blocks = n, enable_caching = caching, hash_block_size = hbs, free_block_queue = q,
             cached_block_hash_to_block = Map.empty, null_block = nb, enable_kv_cache_events = events,
             use_int_block_hashes = use_int, kv_event_queue = []\<rparr>)))"

definition get_num_free_blocks :: "block_pool \<Rightarrow> int" where
  "get_num_free_blocks p = num_free_blocks (free_block_queue p)"

fun cached_blocks_loop :: "block_pool \<Rightarrow> bytes \<Rightarrow> int list \<Rightarrow> blk list option res" where
  "cached_blocks_loop p h [] = Inr (Some [])"
| "cached_blocks_loop p h (g # gs) =
     rbind (make_block_hash_with_group_id h g) (\<lambda>key.
     rbind (get_one_block (cached_block_hash_to_block p) key) (\<lambda>ob.
       case ob of
         None \<Rightarrow> Inr None
       | Some b \<Rightarrow> rbind (cached_blocks_loop p h gs) (\<lambda>r. Inr (map_option ((#) b) r))))"

definition get_cached_block :: "block_pool \<Rightarrow> bytes \<Rightarrow> int list \<Rightarrow> blk list option res" where
  "get_cached_block p h gids = cached_blocks_loop p h gids"

definition maybe_evict_cached_block :: "blk \<Rightarrow> block_pool \<Rightarrow> bool \<times> block_pool" where
  "maybe_evict_cached_block b p =
     (case block_hash (bstore p b) of
        None \<Rightarrow> (False, p)
      | Some key \<Rightarrow>
          (case pop_block (bstore p) key (block_id (bstore p b)) (cached_block_hash_to_block p) of
             (None, c) \<Rightarrow> (False, p\<lparr>cached_block_hash_to_block := c\<rparr>)
           | (Some _, c) \<Rightarrow>
               (let p1 = upd_block b reset_hash (p\<lparr>cached_block_hash_to_block := c\<rparr>)
                in (True,
                    if enable_kv_cache_events p
                    then p1\<lparr>kv_event_queue := kv_event_queue p1 @
                            [BlockRemoved [maybe_convert_block_hash (use_int_block_hashes p) (get_block_hash key)]]\<rparr>
                    else p1))))"

definition alloc_block :: "blk \<Rightarrow> block_pool \<Rightarrow> block_pool res" where
  "alloc_block b p =
     (let p1 = (if enable_caching p then snd (maybe_evict_cached_block b p) else p)
      in rassert (ref_cnt (bstore p1 b) = 0)
           (Inr (upd_block b (\<lambda>x. x\<lparr>ref_cnt := ref_cnt x + 1\<rparr>) p1)))"

definition get_new_blocks :: "int \<Rightarrow> block_pool \<Rightarrow> (blk list \<times> block_pool) res" where
  "get_new_blocks num_blocks p =
     (if num_blocks > get_num_free_blocks p then Inl ValueError
      else rbind (popleft_n num_blocks (free_block_queue p)) (\<lambda>(ret, q).
           rbind (rfold alloc_block ret (p\<lparr>free_block_queue := q\<rparr>)) (\<lambda>p'.
           Inr (ret, p'))))"

definition touch_block :: "blk \<Rightarrow> block_pool \<Rightarrow> block_pool res" where
  "touch_block b p =
     rbind (if ref_cnt (bstore p b) = 0 \<and> \<not> is_null (bstore p b)
            then rbind (remove_block b (free_block_queue p)) (\<lambda>q. Inr (p\<lparr>free_block_queue := q\<rparr>))
            else Inr p)
       (\<lambda>p1. Inr (upd_block b (\<lambda>x. x\<lparr>ref_cnt := ref_cnt x + 1\<rparr>) p1))"

definition touch :: "blk list \<Rightarrow> block_pool \<Rightarrow> block_pool res" where
  "touch bs p = rfold touch_block bs p"

definition free_blocks :: "blk list \<Rightarrow> block_pool \<Rightarrow> block_pool res" where
  "free_blocks ordered_blocks p =
     (let p1 = fold (\<lambda>b. upd_block b (\<lambda>x. x\<lparr>ref_cnt := ref_cnt x - 1\<rparr>)) ordered_blocks p
      in rbind (append_n (filter (\<lambda>b. ref_cnt (bstore p1 b) = 0 \<and> \<not> is_null (bstore p1 b)) ordered_blocks)
                 (free_block_queue p1))
           (\<lambda>q. Inr (p1\<lparr>free_block_queue := q\<rparr>)))"

text \<open>\<^verbatim>\<open>self.blocks[block_id]\<close>; the ids come as a Python set, here a list without repetitions.\<close>

definition block_at :: "block_pool \<Rightarrow> int \<Rightarrow> blk res" where
  "block_at p i = py_index (map Blk [0..<nat (num_gpu_blocks p)]) i"

definition evict_block_id :: "int \<Rightarrow> block_pool \<Rightarrow> block_pool res" where
  "evict_block_id i p =
     rassert (i < num_gpu_blocks p) (rbind (block_at p i) (\<lambda>b. Inr (snd (maybe_evict_cached_block b p))))"

definition evict_blocks :: "int list \<Rightarrow> block_pool \<Rightarrow> block_pool res" where
  "evict_blocks ids p = rfold evict_block_id ids p"

definition reset_prefix_cache :: "block_pool \<Rightarrow> bool \<times> block_pool" where
  "reset_prefix_cache p =
     (if num_gpu_blocks p - get_num_free_blocks p \<noteq> 1 then (False, p)
      else (let p1 = p\<lparr>cached_block_hash_to_block := Map.empty\<rparr>;
                p2 = fold (\<lambda>b. upd_block b reset_hash) (map Blk [0..<nat (num_gpu_blocks p)]) p1
            in (True,
                if enable_kv_cache_events p
                then p2\<lparr>kv_event_queue := kv_event_queue p2 @ [AllBlocksCleared]\<rparr> else p2)))"

definition take_events :: "block_pool \<Rightarrow> kv_event list \<times> block_pool" where
  "take_events p =
     (if \<not> enable_kv_cache_events p then ([], p)
      else (kv_event_queue p, p\<lparr>kv_event_queue := []\<rparr>))"

section \<open>Caching full blocks\<close>

text \<open>The block hashes at the granularity of the group's block size.\<close>

datatype hash_list = Plain "bytes list" | View hash_view

definition hl_from :: "hash_list \<Rightarrow> int \<Rightarrow> bytes list res" where
  "hl_from hl i = (case hl of Plain hs \<Rightarrow> Inr (py_from hs i) | View v \<Rightarrow> hv_from v i)"

definition hl_at :: "hash_list \<Rightarrow> int \<Rightarrow> bytes res" where
  "hl_at hl i = (case hl of Plain hs \<Rightarrow> py_index hs i | View v \<Rightarrow> hv_get_value_at v i)"

definition hashes_at_block_size :: "block_pool \<Rightarrow> bytes list \<Rightarrow> int \<Rightarrow> hash_list res" where
  "hashes_at_block_size p hs block_size =
     (if block_size = hash_block_size p then Inr (Plain hs)
      else if hash_block_size p = 0 then Inl ZeroDivisionError
      else rassert (block_size mod hash_block_size p = 0)
        (rbind (BlockHashListWithBlockSize hs (hash_block_size p) block_size) (\<lambda>v. Inr (View v))))"

definition cache_one_block :: "bytes list \<Rightarrow> int \<Rightarrow> nat \<times> blk \<Rightarrow> external_hash list \<times> block_pool \<Rightarrow>
    (external_hash list \<times> block_pool) res" where
  "cache_one_block new_block_hashes gid ib s =
     (let (i, b) = ib; (new_hashes, p) = s
      in if is_null (bstore p b) then Inr s
         else rassert (block_hash (bstore p b) = None)
           (rbind (py_index new_block_hashes (int i)) (\<lambda>h.
            rbind (make_block_hash_with_group_id h gid) (\<lambda>key.
            rbind (set_block_hash key (bstore p b)) (\<lambda>x.
              let p1 = upd_block b (\<lambda>_. x) p;
                  p2 = p1\<lparr>cached_block_hash_to_block :=
                            insert_block (bstore p1) key b (cached_block_hash_to_block p1)\<rparr>
              in Inr (if enable_kv_cache_events p
                      then new_hashes @ [maybe_convert_block_hash (use_int_block_hashes p) h] else new_hashes,
                      p2))))))"

fun extra_keys_loop :: "embeds_digest \<Rightarrow> block_pool \<Rightarrow> request \<Rightarrow> blk list \<Rightarrow> int \<Rightarrow> int list \<Rightarrow> int \<Rightarrow>
    extra_keys list res" where
  "extra_keys_loop digest p r bs block_size [] mm_idx = Inr []"
| "extra_keys_loop digest p r bs block_size (i # is) mm_idx =
     rbind (py_index bs i) (\<lambda>b.
       if is_null (bstore p b) then extra_keys_loop digest p r bs block_size is mm_idx
       else rbind (generate_block_hash_extra_keys digest r (i * block_size) (i * block_size + block_size) mm_idx)
              (\<lambda>(ks, mm_idx'). rbind (extra_keys_loop digest p r bs block_size is mm_idx') (\<lambda>l. Inr (ks # l))))"

definition stored_event :: "embeds_digest \<Rightarrow> request \<Rightarrow> blk list \<Rightarrow> int \<Rightarrow> int \<Rightarrow> int \<Rightarrow> hash_list \<Rightarrow>
    external_hash list \<Rightarrow> block_pool \<Rightarrow> block_pool res" where
  "stored_event digest r bs num_cached_blocks num_full_blocks block_size hl new_hashes p =
     rbind (if num_cached_blocks = 0 then Inr None
            else rbind (hl_at hl (num_cached_blocks - 1))
                   (\<lambda>h. Inr (Some (maybe_convert_block_hash (use_int_block_hashes p) h)))) (\<lambda>parent.
     rbind (extra_keys_loop digest p r bs block_size [num_cached_blocks..num_full_blocks - 1] 0) (\<lambda>ks.
     Inr (p\<lparr>kv_event_queue := kv_event_queue p @
           [BlockStored new_hashes parent
              (py_slice (all_token_ids r) (num_cached_blocks * block_size) (num_full_blocks * block_size))
              block_size (map_option lora_int_id (lora_req r)) (map_option lora_name (lora_req r))
              (if ks = [] then None else Some ks)]\<rparr>)))"

definition cache_full_blocks :: "embeds_digest \<Rightarrow> request \<Rightarrow> blk list \<Rightarrow> int \<Rightarrow> int \<Rightarrow> int \<Rightarrow> int \<Rightarrow>
    block_pool \<Rightarrow> block_pool res" where
  "cache_full_blocks digest r bs num_cached_blocks num_full_blocks block_size gid p =
     (if num_cached_blocks \<ge> num_full_blocks then Inr p
      else rassert (int (length (block_hashes r)) \<ge> num_full_blocks)
        (rbind (hashes_at_block_size p (block_hashes r) block_size) (\<lambda>hl.
         rbind (hl_from hl num_cached_blocks) (\<lambda>new_block_hashes.
         rbind (rfold (cache_one_block new_block_hashes gid)
                  (enumerate 0 (py_slice bs num_cached_blocks num_full_blocks)) ([], p)) (\<lambda>(new_hashes, p1).
           if \<not> enable_kv_cache_events p then Inr p1
           else stored_event digest r bs num_cached_blocks num_full_blocks block_size hl new_hashes p1)))))"

section \<open>The cache as a relation\<close>

fun entry_blocks :: "cache_entry \<Rightarrow> blk list" where
  "entry_blocks (One b) = [b]"
| "entry_blocks (Many bs) = map snd bs"

fun entry_ok :: "block_store \<Rightarrow> cache_entry \<Rightarrow> bool" where
  "entry_ok h (One b) \<longleftrightarrow> True"
| "entry_ok h (Many bs) \<longleftrightarrow> bs \<noteq> [] \<and> distinct (map fst bs) \<and> (\<forall>(i, b)\<in>set bs. block_id (h b) = i)"

definition cset :: "block_cache \<Rightarrow> bytes \<Rightarrow> blk set" where
  "cset c k = (case c k of None \<Rightarrow> {} | Some e \<Rightarrow> set (entry_blocks e))"

definition cache_wf :: "block_store \<Rightarrow> block_cache \<Rightarrow> bool" where
  "cache_wf h c \<longleftrightarrow> (\<forall>k e. c k = Some e \<longrightarrow> entry_ok h e)"

lemma cset_empty [simp]: "cset Map.empty k = {}"
  by (simp add: cset_def)

lemma cset_upd: "cset (c(k := e)) k' = (if k' = k then (case e of None \<Rightarrow> {} | Some e \<Rightarrow> set (entry_blocks e)) else cset c k')"
  by (simp add: cset_def)

lemma cache_wf_upd: "cache_wf h c \<Longrightarrow> (\<And>e'. e = Some e' \<Longrightarrow> entry_ok h e') \<Longrightarrow> cache_wf h (c(k := e))"
  by (auto simp: cache_wf_def)

lemma cache_wf_cong: "(\<And>b. block_id (h' b) = block_id (h b)) \<Longrightarrow> cache_wf h' c = cache_wf h c"
proof -
  assume ids: "\<And>b. block_id (h' b) = block_id (h b)"
  have "entry_ok h' e = entry_ok h e" for e by (cases e) (simp_all add: ids)
  then show ?thesis by (simp add: cache_wf_def)
qed

lemma get_one_block_cset:
  assumes "cache_wf h c"
  shows "\<exists>ob. get_one_block c k = Inr ob \<and> (case ob of None \<Rightarrow> cset c k = {} | Some b \<Rightarrow> b \<in> cset c k)"
proof (cases "c k")
  case None
  then show ?thesis by (simp add: get_one_block_def cset_def)
next
  case (Some e)
  then have ok: "entry_ok h e" using assms by (simp add: cache_wf_def)
  show ?thesis
  proof (cases e)
    case (One b)
    then show ?thesis using Some by (simp add: get_one_block_def cset_def)
  next
    case (Many bs)
    then show ?thesis using Some ok by (cases bs) (auto simp: get_one_block_def cset_def)
  qed
qed

text \<open>Block ids tell the members of an entry apart.\<close>

definition ids_inj :: "block_store \<Rightarrow> blk set \<Rightarrow> bool" where
  "ids_inj h S \<longleftrightarrow> inj_on (\<lambda>b. block_id (h b)) S"

lemma snd_update:
  assumes "distinct (map fst bs)" and "\<forall>(i, b)\<in>set bs. block_id (h b) = i" and "ids_inj h (insert b (snd ` set bs))"
  shows "snd ` set (AList.update (block_id (h b)) b bs) = insert b (snd ` set bs)"
    and "\<forall>(i, b')\<in>set (AList.update (block_id (h b)) b bs). block_id (h b') = i"
proof -
  have mem: "set (AList.update k v al) = insert (k, v) {p \<in> set al. fst p \<noteq> k}" if "distinct (map fst al)"
    for k :: int and v :: blk and al
    using that by (induction al) (auto, (metis fst_conv image_eqI)+)
  have same: "b' = b" if b': "(block_id (h b), b') \<in> set bs" for b'
  proof (rule inj_onD [OF assms(3) [unfolded ids_inj_def]])
    show "block_id (h b') = block_id (h b)" using assms(2) b' by fast
    show "b' \<in> insert b (snd ` set bs)" using b' by (metis image_eqI insertCI snd_conv)
  qed simp
  show "snd ` set (AList.update (block_id (h b)) b bs) = insert b (snd ` set bs)"
  proof (intro equalityI subsetI)
    fix x assume "x \<in> insert b (snd ` set bs)"
    then consider "x = b" | i where "(i, x) \<in> set bs" by auto
    then show "x \<in> snd ` set (AList.update (block_id (h b)) b bs)"
    proof cases
      case (2 i)
      then show ?thesis unfolding mem [OF assms(1)] using same [of x]
        by (cases "i = block_id (h b)") (auto intro: rev_image_eqI)
    qed (auto simp: mem [OF assms(1)])
  qed (auto simp: mem [OF assms(1)])
  show "\<forall>(i, b')\<in>set (AList.update (block_id (h b)) b bs). block_id (h b') = i"
    unfolding mem [OF assms(1)] using assms(2) by auto
qed

lemma insert_block_cset:
  assumes wf: "cache_wf h c" and inj: "ids_inj h (insert b (cset c k))"
  shows "cset (insert_block h k b c) = (cset c)(k := insert b (cset c k))" and "cache_wf h (insert_block h k b c)"
proof -
  have "cset (insert_block h k b c) = (cset c)(k := insert b (cset c k)) \<and> cache_wf h (insert_block h k b c)"
  proof (cases "c k")
    case None
    then show ?thesis using wf by (auto simp: insert_block_def cset_upd fun_eq_iff cset_def cache_wf_def)
  next
    case (Some e)
    define bs where "bs = (case e of One b0 \<Rightarrow> [(block_id (h b0), b0)] | Many bs \<Rightarrow> bs)"
    have ok: "entry_ok h e" using wf Some by (simp add: cache_wf_def)
    have ins: "insert_block h k b c = c(k \<mapsto> Many (AList.update (block_id (h b)) b bs))"
      using Some by (simp add: insert_block_def bs_def split: cache_entry.split)
    have bs: "distinct (map fst bs)" "\<forall>(i, b)\<in>set bs. block_id (h b) = i" "snd ` set bs = cset c k"
      using ok Some by (cases e; simp add: bs_def cset_def)+
    note upd = snd_update [OF bs(1,2), of b]
    have "AList.update (block_id (h b)) b bs \<noteq> []" by (cases bs) auto
    then have "entry_ok h (Many (AList.update (block_id (h b)) b bs))"
      using upd(2) inj bs(1,3) by (simp add: distinct_update)
    then show ?thesis
      using upd(1) inj bs(3) wf unfolding ins by (auto simp: cset_upd fun_eq_iff intro: cache_wf_upd)
  qed
  then show "cset (insert_block h k b c) = (cset c)(k := insert b (cset c k))" "cache_wf h (insert_block h k b c)" by simp_all
qed

lemma pop_block_cset:
  assumes wf: "cache_wf h c" and inj: "ids_inj h (insert b (cset c k))" and mem: "b \<in> cset c k"
  shows "\<exists>c'. pop_block h k (block_id (h b)) c = (Some b, c') \<and> cset c' = (cset c)(k := cset c k - {b}) \<and> cache_wf h c'"
proof (cases "c k")
  case None
  then show ?thesis using mem by (simp add: cset_def)
next
  case (Some e)
  have ok: "entry_ok h e" using wf Some by (simp add: cache_wf_def)
  show ?thesis
  proof (cases e)
    case (One b0)
    then have "b = b0" using Some mem by (simp add: cset_def)
    then show ?thesis
      using Some One wf
      by (intro exI [of _ "c(k := None)"]) (simp add: pop_block_def cset_upd cset_def fun_eq_iff cache_wf_def)
  next
    case (Many bs)
    let ?rest = "AList.delete (block_id (h b)) bs"
    have bs: "distinct (map fst bs)" "\<forall>(i, b)\<in>set bs. block_id (h b) = i" "snd ` set bs = cset c k"
      using ok Some Many by (simp_all add: cset_def)
    have rest: "set ?rest = {p \<in> set bs. fst p \<noteq> block_id (h b)}" by (auto simp: AList.delete_eq)
    have in_bs: "(block_id (h b), b) \<in> set bs" using mem bs(2) unfolding bs(3) [symmetric] by fastforce
    have key: "block_id (h b') = i" if "(i, b') \<in> set bs" for i b' using bs(2) that by fast
    have same: "b' = b" if "(i, b') \<in> set bs" "i = block_id (h b)" for i b'
    proof (rule inj_onD [OF inj [unfolded ids_inj_def]])
      show "block_id (h b') = block_id (h b)" using key that by simp
      show "b' \<in> insert b (cset c k)" using that bs(3) by (metis image_eqI insertCI snd_conv)
    qed simp
    have "snd ` set ?rest = snd ` set bs - {b}"
    proof (intro equalityI subsetI)
      fix x assume "x \<in> snd ` set ?rest"
      then obtain i where "(i, x) \<in> set bs" "i \<noteq> block_id (h b)" unfolding rest by auto
      then show "x \<in> snd ` set bs - {b}" using key [of i x] by (auto intro: rev_image_eqI)
    next
      fix x assume "x \<in> snd ` set bs - {b}"
      then obtain i where "(i, x) \<in> set bs" "x \<noteq> b" by auto
      then have "(i, x) \<in> set ?rest" unfolding rest using same [of i x] by auto
      then show "x \<in> snd ` set ?rest" by (metis image_eqI snd_conv)
    qed
    then have "snd ` set ?rest = cset c k - {b}" by (simp only: bs(3))
    moreover have "entry_ok h (Many ?rest)" if "?rest \<noteq> []"
      using that bs by (simp add: distinct_delete rest)
    moreover have "map_of bs (block_id (h b)) = Some b" using in_bs bs(1) by simp
    ultimately show ?thesis
    proof (intro exI conjI)
      let ?c = "c(k := (if ?rest \<noteq> [] then Some (Many ?rest) else None))"
      show "pop_block h k (block_id (h b)) c = (Some b, ?c)"
        using Some Many \<open>map_of bs (block_id (h b)) = Some b\<close> by (simp add: pop_block_def Let_def)
      show "cset ?c = (cset c)(k := cset c k - {b})"
        using \<open>snd ` set ?rest = cset c k - {b}\<close> by (cases "?rest = []") (simp_all add: fun_eq_iff cset_upd)
      show "cache_wf h ?c"
        using wf \<open>?rest \<noteq> [] \<Longrightarrow> entry_ok h (Many ?rest)\<close> by (cases "?rest = []") (auto intro!: cache_wf_upd)
    qed
  qed
qed

section \<open>The pool invariant\<close>

definition valid_blk :: "block_pool \<Rightarrow> blk \<Rightarrow> bool" where
  "valid_blk p b \<longleftrightarrow> (\<exists>i. b = Blk i \<and> int i < num_gpu_blocks p)"

text \<open>\<open>pool_ok D p xs\<close>: the pool with free list \<open>xs\<close> while the unreferenced blocks \<open>D\<close> are off the list.\<close>

definition pool_ok :: "blk set \<Rightarrow> block_pool \<Rightarrow> blk list \<Rightarrow> bool" where
  "pool_ok D p xs \<longleftrightarrow> 0 < num_gpu_blocks p \<and> null_block p = Blk 0 \<and>
     fq_repr (free_block_queue p) xs \<and>
     (\<forall>i. block_id (bstore p (Blk i)) = int i \<and> is_null (bstore p (Blk i)) = (i = 0) \<and>
          (0 < i \<longrightarrow> 0 \<le> ref_cnt (bstore p (Blk i)))) \<and>
     (\<forall>b. b \<in> set xs \<longleftrightarrow> valid_blk p b \<and> b \<noteq> Blk 0 \<and> ref_cnt (bstore p b) = 0 \<and> b \<notin> D) \<and>
     block_hash (bstore p (Blk 0)) = None \<and>
     cache_wf (bstore p) (cached_block_hash_to_block p) \<and>
     (\<forall>k. cset (cached_block_hash_to_block p) k = {b. valid_blk p b \<and> block_hash (bstore p b) = Some k})"

abbreviation pool_inv :: "block_pool \<Rightarrow> blk list \<Rightarrow> bool" where
  "pool_inv \<equiv> pool_ok {}"

text \<open>What no operation changes, and what a block carries beside its links.\<close>

definition cfg :: "block_pool \<Rightarrow> int \<times> bool \<times> int \<times> blk \<times> bool \<times> bool" where
  "cfg p = (num_gpu_blocks p, enable_caching p, hash_block_size p, null_block p, enable_kv_cache_events p,
     use_int_block_hashes p)"

definition data :: "block_pool \<Rightarrow> blk \<Rightarrow> kv_block" where
  "data p b = payload (bstore p b)"

lemma payload_sel [simp]:
  "block_id (payload b) = block_id b" "ref_cnt (payload b) = ref_cnt b" "block_hash (payload b) = block_hash b"
  "is_null (payload b) = is_null b"
  by (simp_all add: payload_def)

lemma data_sel:
  "block_id (bstore p b) = block_id (data p b)" "ref_cnt (bstore p b) = ref_cnt (data p b)"
  "block_hash (bstore p b) = block_hash (data p b)" "is_null (bstore p b) = is_null (data p b)"
  by (simp_all add: data_def)

lemma upd_block_sel [simp]:
  "num_gpu_blocks (upd_block b f p) = num_gpu_blocks p" "enable_caching (upd_block b f p) = enable_caching p"
  "hash_block_size (upd_block b f p) = hash_block_size p" "null_block (upd_block b f p) = null_block p"
  "cached_block_hash_to_block (upd_block b f p) = cached_block_hash_to_block p"
  "enable_kv_cache_events (upd_block b f p) = enable_kv_cache_events p"
  "use_int_block_hashes (upd_block b f p) = use_int_block_hashes p"
  "kv_event_queue (upd_block b f p) = kv_event_queue p" "cfg (upd_block b f p) = cfg p"
  "get_num_free_blocks (upd_block b f p) = get_num_free_blocks p"
  by (simp_all add: upd_block_def cfg_def get_num_free_blocks_def)

lemma bstore_upd_block [simp]: "bstore (upd_block b f p) = (bstore p)(b := f (bstore p b))"
  by (simp add: upd_block_def bstore_def)

lemma bstore_updates [simp]:
  "bstore (p\<lparr>cached_block_hash_to_block := c\<rparr>) = bstore p" "bstore (p\<lparr>kv_event_queue := e\<rparr>) = bstore p"
  "bstore (p\<lparr>free_block_queue := q\<rparr>) = store q"
  by (simp_all add: bstore_def)

lemma cfg_updates [simp]:
  "cfg (p\<lparr>cached_block_hash_to_block := c\<rparr>) = cfg p" "cfg (p\<lparr>kv_event_queue := e\<rparr>) = cfg p"
  "cfg (p\<lparr>free_block_queue := q\<rparr>) = cfg p"
  by (simp_all add: cfg_def)

lemma fq_repr_same_links:
  assumes "\<And>b. prev_free_block (h b) = prev_free_block (store q b) \<and> next_free_block (h b) = next_free_block (store q b)"
  shows "fq_repr (q\<lparr>store := h\<rparr>) xs = fq_repr q xs"
proof -
  have "linked h cs = linked (store q) cs" for cs by (rule linked_cong) (simp_all add: assms)
  then show ?thesis by (simp add: fq_repr_def unlinked_def assms)
qed

lemma fq_repr_upd_block:
  assumes "\<And>x. prev_free_block (f x) = prev_free_block x \<and> next_free_block (f x) = next_free_block x"
  shows "fq_repr (free_block_queue (upd_block b f p)) xs = fq_repr (free_block_queue p) xs"
proof -
  have "fq_repr ((free_block_queue p)\<lparr>store := (bstore p)(b := f (bstore p b))\<rparr>) xs = fq_repr (free_block_queue p) xs"
    using assms by (intro fq_repr_same_links) (simp add: bstore_def)
  then show ?thesis by (simp add: upd_block_def)
qed

lemma valid_blk_cfg: "cfg p' = cfg p \<Longrightarrow> valid_blk p' b = valid_blk p b"
  by (simp add: valid_blk_def cfg_def)

lemma pool_okD:
  assumes "pool_ok D p xs"
  shows "fq_repr (free_block_queue p) xs" and "block_id (bstore p (Blk i)) = int i"
    and "is_null (bstore p (Blk i)) = (i = 0)" and "b \<in> set xs \<longleftrightarrow> valid_blk p b \<and> b \<noteq> Blk 0 \<and> ref_cnt (bstore p b) = 0 \<and> b \<notin> D"
    and "cset (cached_block_hash_to_block p) k = {b. valid_blk p b \<and> block_hash (bstore p b) = Some k}"
    and "cache_wf (bstore p) (cached_block_hash_to_block p)" and "get_num_free_blocks p = int (length xs)"
  using assms by (auto simp: pool_ok_def get_num_free_blocks_def fq_repr_def)

lemma pool_ids_inj:
  assumes "pool_ok D p xs" and "\<And>b. b \<in> S \<Longrightarrow> valid_blk p b"
  shows "ids_inj (bstore p) S"
  unfolding ids_inj_def inj_on_def
proof (intro ballI impI)
  fix x y assume "x \<in> S" "y \<in> S" and eq: "block_id (bstore p x) = block_id (bstore p y)"
  then obtain i j where "x = Blk i" "y = Blk j" using assms(2) unfolding valid_blk_def by meson
  then show "x = y" using eq pool_okD(2) [OF assms(1)] by simp
qed

lemma pool_okI:
  assumes ok: "pool_ok D p xs" and cfg: "cfg p' = cfg p" and "fq_repr (free_block_queue p') xs'"
    and ids: "\<And>b. block_id (data p' b) = block_id (data p b) \<and> is_null (data p' b) = is_null (data p b)"
    and "\<And>i. 0 < i \<Longrightarrow> 0 \<le> ref_cnt (data p' (Blk i))"
    and "\<And>b. b \<in> set xs' \<longleftrightarrow> valid_blk p b \<and> b \<noteq> Blk 0 \<and> ref_cnt (data p' b) = 0 \<and> b \<notin> D'"
    and "block_hash (data p' (Blk 0)) = None"
    and wf: "cache_wf (bstore p) (cached_block_hash_to_block p')"
    and "\<And>k. cset (cached_block_hash_to_block p') k = {b. valid_blk p b \<and> block_hash (data p' b) = Some k}"
  shows "pool_ok D' p' xs'"
proof -
  have "cache_wf (bstore p') (cached_block_hash_to_block p')"
    using wf ids by (subst cache_wf_cong [of _ "bstore p"]) (simp_all add: data_sel)
  moreover have "num_gpu_blocks p' = num_gpu_blocks p" "null_block p' = null_block p"
    using cfg by (simp_all add: cfg_def)
  ultimately show ?thesis
    using assms valid_blk_cfg [OF cfg] unfolding pool_ok_def by (simp add: data_sel)
qed

lemma pool_ok_data:
  assumes "pool_ok D p xs"
  shows "b \<in> set xs \<longleftrightarrow> valid_blk p b \<and> b \<noteq> Blk 0 \<and> ref_cnt (data p b) = 0 \<and> b \<notin> D"
    and "cset (cached_block_hash_to_block p) k = {b. valid_blk p b \<and> block_hash (data p b) = Some k}"
    and "0 < i \<Longrightarrow> 0 \<le> ref_cnt (data p (Blk i))" and "block_hash (data p (Blk 0)) = None"
    and "is_null (data p (Blk i)) = (i = 0)" and "block_id (data p (Blk i)) = int i"
  using assms by (auto simp: pool_ok_def data_sel)

text \<open>A change of reference counts and of the free list only.\<close>

lemma pool_ok_refs:
  assumes ok: "pool_ok D p xs" and "cfg p' = cfg p" and cache: "cached_block_hash_to_block p' = cached_block_hash_to_block p"
    and "fq_repr (free_block_queue p') xs'"
    and data: "\<And>b. data p' b = (data p b)\<lparr>ref_cnt := f b\<rparr>" and "\<And>i. 0 < i \<Longrightarrow> 0 \<le> f (Blk i)"
    and "\<And>b. b \<in> set xs' \<longleftrightarrow> valid_blk p b \<and> b \<noteq> Blk 0 \<and> f b = 0 \<and> b \<notin> D'"
  shows "pool_ok D' p' xs'"
  by (rule pool_okI [OF ok]) (simp_all add: assms pool_ok_data [OF ok] pool_okD(6) [OF ok])

section \<open>Eviction\<close>

definition evict_event :: "block_pool \<Rightarrow> blk \<Rightarrow> kv_event list" where
  "evict_event p b =
     (case block_hash (bstore p b) of
        None \<Rightarrow> []
      | Some k \<Rightarrow> if enable_kv_cache_events p
                  then [BlockRemoved [maybe_convert_block_hash (use_int_block_hashes p) (get_block_hash k)]] else [])"

lemma maybe_evict_spec:
  assumes ok: "pool_ok D p xs" and b: "valid_blk p b"
  shows "\<exists>p'. maybe_evict_cached_block b p = (block_hash (bstore p b) \<noteq> None, p') \<and> pool_ok D p' xs \<and> cfg p' = cfg p \<and>
    data p' = (data p)(b := (data p b)\<lparr>block_hash := None\<rparr>) \<and>
    kv_event_queue p' = kv_event_queue p @ evict_event p b"
proof (cases "block_hash (bstore p b)")
  case None
  then have "(data p b)\<lparr>block_hash := None\<rparr> = data p b" by (simp add: data_sel)
  then show ?thesis using None ok by (simp add: maybe_evict_cached_block_def evict_event_def)
next
  case (Some k)
  note D = pool_okD [OF ok]
  have mem: "b \<in> cset (cached_block_hash_to_block p) k" using D(5) b Some by simp
  have inj: "ids_inj (bstore p) (insert b (cset (cached_block_hash_to_block p) k))"
    using D(5) b by (intro pool_ids_inj [OF ok]) auto
  obtain c where pop: "pop_block (bstore p) k (block_id (bstore p b)) (cached_block_hash_to_block p) = (Some b, c)"
    and c: "cset c = (cset (cached_block_hash_to_block p))(k := cset (cached_block_hash_to_block p) k - {b})"
    and wf: "cache_wf (bstore p) c"
    using pop_block_cset [OF D(6) inj mem] by blast
  define p1 where "p1 = upd_block b reset_hash (p\<lparr>cached_block_hash_to_block := c\<rparr>)"
  define p' where "p' = (if enable_kv_cache_events p then p1\<lparr>kv_event_queue := kv_event_queue p1 @
      [BlockRemoved [maybe_convert_block_hash (use_int_block_hashes p) (get_block_hash k)]]\<rparr> else p1)"
  have run: "maybe_evict_cached_block b p = (True, p')"
    using Some pop by (simp add: maybe_evict_cached_block_def p'_def p1_def)
  have st: "bstore p' = (bstore p)(b := (bstore p b)\<lparr>block_hash := None\<rparr>)"
    by (simp add: p'_def p1_def reset_hash_def)
  have data: "data p' = (data p)(b := (data p b)\<lparr>block_hash := None\<rparr>)"
    by (simp add: data_def [abs_def] st payload_def fun_eq_iff)
  have cfg: "cfg p' = cfg p" and cache: "cached_block_hash_to_block p' = c"
    by (simp_all add: p'_def p1_def)
  have fq: "fq_repr (free_block_queue p') xs" using D(1) fq_repr_upd_block [of reset_hash b "p\<lparr>cached_block_hash_to_block := c\<rparr>" xs]
    by (simp add: p'_def p1_def reset_hash_def)
  have "pool_ok D p' xs"
    by (rule pool_okI [OF ok cfg fq])
      (use pool_ok_data [OF ok] Some wf in \<open>auto simp: data cache c data_sel\<close>)
  then show ?thesis using run data cfg Some by (auto simp: evict_event_def p'_def p1_def)
qed

lemma alloc_block_spec:
  assumes ok: "pool_ok D p xs" and b: "valid_blk p b" "b \<noteq> Blk 0" "b \<in> D" "ref_cnt (bstore p b) = 0"
  shows "\<exists>p'. alloc_block b p = Inr p' \<and> pool_ok (D - {b}) p' xs \<and> cfg p' = cfg p \<and>
    data p' = (data p)(b := (data p b)\<lparr>ref_cnt := 1, block_hash := if enable_caching p then None else block_hash (data p b)\<rparr>) \<and>
    kv_event_queue p' = kv_event_queue p @ (if enable_caching p then evict_event p b else [])"
proof -
  define p1 where "p1 = (if enable_caching p then snd (maybe_evict_cached_block b p) else p)"
  have p1: "pool_ok D p1 xs \<and> cfg p1 = cfg p \<and>
      data p1 = (data p)(b := (data p b)\<lparr>block_hash := if enable_caching p then None else block_hash (data p b)\<rparr>) \<and>
      kv_event_queue p1 = kv_event_queue p @ (if enable_caching p then evict_event p b else [])"
    using maybe_evict_spec [OF ok b(1)] ok by (auto simp: p1_def)
  have zero: "ref_cnt (bstore p1 b) = 0" using p1 b(4) by (simp add: data_sel)
  define p' where "p' = upd_block b (\<lambda>x. x\<lparr>ref_cnt := ref_cnt x + 1\<rparr>) p1"
  have data: "data p' = (data p1)(b := (data p1 b)\<lparr>ref_cnt := 1\<rparr>)"
    using zero by (simp add: data_def [abs_def] p'_def payload_def fun_eq_iff)
  have ok1: "pool_ok D p1 xs" using p1 by simp
  have fq: "fq_repr (free_block_queue p') xs" using pool_okD(1) [OF ok1] by (simp add: p'_def fq_repr_upd_block)
  have refs: "data p' c = (data p1 c)\<lparr>ref_cnt := if c = b then 1 else ref_cnt (data p1 c)\<rparr>" for c
    by (simp add: data)
  have "pool_ok (D - {b}) p' xs"
    by (rule pool_ok_refs [OF ok1 _ _ fq refs]) (use pool_ok_data(1,3) [OF ok1] b(3) in \<open>auto simp: p'_def\<close>)
  moreover have "alloc_block b p = Inr p'" using zero by (simp add: alloc_block_def p1_def [symmetric] p'_def)
  moreover note data
  ultimately show ?thesis using p1 by (auto simp: p'_def)
qed

section \<open>Allocation\<close>

definition allocated :: "bool \<Rightarrow> kv_block \<Rightarrow> kv_block" where
  "allocated caching x = x\<lparr>ref_cnt := 1, block_hash := if caching then None else block_hash x\<rparr>"

lemma evict_event_cong:
  "data p' b = data p b \<Longrightarrow> cfg p' = cfg p \<Longrightarrow> evict_event p' b = evict_event p b"
  by (simp add: evict_event_def cfg_def data_sel split: option.split)

lemma alloc_loop_spec:
  assumes "pool_ok D p xs" and "distinct bs" and "set bs \<subseteq> D"
    and "\<forall>b\<in>set bs. valid_blk p b \<and> b \<noteq> Blk 0 \<and> ref_cnt (data p b) = 0"
  shows "\<exists>p'. rfold alloc_block bs p = Inr p' \<and> pool_ok (D - set bs) p' xs \<and> cfg p' = cfg p \<and>
    data p' = (\<lambda>b. if b \<in> set bs then allocated (enable_caching p) (data p b) else data p b) \<and>
    kv_event_queue p' = kv_event_queue p @ (if enable_caching p then concat (map (evict_event p) bs) else [])"
  using assms
proof (induction bs arbitrary: D p)
  case (Cons b bs)
  obtain p1 where p1: "alloc_block b p = Inr p1" "pool_ok (D - {b}) p1 xs" "cfg p1 = cfg p"
    "data p1 = (data p)(b := allocated (enable_caching p) (data p b))"
    "kv_event_queue p1 = kv_event_queue p @ (if enable_caching p then evict_event p b else [])"
    using alloc_block_spec [OF Cons.prems(1), of b] Cons.prems by (auto simp: data_sel allocated_def)
  have caching: "enable_caching p1 = enable_caching p" using p1(3) by (simp add: cfg_def)
  have "\<forall>c\<in>set bs. valid_blk p1 c \<and> c \<noteq> Blk 0 \<and> ref_cnt (data p1 c) = 0"
    using Cons.prems(2,4) by (auto simp: p1(4) valid_blk_cfg [OF p1(3)])
  then obtain p' where p': "rfold alloc_block bs p1 = Inr p'" "pool_ok (D - {b} - set bs) p' xs" "cfg p' = cfg p1"
    "data p' = (\<lambda>c. if c \<in> set bs then allocated (enable_caching p1) (data p1 c) else data p1 c)"
    "kv_event_queue p' = kv_event_queue p1 @ (if enable_caching p1 then concat (map (evict_event p1) bs) else [])"
    using Cons.IH [OF p1(2)] Cons.prems(2,3) by auto
  have ev: "map (evict_event p1) bs = map (evict_event p) bs"
    using Cons.prems(2) by (intro map_cong refl evict_event_cong) (auto simp: p1(4) p1(3))
  have "data p' = (\<lambda>c. if c \<in> set (b # bs) then allocated (enable_caching p) (data p c) else data p c)"
    using Cons.prems(2) by (auto simp: p'(4) p1(4) caching fun_eq_iff)
  moreover have "D - {b} - set bs = D - set (b # bs)" by auto
  moreover have "kv_event_queue p' = kv_event_queue p @
      (if enable_caching p then concat (map (evict_event p) (b # bs)) else [])"
    using p'(5) p1(5) unfolding ev caching by simp
  ultimately show ?case using p1(1,3) p'(1-3) by auto
qed auto

lemma popleft_n_pool:
  assumes ok: "pool_inv p xs" and n: "0 \<le> n" "n \<le> int (length xs)"
  shows "\<exists>q. popleft_n n (free_block_queue p) = Inr (take (nat n) xs, q) \<and>
    pool_ok (set (take (nat n) xs)) (p\<lparr>free_block_queue := q\<rparr>) (drop (nat n) xs) \<and>
    data (p\<lparr>free_block_queue := q\<rparr>) = data p"
proof -
  let ?ys = "take (nat n) xs" and ?zs = "drop (nat n) xs"
  have repr: "fq_repr (free_block_queue p) (?ys @ ?zs)" using pool_okD(1) [OF ok] by simp
  have len: "int (length ?ys) = n" using n by simp
  obtain q where q: "popleft_n n (free_block_queue p) = Inr (?ys, q)" "fq_repr q ?zs" "payload_eq (free_block_queue p) q"
    using popleft_n_repr [OF repr] len by auto
  have data: "data (p\<lparr>free_block_queue := q\<rparr>) = data p"
    using q(3) by (simp add: data_def [abs_def] payload_eq_def bstore_def)
  have "distinct (?ys @ ?zs)" using repr by (simp add: fq_repr_def)
  then have dist: "set ?ys \<inter> set ?zs = {}" by (simp only: distinct_append)
  have "set xs = set ?ys \<union> set ?zs" by (metis append_take_drop_id set_append)
  then have "pool_ok (set ?ys) (p\<lparr>free_block_queue := q\<rparr>) ?zs"
    using dist q(2) pool_ok_data(1,3) [OF ok]
    by (intro pool_ok_refs [OF ok, of _ _ "\<lambda>b. ref_cnt (data p b)"]) (auto simp: data)
  then show ?thesis using q(1) data by blast
qed

lemma pool_get_new_blocks_spec:
  assumes ok: "pool_inv p xs" and n: "0 \<le> n" "n \<le> int (length xs)"
  defines "bs \<equiv> take (nat n) xs"
  shows "\<exists>p'. get_new_blocks n p = Inr (bs, p') \<and> pool_inv p' (drop (nat n) xs) \<and> cfg p' = cfg p \<and>
    data p' = (\<lambda>b. if b \<in> set bs then allocated (enable_caching p) (data p b) else data p b) \<and>
    kv_event_queue p' = kv_event_queue p @ (if enable_caching p then concat (map (evict_event p) bs) else [])"
proof -
  obtain q where q: "popleft_n n (free_block_queue p) = Inr (bs, q)"
    "pool_ok (set bs) (p\<lparr>free_block_queue := q\<rparr>) (drop (nat n) xs)" "data (p\<lparr>free_block_queue := q\<rparr>) = data p"
    using popleft_n_pool [OF ok n] by (auto simp: bs_def)
  let ?p = "p\<lparr>free_block_queue := q\<rparr>"
  have sub: "set bs \<subseteq> set xs" by (simp add: bs_def set_take_subset)
  have "distinct bs" using pool_okD(1) [OF ok] by (simp add: bs_def fq_repr_def)
  moreover have "\<forall>b\<in>set bs. valid_blk ?p b \<and> b \<noteq> Blk 0 \<and> ref_cnt (data ?p b) = 0"
    using sub pool_ok_data(1) [OF ok] by (auto simp: q(3) valid_blk_cfg [of ?p p])
  ultimately obtain p' where p': "rfold alloc_block bs ?p = Inr p'" "pool_ok (set bs - set bs) p' (drop (nat n) xs)"
    "cfg p' = cfg ?p" "data p' = (\<lambda>b. if b \<in> set bs then allocated (enable_caching ?p) (data ?p b) else data ?p b)"
    "kv_event_queue p' = kv_event_queue ?p @ (if enable_caching ?p then concat (map (evict_event ?p) bs) else [])"
    using alloc_loop_spec [OF q(2)] by blast
  have ev: "map (evict_event ?p) bs = map (evict_event p) bs"
    by (intro map_cong refl evict_event_cong) (simp_all only: q(3) cfg_updates)
  have caching: "enable_caching ?p = enable_caching p" "kv_event_queue ?p = kv_event_queue p" by simp_all
  have "get_new_blocks n p = Inr (bs, p')"
    using n(2) q(1) p'(1) pool_okD(7) [OF ok] by (simp add: get_new_blocks_def)
  then show ?thesis using p'(2-) unfolding ev caching q(3) by simp
qed

section \<open>Touching and freeing\<close>

lemma touch_block_spec:
  assumes ok: "pool_inv p xs" and b: "valid_blk p b"
  shows "\<exists>p'. touch_block b p = Inr p' \<and> pool_inv p' (removeAll b xs) \<and> cfg p' = cfg p \<and>
    kv_event_queue p' = kv_event_queue p \<and>
    data p' = (data p)(b := (data p b)\<lparr>ref_cnt := ref_cnt (data p b) + 1\<rparr>)"
proof -
  obtain i where i: "b = Blk i" using b by (auto simp: valid_blk_def)
  note ok' = pool_ok_data [OF ok]
  have dist: "distinct xs" using pool_okD(1) [OF ok] by (simp add: fq_repr_def)
  have in_list: "b \<in> set xs \<longleftrightarrow> ref_cnt (bstore p b) = 0 \<and> \<not> is_null (bstore p b)"
    using ok'(1) [of b] b ok'(5) [of i] i by (auto simp: data_sel)
  obtain p1 where p1: "(if ref_cnt (bstore p b) = 0 \<and> \<not> is_null (bstore p b)
        then rbind (remove_block b (free_block_queue p)) (\<lambda>q. Inr (p\<lparr>free_block_queue := q\<rparr>)) else Inr p) = Inr p1"
    and fq: "fq_repr (free_block_queue p1) (removeAll b xs)" and same: "data p1 = data p" "cfg p1 = cfg p"
      "cached_block_hash_to_block p1 = cached_block_hash_to_block p" "kv_event_queue p1 = kv_event_queue p"
  proof (cases "b \<in> set xs")
    case True
    then obtain ys zs where xs: "xs = ys @ b # zs" by (meson split_list)
    then have rem: "removeAll b xs = ys @ zs" using dist by simp
    obtain q where q: "remove_block b (free_block_queue p) = Inr q" "fq_repr q (ys @ zs)" "payload_eq (free_block_queue p) q"
      using remove_repr [of "free_block_queue p" ys b zs] pool_okD(1) [OF ok] xs by auto
    show ?thesis
      using that [of "p\<lparr>free_block_queue := q\<rparr>"] q in_list True rem
      by (simp add: data_def [abs_def] payload_eq_def bstore_def)
  next
    case False
    then show ?thesis using that [of p] in_list pool_okD(1) [OF ok] by auto
  qed
  let ?p = "upd_block b (\<lambda>x. x\<lparr>ref_cnt := ref_cnt x + 1\<rparr>) p1"
  have data: "data ?p = (data p)(b := (data p b)\<lparr>ref_cnt := ref_cnt (data p b) + 1\<rparr>)"
    unfolding same(1) [symmetric] by (simp add: data_def [abs_def] payload_def fun_eq_iff)
  have "pool_inv ?p (removeAll b xs)"
  proof (rule pool_ok_refs [OF ok, of _ _ "\<lambda>c. if c = b then ref_cnt (data p b) + 1 else ref_cnt (data p c)"])
    show "fq_repr (free_block_queue ?p) (removeAll b xs)" using fq by (simp add: fq_repr_upd_block)
    show "c \<in> set (removeAll b xs) \<longleftrightarrow> valid_blk p c \<and> c \<noteq> Blk 0 \<and>
        (if c = b then ref_cnt (data p b) + 1 else ref_cnt (data p c)) = 0 \<and> c \<notin> {}" for c
      using ok'(1) [of c] ok'(3) [of i] i by auto
    show "0 \<le> (if Blk j = b then ref_cnt (data p b) + 1 else ref_cnt (data p (Blk j)))" if "0 < j" for j
      using ok'(3) [OF that] by auto
  qed (simp_all add: data same)
  moreover have "touch_block b p = Inr ?p" using p1 by (simp add: touch_block_def)
  ultimately show ?thesis using data same by auto
qed

lemma touch_spec:
  assumes "pool_inv p xs" and "\<forall>b\<in>set bs. valid_blk p b"
  shows "\<exists>p'. touch bs p = Inr p' \<and> pool_inv p' (filter (\<lambda>b. b \<notin> set bs) xs) \<and> cfg p' = cfg p \<and>
    kv_event_queue p' = kv_event_queue p \<and>
    data p' = (\<lambda>b. (data p b)\<lparr>ref_cnt := ref_cnt (data p b) + int (count_list bs b)\<rparr>)"
  using assms unfolding touch_def
proof (induction bs arbitrary: p xs)
  case Nil
  then show ?case by simp
next
  case (Cons b bs)
  obtain p1 where p1: "touch_block b p = Inr p1" "pool_inv p1 (removeAll b xs)" "cfg p1 = cfg p"
    "kv_event_queue p1 = kv_event_queue p" "data p1 = (data p)(b := (data p b)\<lparr>ref_cnt := ref_cnt (data p b) + 1\<rparr>)"
    using touch_block_spec [OF Cons.prems(1)] Cons.prems(2) by fastforce
  obtain p' where p': "rfold touch_block bs p1 = Inr p'" "pool_inv p' (filter (\<lambda>b. b \<notin> set bs) (removeAll b xs))"
    "cfg p' = cfg p1" "kv_event_queue p' = kv_event_queue p1"
    "data p' = (\<lambda>b. (data p1 b)\<lparr>ref_cnt := ref_cnt (data p1 b) + int (count_list bs b)\<rparr>)"
    using Cons.IH [OF p1(2)] Cons.prems(2) by (auto simp: valid_blk_cfg [OF p1(3)])
  have "filter (\<lambda>b. b \<notin> set bs) (removeAll b xs) = filter (\<lambda>c. c \<notin> set (b # bs)) xs"
    by (auto simp: removeAll_filter_not_eq intro: filter_cong)
  moreover have "data p' = (\<lambda>c. (data p c)\<lparr>ref_cnt := ref_cnt (data p c) + int (count_list (b # bs) c)\<rparr>)"
    by (auto simp: p'(5) p1(5) fun_eq_iff)
  ultimately show ?case using p1 p' by simp
qed

lemma dec_loop:
  fixes p bs
  defines "p1 \<equiv> fold (\<lambda>b. upd_block b (\<lambda>x. x\<lparr>ref_cnt := ref_cnt x - 1\<rparr>)) bs p"
  shows "data p1 = (\<lambda>b. (data p b)\<lparr>ref_cnt := ref_cnt (data p b) - int (count_list bs b)\<rparr>)" and "cfg p1 = cfg p"
    and "cached_block_hash_to_block p1 = cached_block_hash_to_block p" and "kv_event_queue p1 = kv_event_queue p"
    and "fq_repr (free_block_queue p1) xs = fq_repr (free_block_queue p) xs"
proof -
  let ?f = "\<lambda>b. upd_block b (\<lambda>x. x\<lparr>ref_cnt := ref_cnt x - 1\<rparr>)"
  have one: "data (?f b p) = (data p)(b := (data p b)\<lparr>ref_cnt := ref_cnt (data p b) - 1\<rparr>)" for b p
    by (simp add: data_def [abs_def] payload_def fun_eq_iff)
  have "data (fold ?f bs p) = (\<lambda>b. (data p b)\<lparr>ref_cnt := ref_cnt (data p b) - int (count_list bs b)\<rparr>) \<and>
      cfg (fold ?f bs p) = cfg p \<and>
      cached_block_hash_to_block (fold ?f bs p) = cached_block_hash_to_block p \<and>
      kv_event_queue (fold ?f bs p) = kv_event_queue p \<and>
      fq_repr (free_block_queue (fold ?f bs p)) xs = fq_repr (free_block_queue p) xs"
  proof (induction bs arbitrary: p)
    case (Cons b bs)
    show ?case using Cons [of "?f b p"] by (auto simp: one fun_eq_iff fq_repr_upd_block)
  qed simp
  then show "data p1 = (\<lambda>b. (data p b)\<lparr>ref_cnt := ref_cnt (data p b) - int (count_list bs b)\<rparr>)" "cfg p1 = cfg p"
    "cached_block_hash_to_block p1 = cached_block_hash_to_block p" "kv_event_queue p1 = kv_event_queue p"
    "fq_repr (free_block_queue p1) xs = fq_repr (free_block_queue p) xs"
    by (simp_all add: p1_def)
qed

text \<open>The blocks a caller may hand back: allocated, and no real block twice.\<close>

definition freeable :: "block_pool \<Rightarrow> blk list \<Rightarrow> bool" where
  "freeable p bs \<longleftrightarrow> (\<forall>b\<in>set bs. valid_blk p b \<and> (b \<noteq> Blk 0 \<longrightarrow> 0 < ref_cnt (data p b))) \<and>
     distinct (filter (\<lambda>b. b \<noteq> Blk 0) bs)"

lemma count_distinct_filter:
  assumes "distinct (filter P bs)" and "P b"
  shows "count_list bs b = (if b \<in> set bs then 1 else 0)"
  using assms by (induction bs) (auto simp: count_list_0_iff split: if_splits)

lemma free_blocks_pool_spec:
  assumes ok: "pool_inv p xs" and fr: "freeable p bs"
  shows "\<exists>p'. free_blocks bs p = Inr p' \<and>
    pool_inv p' (xs @ filter (\<lambda>b. b \<noteq> Blk 0 \<and> ref_cnt (data p b) = 1) bs) \<and> cfg p' = cfg p \<and>
    kv_event_queue p' = kv_event_queue p \<and>
    data p' = (\<lambda>b. (data p b)\<lparr>ref_cnt := ref_cnt (data p b) - int (count_list bs b)\<rparr>)"
proof -
  define p1 where "p1 = fold (\<lambda>b. upd_block b (\<lambda>x. x\<lparr>ref_cnt := ref_cnt x - 1\<rparr>)) bs p"
  note p1 = dec_loop [of bs p, folded p1_def]
  note ok' = pool_ok_data [OF ok]
  let ?ys = "filter (\<lambda>b. b \<noteq> Blk 0 \<and> ref_cnt (data p b) = 1) bs"
  have cnt: "count_list bs b = (if b \<in> set bs then 1 else 0)" if "b \<noteq> Blk 0" for b
    using fr that count_distinct_filter [of "\<lambda>b. b \<noteq> Blk 0" bs b] by (simp add: freeable_def)
  have null: "is_null (data p b) = (b = Blk 0)" if "b \<in> set bs" for b
    using fr that ok'(5) by (auto simp: freeable_def valid_blk_def)
  have filt: "filter (\<lambda>b. ref_cnt (bstore p1 b) = 0 \<and> \<not> is_null (bstore p1 b)) bs = ?ys"
    by (rule filter_cong) (auto simp: data_sel p1(1) null cnt)
  have sub: "\<forall>b\<in>set ?ys. real_block b" using fr by (auto simp: freeable_def valid_blk_def)
  have dist: "distinct ?ys"
    using fr distinct_filter [of "filter (\<lambda>b. b \<noteq> Blk 0) bs" "\<lambda>b. ref_cnt (data p b) = 1"]
    by (simp add: freeable_def conj_commute)
  have new: "set ?ys \<inter> set xs = {}" by (auto simp: ok'(1))
  obtain q where q: "append_n ?ys (free_block_queue p1) = Inr q" "fq_repr q (xs @ ?ys)" "payload_eq (free_block_queue p1) q"
    using append_n_repr [of "free_block_queue p1" xs ?ys] p1(5) pool_okD(1) [OF ok] dist sub new by auto
  let ?p = "p1\<lparr>free_block_queue := q\<rparr>"
  have "data ?p = data p1" using q(3) by (simp add: data_def [abs_def] payload_eq_def bstore_def)
  then have data: "data ?p = (\<lambda>b. (data p b)\<lparr>ref_cnt := ref_cnt (data p b) - int (count_list bs b)\<rparr>)"
    by (simp only: p1(1))
  have "pool_inv ?p (xs @ ?ys)"
  proof (rule pool_ok_refs [OF ok, of _ _ "\<lambda>b. ref_cnt (data p b) - int (count_list bs b)"])
    show "c \<in> set (xs @ ?ys) \<longleftrightarrow> valid_blk p c \<and> c \<noteq> Blk 0 \<and> ref_cnt (data p c) - int (count_list bs c) = 0 \<and> c \<notin> {}" for c
      using ok'(1) [of c] fr cnt [of c] by (cases "c \<in> set bs") (auto simp: freeable_def)
    show "0 \<le> ref_cnt (data p (Blk i)) - int (count_list bs (Blk i))" if "0 < i" for i
      using ok'(3) [OF that] fr cnt [of "Blk i"] that by (auto simp: freeable_def)
  qed (simp_all add: p1 q data)
  moreover have "free_blocks bs p = Inr ?p"
    using q(1) filt by (simp add: free_blocks_def p1_def [symmetric])
  ultimately show ?thesis using data p1 by auto
qed

section \<open>Caching\<close>

definition key_of :: "int \<Rightarrow> bytes \<Rightarrow> bytes" where
  "key_of gid h = h @ be4 gid"

definition group_id_ok :: "int \<Rightarrow> bool" where
  "group_id_ok gid \<longleftrightarrow> 0 \<le> gid \<and> gid < 2 ^ 32"

lemma make_key: "group_id_ok gid \<Longrightarrow> make_block_hash_with_group_id h gid = Inr (key_of gid h)"
  by (simp add: make_block_hash_with_group_id_def group_id_ok_def key_of_def)

lemma key_of_inj: "group_id_ok g \<Longrightarrow> group_id_ok g' \<Longrightarrow> key_of g h = key_of g' h' \<longleftrightarrow> g = g' \<and> h = h'"
  using pack_inj make_key by metis

text \<open>The blocks that receive a hash, with the hash.\<close>

definition tagged :: "int \<Rightarrow> bytes list \<Rightarrow> blk list \<Rightarrow> blk \<rightharpoonup> bytes" where
  "tagged gid hs bs = map_of (filter (\<lambda>(b, _). b \<noteq> Blk 0) (zip bs (map (key_of gid) hs)))"

definition tag :: "(blk \<rightharpoonup> bytes) \<Rightarrow> (blk \<Rightarrow> kv_block) \<Rightarrow> blk \<Rightarrow> kv_block" where
  "tag t d = (\<lambda>b. case t b of None \<Rightarrow> d b | Some k \<Rightarrow> (d b)\<lparr>block_hash := Some k\<rparr>)"

lemma tagged_nth:
  assumes "distinct (filter (\<lambda>b. b \<noteq> Blk 0) bs)" and "i < length bs" and "i < length hs" and "bs ! i \<noteq> Blk 0"
  shows "tagged gid hs bs (bs ! i) = Some (key_of gid (hs ! i))"
  using assms
proof (induction bs arbitrary: i hs)
  case (Cons b bs)
  then obtain h hs' where "hs = h # hs'" by (cases hs) auto
  with Cons show ?case by (cases i) (auto simp: tagged_def split: if_splits)
qed simp

lemma cache_one_spec:
  assumes ok: "pool_inv p xs" and b: "valid_blk p b" "b \<noteq> Blk 0" "block_hash (data p b) = None"
    and i: "i < length hs" and gid: "group_id_ok gid"
  shows "\<exists>nh' p'. cache_one_block hs gid (i, b) (nh, p) = Inr (nh', p') \<and> pool_inv p' xs \<and> cfg p' = cfg p \<and>
    kv_event_queue p' = kv_event_queue p \<and>
    nh' = (if enable_kv_cache_events p then nh @ [maybe_convert_block_hash (use_int_block_hashes p) (hs ! i)] else nh) \<and>
    data p' = (data p)(b := (data p b)\<lparr>block_hash := Some (key_of gid (hs ! i))\<rparr>)"
proof -
  note ok' = pool_ok_data [OF ok] and D = pool_okD [OF ok]
  let ?k = "key_of gid (hs ! i)"
  define p1 where "p1 = upd_block b (\<lambda>x. x\<lparr>block_hash := Some ?k\<rparr>) p"
  let ?c = "insert_block (bstore p1) ?k b (cached_block_hash_to_block p)"
  let ?p = "p1\<lparr>cached_block_hash_to_block := ?c\<rparr>"
  have st: "bstore p1 = (bstore p)(b := (bstore p b)\<lparr>block_hash := Some ?k\<rparr>)" by (simp add: p1_def)
  have ids: "block_id (bstore p1 c) = block_id (bstore p c)" for c by (simp add: st)
  have "ids_inj (bstore p) (insert b (cset (cached_block_hash_to_block p) ?k))"
    using b(1) by (intro pool_ids_inj [OF ok]) (auto simp: D(5))
  then have inj: "ids_inj (bstore p1) (insert b (cset (cached_block_hash_to_block p) ?k))"
    by (simp add: ids_inj_def ids)
  have same_wf: "cache_wf (bstore p1) c = cache_wf (bstore p) c" for c by (rule cache_wf_cong) (simp add: ids)
  have wf1: "cache_wf (bstore p1) (cached_block_hash_to_block p)" using D(6) by (simp add: same_wf)
  note ins = insert_block_cset [OF wf1 inj]
  obtain j where "b = Blk j" using b(1) unfolding valid_blk_def by blast
  then have null: "\<not> is_null (bstore p b)" using b(2) D(3) [of j] by simp
  have data: "data ?p = (data p)(b := (data p b)\<lparr>block_hash := Some ?k\<rparr>)"
    by (simp add: data_def [abs_def] st payload_def fun_eq_iff)
  have wf: "cache_wf (bstore p) ?c" using ins(2) by (simp add: same_wf)
  have fq: "fq_repr (free_block_queue ?p) xs" using D(1) by (simp add: p1_def fq_repr_upd_block)
  have cfg: "cfg ?p = cfg p" by (simp add: p1_def)
  have "pool_inv ?p xs"
    by (rule pool_okI [OF ok cfg fq]) (use ok' b wf in \<open>auto simp: data ins(1)\<close>)
  moreover have "cache_one_block hs gid (i, b) (nh, p) = Inr
      (if enable_kv_cache_events p then nh @ [maybe_convert_block_hash (use_int_block_hashes p) (hs ! i)] else nh, ?p)"
    using null b(3) i by (simp add: cache_one_block_def make_key [OF gid] py_index_nth set_block_hash_def data_sel p1_def Let_def
        upd_block_def)
  ultimately show ?thesis using data cfg by (auto simp: p1_def)
qed

lemma cache_loop_spec:
  assumes "pool_inv p xs" and "distinct (filter (\<lambda>b. b \<noteq> Blk 0) bs)"
    and "\<forall>b\<in>set bs. valid_blk p b \<and> block_hash (data p b) = None"
    and "k + length bs \<le> length hs" and gid: "group_id_ok gid"
  shows "\<exists>nh' p'. rfold (cache_one_block hs gid) (enumerate k bs) (nh, p) = Inr (nh', p') \<and> pool_inv p' xs \<and>
    cfg p' = cfg p \<and> kv_event_queue p' = kv_event_queue p \<and> data p' = tag (tagged gid (drop k hs) bs) (data p) \<and>
    nh' = (if enable_kv_cache_events p
           then nh @ map (\<lambda>(b, h). maybe_convert_block_hash (use_int_block_hashes p) h)
                       (filter (\<lambda>(b, h). b \<noteq> Blk 0) (zip bs (drop k hs)))
           else nh)"
  using assms(1-4)
proof (induction bs arbitrary: p k nh)
  case Nil
  then show ?case by (simp add: tagged_def tag_def)
next
  case (Cons b bs)
  have drop: "drop k hs = hs ! k # drop (Suc k) hs" using Cons.prems(4) by (simp add: Cons_nth_drop_Suc)
  show ?case
  proof (cases "b = Blk 0")
    case True
    then have "is_null (bstore p b)" using pool_okD(3) [OF Cons.prems(1), of 0] by simp
    then have "cache_one_block hs gid (k, b) (nh, p) = Inr (nh, p)" by (simp add: cache_one_block_def)
    then show ?thesis using Cons.IH [of p "Suc k" nh] Cons.prems True by (auto simp: tagged_def drop)
  next
    case False
    obtain nh1 p1 where p1: "cache_one_block hs gid (k, b) (nh, p) = Inr (nh1, p1)" "pool_inv p1 xs" "cfg p1 = cfg p"
      "kv_event_queue p1 = kv_event_queue p"
      "nh1 = (if enable_kv_cache_events p then nh @ [maybe_convert_block_hash (use_int_block_hashes p) (hs ! k)] else nh)"
      "data p1 = (data p)(b := (data p b)\<lparr>block_hash := Some (key_of gid (hs ! k))\<rparr>)"
      using cache_one_spec [OF Cons.prems(1) _ False _ _ gid, of k hs nh] Cons.prems(3,4) by auto
    have fresh: "b \<notin> set bs" using Cons.prems(2) False by auto
    have pre: "\<forall>c\<in>set bs. valid_blk p1 c \<and> block_hash (data p1 c) = None" "k + 1 + length bs \<le> length hs"
      "distinct (filter (\<lambda>b. b \<noteq> Blk 0) bs)"
      using Cons.prems(2-4) fresh False by (auto simp: p1(6) valid_blk_cfg [OF p1(3)])
    obtain nh' p' where p': "rfold (cache_one_block hs gid) (enumerate (Suc k) bs) (nh1, p1) = Inr (nh', p')" "pool_inv p' xs"
      "cfg p' = cfg p1" "kv_event_queue p' = kv_event_queue p1" "data p' = tag (tagged gid (drop (Suc k) hs) bs) (data p1)"
      "nh' = (if enable_kv_cache_events p1
           then nh1 @ map (\<lambda>(b, h). maybe_convert_block_hash (use_int_block_hashes p1) h)
                       (filter (\<lambda>(b, h). b \<noteq> Blk 0) (zip bs (drop (Suc k) hs)))
           else nh1)"
      using Cons.IH [OF p1(2) pre(3,1), of "Suc k" nh1] pre(2) by auto
    have none: "tagged gid (drop (Suc k) hs) bs b = None"
      using fresh by (auto simp: tagged_def map_of_eq_None_iff dest: set_zip_leftD)
    have "tagged gid (drop k hs) (b # bs) = (tagged gid (drop (Suc k) hs) bs)(b \<mapsto> key_of gid (hs ! k))"
      using False by (simp add: tagged_def drop)
    then have "data p' = tag (tagged gid (drop k hs) (b # bs)) (data p)"
      using none by (auto simp: p'(5) p1(6) tag_def fun_eq_iff split: option.split)
    moreover have "enable_kv_cache_events p1 = enable_kv_cache_events p" "use_int_block_hashes p1 = use_int_block_hashes p"
      using p1(3) by (simp_all add: cfg_def)
    ultimately show ?thesis using p1(1,3-5) p'(1-4,6) False by (simp add: drop)
  qed
qed

text \<open>The request's hashes at the group's block size.\<close>

definition group_hashes :: "int \<Rightarrow> int \<Rightarrow> bytes list \<Rightarrow> bytes list" where
  "group_hashes hb block_size hs =
     (if block_size = hb then hs
      else let f = nat (block_size div hb) in map (\<lambda>i. concat (take f (drop (i * f) hs))) [0..<length hs div f])"

definition block_size_ok :: "int \<Rightarrow> int \<Rightarrow> bool" where
  "block_size_ok hb block_size \<longleftrightarrow> 0 < hb \<and> 0 < block_size \<and> block_size mod hb = 0"

lemma group_hashes_length:
  assumes "block_size_ok hb block_size"
  shows "length (group_hashes hb block_size hs) \<le> length hs"
  by (simp add: group_hashes_def Let_def)

lemma hashes_at_spec:
  assumes ok: "block_size_ok (hash_block_size p) block_size"
  defines "gh \<equiv> group_hashes (hash_block_size p) block_size"
  shows "\<exists>hl. hashes_at_block_size p hs block_size = Inr hl \<and> (\<forall>k. hl_from hl (int k) = Inr (drop k (gh hs))) \<and>
    (\<forall>i<length (gh hs). hl_at hl (int i) = Inr (gh hs ! i))"
proof (cases "block_size = hash_block_size p")
  case True
  then show ?thesis by (simp add: hashes_at_block_size_def gh_def group_hashes_def hl_from_def hl_at_def
        py_from_nonneg py_index_nth)
next
  case False
  define hb f where "hb = nat (hash_block_size p)" and "f = nat (block_size div hash_block_size p)"
  have pos: "0 < hash_block_size p" "0 < block_size" "block_size mod hash_block_size p = 0"
    using ok by (simp_all add: block_size_ok_def)
  then have split: "block_size = block_size div hash_block_size p * hash_block_size p" by (metis add_0_right div_mult_mod_eq)
  then have "0 < block_size div hash_block_size p" using pos by (metis zero_less_mult_pos2)
  then have hb: "0 < hb" "int hb = hash_block_size p" and f: "0 < f" and size: "int (f * hb) = block_size"
    using pos split by (simp_all add: hb_def f_def)
  obtain v where v: "BlockHashListWithBlockSize hs (hash_block_size p) block_size = Inr v"
    "\<forall>i<length hs div f. hv_get_value_at v (int i) = Inr (concat (take f (drop (i * f) hs)))"
    "\<forall>k. hv_from v (int k) = Inr (map (\<lambda>i. concat (take f (drop (i * f) hs))) [k..<length hs div f])"
    using hash_view_spec [OF hb(1) f, of hs] unfolding size hb(2) by blast
  have gh: "gh hs = map (\<lambda>i. concat (take f (drop (i * f) hs))) [0..<length hs div f]"
    using False by (simp add: gh_def group_hashes_def f_def Let_def)
  have "hashes_at_block_size p hs block_size = Inr (View v)"
    using False pos v(1) by (simp add: hashes_at_block_size_def)
  then show ?thesis using v(2,3) by (auto simp: gh hl_from_def hl_at_def drop_map)
qed

text \<open>The extra keys of a request without images, adapters and embeddings.\<close>

lemma extra_keys_loop_text:
  assumes r: "text_request r" and bs: "0 < bs" and len: "n \<le> length blocks"
  shows "extra_keys_loop digest p r blocks (int bs) (map int [k..<n]) mm =
    Inr (map (block_keys (cache_salt r)) (filter (\<lambda>i. \<not> is_null (bstore p (blocks ! i))) [k..<n]))"
proof (induction "n - k" arbitrary: k)
  case (Suc m)
  then have "k < n" by simp
  then have list: "[k..<n] = k # [Suc k..<n]" by (rule upt_conv_Cons)
  show ?case using Suc(1) [of "Suc k"] Suc(2) len \<open>k < n\<close> extra_keys_text [OF r bs, of digest k mm]
    by (simp add: list py_index_nth del: upt_Suc)
qed simp

text \<open>What caching the blocks \<open>m..<n\<close> of a request asks for.\<close>

definition cacheable :: "block_pool \<Rightarrow> request \<Rightarrow> blk list \<Rightarrow> nat \<Rightarrow> nat \<Rightarrow> int \<Rightarrow> int \<Rightarrow> bool" where
  "cacheable p r blocks m n block_size gid \<longleftrightarrow>
     text_request r \<and> block_size_ok (hash_block_size p) block_size \<and> group_id_ok gid \<and>
     n \<le> length blocks \<and> n \<le> length (group_hashes (hash_block_size p) block_size (block_hashes r)) \<and>
     (\<forall>b\<in>set (take (n - m) (drop m blocks)). valid_blk p b \<and> block_hash (data p b) = None) \<and>
     distinct (filter (\<lambda>b. b \<noteq> Blk 0) (take (n - m) (drop m blocks)))"

lemma cache_full_blocks_spec:
  assumes ok: "pool_inv p xs" and c: "cacheable p r blocks m n block_size gid"
  defines "hs \<equiv> group_hashes (hash_block_size p) block_size (block_hashes r)"
    and "new \<equiv> take (n - m) (drop m blocks)"
  shows "\<exists>p'. cache_full_blocks digest r blocks (int m) (int n) block_size gid p = Inr p' \<and> pool_inv p' xs \<and>
    cfg p' = cfg p \<and> data p' = tag (tagged gid (drop m hs) new) (data p) \<and>
    (\<exists>ev. kv_event_queue p' = kv_event_queue p @ ev \<and> (ev = [] \<longleftrightarrow> \<not> (m < n \<and> enable_kv_cache_events p)))"
proof (cases "m < n")
  case False
  then show ?thesis using ok by (simp add: cache_full_blocks_def new_def tagged_def tag_def)
next
  case True
  have r: "text_request r" and bok: "block_size_ok (hash_block_size p) block_size" and gid: "group_id_ok gid"
    and len: "n \<le> length blocks" "n \<le> length hs" and new: "\<forall>b\<in>set new. valid_blk p b \<and> block_hash (data p b) = None"
      "distinct (filter (\<lambda>b. b \<noteq> Blk 0) new)"
    using c by (simp_all add: cacheable_def hs_def new_def)
  obtain hl where hl: "hashes_at_block_size p (block_hashes r) block_size = Inr hl"
    "\<forall>k. hl_from hl (int k) = Inr (drop k hs)" "\<forall>i<length hs. hl_at hl (int i) = Inr (hs ! i)"
    using hashes_at_spec [OF bok, of "block_hashes r"] by (auto simp: hs_def)
  have slice: "py_slice blocks (int m) (int n) = new" by (simp add: py_slice_nonneg new_def nat_diff_distrib')
  have lnew: "length new \<le> length (drop m hs)" using len True by (simp add: new_def)
  obtain nh p1 where p1: "rfold (cache_one_block (drop m hs) gid) (enumerate 0 new) ([], p) = Inr (nh, p1)" "pool_inv p1 xs"
    "cfg p1 = cfg p" "kv_event_queue p1 = kv_event_queue p" "data p1 = tag (tagged gid (drop m hs) new) (data p)"
    using cache_loop_spec [OF ok new(2,1) _ gid, of 0 "drop m hs" "[]"] lnew by auto
  have enough: "int n \<le> int (length (block_hashes r))"
    using len(2) group_hashes_length [OF bok, of "block_hashes r"] by (simp add: hs_def)
  show ?thesis
  proof (cases "enable_kv_cache_events p")
    case False
    then show ?thesis using p1 hl enough True by (simp add: cache_full_blocks_def slice)
  next
    case ev: True
    let ?keys = "map (block_keys (cache_salt r)) (filter (\<lambda>i. \<not> is_null (bstore p1 (blocks ! i))) [m..<n])"
    have "int (nat block_size) = block_size" "0 < nat block_size" using bok by (simp_all add: block_size_ok_def)
    then have keys: "extra_keys_loop digest p1 r blocks block_size [int m..int n - 1] 0 = Inr ?keys"
      using extra_keys_loop_text [OF r, of "nat block_size" n blocks digest p1 m 0] len(1) by (simp add: upto_map_int)
    obtain par where par: "(if int m = 0 then Inr None
            else rbind (hl_at hl (int m - 1))
                   (\<lambda>h. Inr (Some (maybe_convert_block_hash (use_int_block_hashes p1) h)))) = Inr par"
    proof (cases m)
      case (Suc i)
      then have "hl_at hl (int m - 1) = Inr (hs ! i)" using hl(3) True len(2) by simp
      then show ?thesis using that Suc by auto
    qed (use that in auto)
    obtain p' e where p': "stored_event digest r blocks (int m) (int n) block_size hl nh p1 = Inr p'"
      "p' = p1\<lparr>kv_event_queue := kv_event_queue p1 @ [e]\<rparr>"
      unfolding stored_event_def par keys by auto
    have "pool_inv p' xs" using p1(2) unfolding p'(2) pool_ok_def by (simp add: bstore_def valid_blk_def [abs_def])
    moreover have "data p' = data p1" "cfg p' = cfg p1" unfolding p'(2) by (simp_all add: data_def [abs_def])
    moreover have "cache_full_blocks digest r blocks (int m) (int n) block_size gid p = Inr p'"
      using p1 hl enough True ev p'(1) by (simp add: cache_full_blocks_def slice)
    ultimately show ?thesis using p1 p'(2) True ev by auto
  qed
qed

section \<open>Initialisation, eviction by id, reset and lookup\<close>

lemma BlockPool_spec:
  assumes n: "0 < n"
  shows "\<exists>p. BlockPool n caching hbs events use_int = Inr p \<and> pool_inv p (map Blk [1..<nat n]) \<and>
    cfg p = (n, caching, hbs, Blk 0, events, use_int) \<and> kv_event_queue p = [] \<and>
    (\<forall>i. data p (Blk i) = (KVCacheBlock (int i))\<lparr>is_null := (i = 0)\<rparr>)"
proof -
  let ?h = "\<lambda>b. case b of Blk i \<Rightarrow> KVCacheBlock (int i) | _ \<Rightarrow> KVCacheBlock (- 1)"
  have list: "map Blk [0..<nat n] = Blk 0 # map Blk [1..<nat n]" using n by (simp add: upt_conv_Cons)
  have "fq_repr (FreeKVCacheBlockQueue (map Blk [0..<nat n]) ?h) (map Blk [0..<nat n])"
    by (rule init_repr) (auto simp: distinct_map inj_on_def real_block_def unlinked_def KVCacheBlock_def split: blk.split)
  then have repr: "fq_repr (FreeKVCacheBlockQueue (map Blk [0..<nat n]) ?h) (Blk 0 # map Blk [1..<nat n])"
    unfolding list .
  obtain q where q: "popleft (FreeKVCacheBlockQueue (map Blk [0..<nat n]) ?h) = Inr (Blk 0, q)"
    "fq_repr q (map Blk [1..<nat n])" "payload_eq (FreeKVCacheBlockQueue (map Blk [0..<nat n]) ?h) q"
    using popleft_repr [OF repr] by blast
  define p0 where "p0 = \<lparr>num_gpu_blocks = n, enable_caching = caching, hash_block_size = hbs, free_block_queue = q,
      cached_block_hash_to_block = Map.empty, null_block = Blk 0, enable_kv_cache_events = events,
      use_int_block_hashes = use_int, kv_event_queue = []\<rparr>"
  define p where "p = upd_block (Blk 0) (\<lambda>b. b\<lparr>is_null := True\<rparr>) p0"
  have run: "BlockPool n caching hbs events use_int = Inr p"
    using n q(1) by (simp add: BlockPool_def p_def p0_def)
  have fields: "cfg p = (n, caching, hbs, Blk 0, events, use_int)" "kv_event_queue p = []" "num_gpu_blocks p = n"
    "null_block p = Blk 0" "cached_block_hash_to_block p = Map.empty"
    by (simp_all add: p_def cfg_def p0_def)
  have old: "payload (store q (Blk i)) = KVCacheBlock (int i)" for i
    using q(3) init_payload [of "map Blk [0..<nat n]" "Blk i" ?h]
    by (simp add: payload_eq_def distinct_map inj_on_def real_block_def) (simp add: payload_def KVCacheBlock_def)
  have data: "data p (Blk i) = (KVCacheBlock (int i))\<lparr>is_null := (i = 0)\<rparr>" for i
  proof -
    have "bstore p0 = store q" by (simp add: p0_def bstore_def)
    moreover have "payload (x\<lparr>is_null := v\<rparr>) = (payload x)\<lparr>is_null := v\<rparr>" for x :: kv_block and v
      by (simp add: payload_def)
    ultimately show ?thesis using old [of i] by (cases i) (simp_all add: data_def p_def KVCacheBlock_def)
  qed
  have "fq_repr (free_block_queue p) (map Blk [1..<nat n])"
    using q(2) by (simp add: fq_repr_upd_block p_def) (simp add: p0_def)
  then have "pool_inv p (map Blk [1..<nat n])"
    using n by (auto simp: pool_ok_def data_sel data valid_blk_def KVCacheBlock_def cache_wf_def fields image_iff)
  then show ?thesis using run data fields by auto
qed

lemma evict_blocks_spec:
  assumes "pool_ok D p xs" and "\<forall>i\<in>set ids. 0 \<le> i \<and> i < num_gpu_blocks p"
  shows "\<exists>p' ev. evict_blocks ids p = Inr p' \<and> pool_ok D p' xs \<and> cfg p' = cfg p \<and>
    kv_event_queue p' = kv_event_queue p @ ev \<and>
    data p' = (\<lambda>b. if b \<in> Blk ` nat ` set ids then (data p b)\<lparr>block_hash := None\<rparr> else data p b)"
  using assms unfolding evict_blocks_def
proof (induction ids arbitrary: p)
  case Nil
  then show ?case by simp
next
  case (Cons i ids)
  let ?b = "Blk (nat i)"
  have i: "0 \<le> i" "i < num_gpu_blocks p" using Cons.prems(2) by simp_all
  then have valid: "valid_blk p ?b" and at: "block_at p i = Inr ?b"
    by (auto simp: valid_blk_def block_at_def py_index_nth)
  obtain p1 where p1: "snd (maybe_evict_cached_block ?b p) = p1" "pool_ok D p1 xs" "cfg p1 = cfg p"
    "data p1 = (data p)(?b := (data p ?b)\<lparr>block_hash := None\<rparr>)" "kv_event_queue p1 = kv_event_queue p @ evict_event p ?b"
    using maybe_evict_spec [OF Cons.prems(1) valid] by auto
  have "num_gpu_blocks p1 = num_gpu_blocks p" using p1(3) by (simp add: cfg_def)
  then obtain p' ev where p': "rfold evict_block_id ids p1 = Inr p'" "pool_ok D p' xs" "cfg p' = cfg p1"
    "kv_event_queue p' = kv_event_queue p1 @ ev"
    "data p' = (\<lambda>b. if b \<in> Blk ` nat ` set ids then (data p1 b)\<lparr>block_hash := None\<rparr> else data p1 b)"
    using Cons.IH [OF p1(2)] Cons.prems(2) by auto
  have "data p' = (\<lambda>b. if b \<in> Blk ` nat ` set (i # ids) then (data p b)\<lparr>block_hash := None\<rparr> else data p b)"
    by (auto simp: p'(5) p1(4) fun_eq_iff)
  moreover have "evict_block_id i p = Inr p1" using i at p1(1) by (simp add: evict_block_id_def)
  ultimately show ?case using p1(3,5) p'(1-4) by simp
qed

lemma conservation:
  assumes "pool_inv p xs"
  shows "int (length xs) + int (card {b. valid_blk p b \<and> b \<noteq> Blk 0 \<and> 0 < ref_cnt (data p b)}) = num_gpu_blocks p - 1"
    (is "_ + int (card ?U) = _")
proof -
  note ok' = pool_ok_data [OF assms]
  let ?A = "Blk ` {1..<nat (num_gpu_blocks p)}"
  have n: "0 < num_gpu_blocks p" and dist: "distinct xs" using assms by (simp_all add: pool_ok_def fq_repr_def)
  have all: "valid_blk p b \<and> b \<noteq> Blk 0 \<longleftrightarrow> b \<in> ?A" for b
    by (auto simp: valid_blk_def image_iff)
  have pos: "ref_cnt (data p b) = 0 \<or> 0 < ref_cnt (data p b)" if b: "b \<in> ?A" for b
  proof -
    obtain i where "b = Blk i" "0 < i" using b by (elim imageE) simp
    then show ?thesis using ok'(3) [of i] by auto
  qed
  have xs: "set xs = {b \<in> ?A. ref_cnt (data p b) = 0}" using ok'(1) all by blast
  have U: "?U = {b \<in> ?A. 0 < ref_cnt (data p b)}" using all by blast
  have "set xs \<union> ?U = ?A" unfolding xs U using pos by blast
  moreover have "set xs \<inter> ?U = {}" unfolding xs U by fastforce
  moreover have "finite ?U" by (simp add: U)
  ultimately have "card (set xs) + card ?U = card ?A" using card_Un_disjoint [of "set xs" ?U] by simp
  moreover have "card ?A = nat (num_gpu_blocks p) - 1" by (simp add: card_image inj_on_def)
  ultimately show ?thesis using n dist by (simp add: distinct_card)
qed


lemma reset_loop:
  fixes p bs
  defines "p1 \<equiv> fold (\<lambda>b. upd_block b reset_hash) bs p"
  shows "data p1 = (\<lambda>b. if b \<in> set bs then (data p b)\<lparr>block_hash := None\<rparr> else data p b)" and "cfg p1 = cfg p"
    and "cached_block_hash_to_block p1 = cached_block_hash_to_block p" and "kv_event_queue p1 = kv_event_queue p"
    and "fq_repr (free_block_queue p1) xs = fq_repr (free_block_queue p) xs"
proof -
  have one: "data (upd_block b reset_hash p) = (data p)(b := (data p b)\<lparr>block_hash := None\<rparr>)" for b p
    by (simp add: data_def [abs_def] payload_def fun_eq_iff reset_hash_def)
  have link: "fq_repr (free_block_queue (upd_block b reset_hash p)) xs = fq_repr (free_block_queue p) xs" for b p
    by (rule fq_repr_upd_block) (simp add: reset_hash_def)
  have "data (fold (\<lambda>b. upd_block b reset_hash) bs p) =
        (\<lambda>b. if b \<in> set bs then (data p b)\<lparr>block_hash := None\<rparr> else data p b) \<and>
      cfg (fold (\<lambda>b. upd_block b reset_hash) bs p) = cfg p \<and>
      cached_block_hash_to_block (fold (\<lambda>b. upd_block b reset_hash) bs p) = cached_block_hash_to_block p \<and>
      kv_event_queue (fold (\<lambda>b. upd_block b reset_hash) bs p) = kv_event_queue p \<and>
      fq_repr (free_block_queue (fold (\<lambda>b. upd_block b reset_hash) bs p)) xs = fq_repr (free_block_queue p) xs"
  proof (induction bs arbitrary: p)
    case (Cons b bs)
    show ?case using Cons [of "upd_block b reset_hash p"] by (auto simp: one link fun_eq_iff)
  qed simp
  then show "data p1 = (\<lambda>b. if b \<in> set bs then (data p b)\<lparr>block_hash := None\<rparr> else data p b)" "cfg p1 = cfg p"
    "cached_block_hash_to_block p1 = cached_block_hash_to_block p" "kv_event_queue p1 = kv_event_queue p"
    "fq_repr (free_block_queue p1) xs = fq_repr (free_block_queue p) xs"
    by (simp_all add: p1_def)
qed

lemma pool_ok_events: "pool_ok D (p\<lparr>kv_event_queue := e\<rparr>) xs = pool_ok D p xs" and data_events: "data (p\<lparr>kv_event_queue := e\<rparr>) = data p"
  by (simp_all add: pool_ok_def bstore_def valid_blk_def [abs_def] data_def [abs_def])

lemma reset_spec:
  assumes ok: "pool_inv p xs" and free: "num_gpu_blocks p - get_num_free_blocks p = 1"
  shows "\<exists>p'. reset_prefix_cache p = (True, p') \<and> pool_inv p' xs \<and> cfg p' = cfg p \<and>
    kv_event_queue p' = kv_event_queue p @ (if enable_kv_cache_events p then [AllBlocksCleared] else []) \<and>
    data p' = (\<lambda>b. if valid_blk p b then (data p b)\<lparr>block_hash := None\<rparr> else data p b)"
proof -
  note ok' = pool_ok_data [OF ok]
  define p2 where "p2 = fold (\<lambda>b. upd_block b reset_hash) (map Blk [0..<nat (num_gpu_blocks p)])
      (p\<lparr>cached_block_hash_to_block := Map.empty\<rparr>)"
  note p2 = reset_loop [of "map Blk [0..<nat (num_gpu_blocks p)]" "p\<lparr>cached_block_hash_to_block := Map.empty\<rparr>", folded p2_def]
  have valid: "b \<in> set (map Blk [0..<nat (num_gpu_blocks p)]) \<longleftrightarrow> valid_blk p b" for b
    by (auto simp: valid_blk_def image_iff)
  have "data (p\<lparr>cached_block_hash_to_block := Map.empty\<rparr>) = data p" by (simp add: data_def [abs_def])
  then have data: "data p2 = (\<lambda>b. if valid_blk p b then (data p b)\<lparr>block_hash := None\<rparr> else data p b)"
    using p2(1) by (simp only: valid)
  have "cfg p2 = cfg p" "fq_repr (free_block_queue p2) xs" "cached_block_hash_to_block p2 = Map.empty"
    using p2(2,3,5) pool_okD(1) [OF ok] by simp_all
  then have "pool_inv p2 xs"
    using ok' by (intro pool_okI [OF ok]) (auto simp: data cache_wf_def)
  then show ?thesis
    using free p2(2,4) data by (auto simp: reset_prefix_cache_def p2_def [symmetric] Let_def pool_ok_events data_events)
qed

lemma cached_blocks_loop_spec:
  assumes ok: "pool_ok D p xs" and "\<forall>g\<in>set gids. group_id_ok g"
  shows "\<exists>r. cached_blocks_loop p h gids = Inr r \<and>
    (case r of
       None \<Rightarrow> \<exists>g\<in>set gids. \<forall>b. valid_blk p b \<longrightarrow> block_hash (data p b) \<noteq> Some (key_of g h)
     | Some bs \<Rightarrow> list_all2 (\<lambda>g b. valid_blk p b \<and> b \<noteq> Blk 0 \<and> block_hash (data p b) = Some (key_of g h)) gids bs)"
  using assms(2)
proof (induction gids)
  case (Cons g gids)
  obtain ob where ob: "get_one_block (cached_block_hash_to_block p) (key_of g h) = Inr ob"
    "case ob of None \<Rightarrow> cset (cached_block_hash_to_block p) (key_of g h) = {}
     | Some b \<Rightarrow> b \<in> cset (cached_block_hash_to_block p) (key_of g h)"
    using get_one_block_cset [OF pool_okD(6) [OF ok]] by blast
  have key: "make_block_hash_with_group_id h g = Inr (key_of g h)" using Cons.prems by (simp add: make_key)
  note cs = pool_ok_data(2,4) [OF ok]
  show ?case
  proof (cases ob)
    case None
    then show ?thesis using ob key cs(1) [of "key_of g h"] by auto
  next
    case (Some b)
    then have b: "valid_blk p b" "block_hash (data p b) = Some (key_of g h)" "b \<noteq> Blk 0"
      using ob(2) cs by auto
    obtain r where r: "cached_blocks_loop p h gids = Inr r"
      "case r of
         None \<Rightarrow> \<exists>g\<in>set gids. \<forall>b. valid_blk p b \<longrightarrow> block_hash (data p b) \<noteq> Some (key_of g h)
       | Some bs \<Rightarrow> list_all2 (\<lambda>g b. valid_blk p b \<and> b \<noteq> Blk 0 \<and> block_hash (data p b) = Some (key_of g h)) gids bs"
      using Cons by auto
    then have run: "cached_blocks_loop p h (g # gids) = Inr (map_option ((#) b) r)" using ob key Some by simp
    show ?thesis unfolding run using r(2) b by (cases r) auto
  qed
qed simp

section \<open>Reachable pools\<close>

text \<open>The calls a client may make: it touches blocks of the pool, frees blocks it holds, caches
  blocks that carry no hash yet and evicts ids of the pool.\<close>

inductive pool_step :: "block_pool \<Rightarrow> block_pool \<Rightarrow> bool" where
  Get: "0 \<le> n \<Longrightarrow> get_new_blocks n p = Inr (bs, p') \<Longrightarrow> pool_step p p'"
| Touch: "\<forall>b\<in>set bs. valid_blk p b \<Longrightarrow> touch bs p = Inr p' \<Longrightarrow> pool_step p p'"
| Free: "freeable p bs \<Longrightarrow> free_blocks bs p = Inr p' \<Longrightarrow> pool_step p p'"
| Cache: "cacheable p r blocks m n block_size gid \<Longrightarrow>
    cache_full_blocks digest r blocks (int m) (int n) block_size gid p = Inr p' \<Longrightarrow> pool_step p p'"
| Evict: "\<forall>i\<in>set ids. 0 \<le> i \<Longrightarrow> evict_blocks ids p = Inr p' \<Longrightarrow> pool_step p p'"
| Reset: "reset_prefix_cache p = (success, p') \<Longrightarrow> pool_step p p'"
| Events: "take_events p = (evs, p') \<Longrightarrow> pool_step p p'"

lemma get_new_blocks_too_many:
  assumes "pool_inv p xs" and "int (length xs) < n"
  shows "get_new_blocks n p = Inl ValueError"
  using assms pool_okD(7) [OF assms(1)] by (simp add: get_new_blocks_def)

lemma evict_blocks_bounds:
  assumes "evict_blocks ids p = Inr p'"
  shows "\<forall>i\<in>set ids. i < num_gpu_blocks p"
  using assms unfolding evict_blocks_def
proof (induction ids arbitrary: p)
  case (Cons i ids)
  from Cons.prems obtain p1 where p1: "evict_block_id i p = Inr p1" "rfold evict_block_id ids p1 = Inr p'"
    by (auto simp: rbind_eq_Inr_iff)
  from p1(1) obtain b where i: "i < num_gpu_blocks p" and "p1 = snd (maybe_evict_cached_block b p)"
    by (auto simp: evict_block_id_def rbind_eq_Inr_iff rassert_eq_Inr_iff)
  then have "num_gpu_blocks p1 = num_gpu_blocks p"
    by (auto simp: maybe_evict_cached_block_def Let_def split: option.split prod.split)
  then show ?case using i Cons.IH [OF p1(2)] by simp
qed simp

lemma pool_step_inv:
  assumes "pool_step p p'" and ok: "pool_inv p xs"
  shows "\<exists>xs'. pool_inv p' xs' \<and> cfg p' = cfg p"
  using assms(1)
proof cases
  case (Get n bs)
  have "n \<le> int (length xs)" using get_new_blocks_too_many [OF ok, of n] Get(2) by (cases "int (length xs) < n") auto
  then show ?thesis using pool_get_new_blocks_spec [OF ok Get(1)] Get(2) by auto
next
  case (Touch bs)
  then show ?thesis using touch_spec [OF ok Touch(1)] by auto
next
  case (Free bs)
  then show ?thesis using free_blocks_pool_spec [OF ok Free(1)] by auto
next
  case (Cache r blocks m n block_size gid digest)
  then show ?thesis using cache_full_blocks_spec [OF ok Cache(1), of digest] by auto
next
  case (Evict ids)
  then show ?thesis using evict_blocks_spec [OF ok, of ids] evict_blocks_bounds [OF Evict(2)] by auto
next
  case (Reset success)
  then show ?thesis using reset_spec [OF ok] ok
    by (cases "num_gpu_blocks p - get_num_free_blocks p = 1") (auto simp: reset_prefix_cache_def)
next
  case (Events evs)
  then have "p' = p \<or> p' = p\<lparr>kv_event_queue := []\<rparr>" by (auto simp: take_events_def split: if_splits)
  then show ?thesis using ok by (auto simp: pool_ok_events)
qed

lemma pool_steps_inv:
  assumes "pool_step\<^sup>*\<^sup>* p p'" and "pool_inv p xs"
  shows "\<exists>xs'. pool_inv p' xs' \<and> cfg p' = cfg p"
  using assms(1)
proof (induction rule: rtranclp_induct)
  case base
  then show ?case using assms(2) by blast
next
  case (step p1 p2)
  then show ?case using pool_step_inv by metis
qed

section \<open>Properties\<close>

text \<open>C27. Allocation from a pool with free list \<open>xs\<close>: asking for more blocks than are free raises
  \<open>ValueError\<close>; otherwise the first \<open>n\<close> blocks of the free list come back in order, each with
  reference count 1 and, when caching is on, without its old hash, one removal event per evicted
  hash is queued in that order, every other block keeps its data, the rest of the free list
  stays, and the pool invariant holds again.\<close>

theorem pool_get_new_blocks_contract:
  assumes "pool_inv p xs" and "0 \<le> n"
  shows "(int (length xs) < n \<longrightarrow> get_new_blocks n p = Inl ValueError) \<and>
    (n \<le> int (length xs) \<longrightarrow> (\<exists>p'. get_new_blocks n p = Inr (take (nat n) xs, p') \<and> pool_inv p' (drop (nat n) xs) \<and>
       cfg p' = cfg p \<and>
       (\<forall>b. data p' b = (if b \<in> set (take (nat n) xs)
          then (data p b)\<lparr>ref_cnt := 1, block_hash := if enable_caching p then None else block_hash (data p b)\<rparr>
          else data p b)) \<and>
       kv_event_queue p' = kv_event_queue p @
         (if enable_caching p then concat (map (evict_event p) (take (nat n) xs)) else [])))"
  using get_new_blocks_too_many [OF assms(1)] pool_get_new_blocks_spec [OF assms]
  by (auto simp: allocated_def)

text \<open>C3. Over every sequence of pool operations from a fresh pool of \<open>n\<close> blocks: the free queue is a
  list without repetitions that holds exactly the unreferenced blocks other than the null block,
  free and referenced blocks together are \<open>n - 1\<close>, no count is negative, the null block is never
  cached, and the cache maps a key to exactly the blocks that carry it.\<close>

theorem reachable_pool_invariant:
  assumes "BlockPool n caching hbs events use_int = Inr p0" and "pool_step\<^sup>*\<^sup>* p0 p"
  shows "\<exists>xs. get_all_free_blocks (free_block_queue p) = Some (Inr xs) \<and> distinct xs \<and>
    set xs = {b. valid_blk p b \<and> b \<noteq> null_block p \<and> ref_cnt (bstore p b) = 0} \<and>
    get_num_free_blocks p = int (length xs) \<and>
    get_num_free_blocks p + int (card {b. valid_blk p b \<and> b \<noteq> null_block p \<and> 0 < ref_cnt (bstore p b)}) = n - 1 \<and>
    (\<forall>b. valid_blk p b \<and> b \<noteq> null_block p \<longrightarrow> 0 \<le> ref_cnt (bstore p b)) \<and>
    block_hash (bstore p (null_block p)) = None \<and>
    (\<forall>k. cset (cached_block_hash_to_block p) k = {b. valid_blk p b \<and> block_hash (bstore p b) = Some k})"
proof -
  have n: "0 < n" using assms(1) by (auto simp: BlockPool_def rassert_eq_Inr_iff)
  then have "pool_inv p0 (map Blk [1..<nat n])" "num_gpu_blocks p0 = n"
    using BlockPool_spec [of n caching hbs events use_int] assms(1) by (auto simp: cfg_def)
  then obtain xs where ok: "pool_inv p xs" and np: "num_gpu_blocks p = n"
    using pool_steps_inv [OF assms(2)] by (auto simp: cfg_def)
  have null: "null_block p = Blk 0" and pos: "\<forall>b. valid_blk p b \<and> b \<noteq> Blk 0 \<longrightarrow> 0 \<le> ref_cnt (bstore p b)"
    using ok by (auto simp: pool_ok_def valid_blk_def)
  have "get_all_free_blocks (free_block_queue p) = Some (Inr xs)" "distinct xs"
    using pool_okD(1) [OF ok] get_all_free_blocks_repr by (auto simp: fq_repr_def)
  moreover have "set xs = {b. valid_blk p b \<and> b \<noteq> Blk 0 \<and> ref_cnt (bstore p b) = 0}" using pool_okD(4) [OF ok] by blast
  moreover have "block_hash (bstore p (Blk 0)) = None" using ok by (simp add: pool_ok_def)
  ultimately show ?thesis
    unfolding null using conservation [OF ok] pool_okD(5,7) [OF ok] pos by (auto simp: np data_sel)
qed

text \<open>C16. A prefix cache lookup raises nothing; it returns one block per group, in the order of the
  groups, each a block of the pool other than the null block that carries the looked up hash for
  that group; and it misses only when for some group no block of the pool carries it.\<close>

theorem cached_lookup_sound_and_complete:
  assumes "pool_inv p xs" and "\<forall>g\<in>set gids. 0 \<le> g \<and> g < 2 ^ 32"
  shows "\<exists>r. get_cached_block p h gids = Inr r \<and>
    (case r of
       None \<Rightarrow> \<exists>g\<in>set gids. \<forall>b k. make_block_hash_with_group_id h g = Inr k \<longrightarrow> valid_blk p b \<longrightarrow>
                 block_hash (bstore p b) \<noteq> Some k
     | Some bs \<Rightarrow> list_all2 (\<lambda>g b. valid_blk p b \<and> b \<noteq> null_block p \<and> (\<exists>k. make_block_hash_with_group_id h g = Inr k \<and>
                 block_hash (bstore p b) = Some k)) gids bs)"
proof -
  have gids: "\<forall>g\<in>set gids. group_id_ok g" and null: "null_block p = Blk 0"
    using assms by (auto simp: group_id_ok_def pool_ok_def)
  obtain r where r: "get_cached_block p h gids = Inr r"
    "case r of
       None \<Rightarrow> \<exists>g\<in>set gids. \<forall>b. valid_blk p b \<longrightarrow> block_hash (data p b) \<noteq> Some (key_of g h)
     | Some bs \<Rightarrow> list_all2 (\<lambda>g b. valid_blk p b \<and> b \<noteq> Blk 0 \<and> block_hash (data p b) = Some (key_of g h)) gids bs"
    using cached_blocks_loop_spec [OF assms(1) gids] by (auto simp: get_cached_block_def)
  show ?thesis
  proof (cases r)
    case None
    then obtain g where g: "g \<in> set gids" "\<forall>b. valid_blk p b \<longrightarrow> block_hash (data p b) \<noteq> Some (key_of g h)"
      using r(2) by auto
    moreover have "make_block_hash_with_group_id h g = Inr (key_of g h)" using g(1) gids by (simp add: make_key)
    ultimately show ?thesis using r(1) None by (auto simp: data_sel intro!: bexI [of _ g])
  next
    case (Some bs)
    have "list_all2 (\<lambda>g b. valid_blk p b \<and> b \<noteq> null_block p \<and> (\<exists>k. make_block_hash_with_group_id h g = Inr k \<and>
                 block_hash (bstore p b) = Some k)) gids bs"
      by (rule list.rel_mono_strong [of "\<lambda>g b. valid_blk p b \<and> b \<noteq> Blk 0 \<and> block_hash (data p b) = Some (key_of g h)"])
        (use r(2) Some gids in \<open>auto simp: null data_sel make_key\<close>)
    then show ?thesis using r(1) Some by auto
  qed
qed

text \<open>C22. Caching the full blocks \<open>m..<n\<close> of a request changes no reference count and no free list,
  skips null blocks, and afterwards a lookup of the hash of every cached block hits a block that
  carries that hash for the group; hashes the pool knew before are still found.\<close>

theorem cached_blocks_are_found:
  assumes "pool_inv p xs" and "cacheable p r blocks m n block_size gid"
  shows "\<exists>p'. cache_full_blocks digest r blocks (int m) (int n) block_size gid p = Inr p' \<and> pool_inv p' xs \<and>
    (\<forall>b. ref_cnt (data p' b) = ref_cnt (data p b)) \<and>
    (\<forall>i. m \<le> i \<and> i < n \<and> blocks ! i \<noteq> null_block p \<longrightarrow>
       (let h = group_hashes (hash_block_size p) block_size (block_hashes r) ! i
        in block_hash (data p' (blocks ! i)) = Some (key_of gid h) \<and>
           (\<exists>b. get_cached_block p' h [gid] = Inr (Some [b]) \<and> block_hash (data p' b) = Some (key_of gid h)))) \<and>
    (\<forall>b k. block_hash (data p b) = Some k \<and> valid_blk p b \<longrightarrow> block_hash (data p' b) = Some k)"
proof -
  let ?hs = "group_hashes (hash_block_size p) block_size (block_hashes r)" and ?new = "take (n - m) (drop m blocks)"
  let ?t = "tagged gid (drop m ?hs) ?new"
  obtain p' where p': "cache_full_blocks digest r blocks (int m) (int n) block_size gid p = Inr p'" "pool_inv p' xs"
    "cfg p' = cfg p" "data p' = tag ?t (data p)"
    using cache_full_blocks_spec [OF assms] by blast
  have c: "n \<le> length blocks" "n \<le> length ?hs" "group_id_ok gid" "distinct (filter (\<lambda>b. b \<noteq> Blk 0) ?new)"
    "\<forall>b\<in>set ?new. block_hash (data p b) = None"
    using assms(2) by (simp_all add: cacheable_def)
  have null: "null_block p = Blk 0" using assms(1) by (simp add: pool_ok_def)
  have hit: "block_hash (data p' (blocks ! i)) = Some (key_of gid (?hs ! i))" if i: "m \<le> i" "i < n" "blocks ! i \<noteq> Blk 0" for i
    using tagged_nth [of ?new "i - m" "drop m ?hs" gid] i c by (simp add: p'(4) tag_def)
  have found: "\<exists>b. get_cached_block p' h [gid] = Inr (Some [b]) \<and> block_hash (data p' b) = Some (key_of gid h)"
    if "block_hash (data p' b0) = Some (key_of gid h)" "valid_blk p' b0" for h b0
    using cached_blocks_loop_spec [OF p'(2), of "[gid]" h] that c(3)
    by (auto simp: get_cached_block_def list_all2_Cons1 split: option.splits)
  have valid: "valid_blk p' (blocks ! i)" if "m \<le> i" "i < n" for i
  proof -
    have "?new ! (i - m) \<in> set ?new" using that c(1) by (intro nth_mem) simp
    then show ?thesis using assms(2) that c(1) by (auto simp: cacheable_def valid_blk_cfg [OF p'(3)])
  qed
  have keep: "block_hash (data p' b) = Some k" if "block_hash (data p b) = Some k" for b k
    using that c(5) by (auto simp: p'(4) tag_def tagged_def dest!: map_of_SomeD set_zip_leftD split: option.split)
  have "ref_cnt (data p' b) = ref_cnt (data p b)" for b by (simp add: p'(4) tag_def split: option.split)
  then show ?thesis
    using p'(1,2) hit keep found [OF hit valid] unfolding null Let_def by blast
qed

text \<open>C28. A prefix cache hit and the later release of its blocks: touching blocks and then freeing them
  restores every reference count and every hash, so the blocks stay cached, and those that were
  free move to the back of the free list, behind all others, to be evicted last.\<close>

theorem touch_then_free_renews:
  assumes "pool_inv p xs" and "\<forall>b\<in>set bs. valid_blk p b \<and> b \<noteq> null_block p" and "distinct bs"
  shows "\<exists>p1 p2. touch bs p = Inr p1 \<and> pool_inv p1 (filter (\<lambda>b. b \<notin> set bs) xs) \<and>
    (\<forall>b\<in>set bs. ref_cnt (data p1 b) = ref_cnt (data p b) + 1) \<and>
    free_blocks bs p1 = Inr p2 \<and> data p2 = data p \<and>
    pool_inv p2 (filter (\<lambda>b. b \<notin> set bs) xs @ filter (\<lambda>b. b \<in> set xs) bs)"
proof -
  have null: "null_block p = Blk 0" using assms(1) by (simp add: pool_ok_def)
  note bs = assms(2) [unfolded null]
  have cnt: "count_list bs b = (if b \<in> set bs then 1 else 0)" for b
    using assms(3) count_distinct_filter [of "\<lambda>_. True" bs b] by simp
  obtain p1 where p1: "touch bs p = Inr p1" "pool_inv p1 (filter (\<lambda>b. b \<notin> set bs) xs)" "cfg p1 = cfg p"
    "data p1 = (\<lambda>b. (data p b)\<lparr>ref_cnt := ref_cnt (data p b) + int (count_list bs b)\<rparr>)"
    using touch_spec [OF assms(1)] bs by blast
  have nonneg: "0 \<le> ref_cnt (data p b)" if "b \<in> set bs" for b
  proof -
    have "valid_blk p b" "b \<noteq> Blk 0" using bs that by simp_all
    then show ?thesis using pool_ok_data(3) [OF assms(1)] by (auto simp: valid_blk_def)
  qed
  have fr: "freeable p1 bs"
    using bs assms(3) nonneg by (auto simp: freeable_def p1(4) cnt valid_blk_cfg [OF p1(3)] order_le_less_trans)
  obtain p2 where p2: "free_blocks bs p1 = Inr p2"
    "pool_inv p2 (filter (\<lambda>b. b \<notin> set bs) xs @ filter (\<lambda>b. b \<noteq> Blk 0 \<and> ref_cnt (data p1 b) = 1) bs)"
    "data p2 = (\<lambda>b. (data p1 b)\<lparr>ref_cnt := ref_cnt (data p1 b) - int (count_list bs b)\<rparr>)"
    using free_blocks_pool_spec [OF p1(2) fr] by blast
  have "filter (\<lambda>b. b \<noteq> Blk 0 \<and> ref_cnt (data p1 b) = 1) bs = filter (\<lambda>b. b \<in> set xs) bs"
    by (rule filter_cong) (use bs pool_ok_data(1) [OF assms(1)] in \<open>auto simp: p1(4) cnt\<close>)
  moreover have "data p2 = data p" by (simp add: p2(3) p1(4) fun_eq_iff)
  ultimately show ?thesis using p1 p2(1,2) by (auto simp: cnt)
qed


section \<open>Witnesses\<close>

text \<open>A fresh pool of four blocks, and one whose block 1 is cached.\<close>

definition four_pool :: block_pool where
  "four_pool = (case BlockPool 4 True 2 True False of Inr p \<Rightarrow> p | Inl _ \<Rightarrow> undefined)"

lemma four_pool:
  "BlockPool 4 True 2 True False = Inr four_pool" "pool_inv four_pool [Blk 1, Blk 2, Blk 3]"
  "cfg four_pool = (4, True, 2, Blk 0, True, False)" "kv_event_queue four_pool = []"
  "data four_pool (Blk i) = (KVCacheBlock (int i))\<lparr>is_null := (i = 0)\<rparr>"
proof -
  obtain p where p: "BlockPool 4 True 2 True False = Inr p" "pool_inv p (map Blk [1..<nat 4])"
    "cfg p = (4, True, 2, Blk 0, True, False)" "kv_event_queue p = []"
    "\<forall>i. data p (Blk i) = (KVCacheBlock (int i))\<lparr>is_null := (i = 0)\<rparr>"
    using BlockPool_spec [of 4 True 2 True False] by auto
  have list: "map Blk [1..<nat 4] = [Blk 1, Blk 2, Blk 3]" by (simp add: upt_rec)
  show "BlockPool 4 True 2 True False = Inr four_pool" "pool_inv four_pool [Blk 1, Blk 2, Blk 3]"
    "cfg four_pool = (4, True, 2, Blk 0, True, False)" "kv_event_queue four_pool = []"
    "data four_pool (Blk i) = (KVCacheBlock (int i))\<lparr>is_null := (i = 0)\<rparr>"
    using p unfolding list by (simp_all add: four_pool_def)
qed

lemma four_pool_valid: "valid_blk four_pool b \<longleftrightarrow> b \<in> {Blk 0, Blk 1, Blk 2, Blk 3}" "num_gpu_blocks four_pool = 4"
  "null_block four_pool = Blk 0" "hash_block_size four_pool = 2" "enable_caching four_pool"
proof -
  show n: "num_gpu_blocks four_pool = 4" "null_block four_pool = Blk 0" "hash_block_size four_pool = 2"
    "enable_caching four_pool"
    using four_pool(3) by (simp_all add: cfg_def)
  have "valid_blk four_pool b \<longleftrightarrow> (\<exists>i<4. b = Blk i)" by (auto simp: valid_blk_def n(1))
  also have "\<dots> \<longleftrightarrow> b \<in> {Blk 0, Blk 1, Blk 2, Blk 3}" by (auto simp: numeral_eq_Suc less_Suc_eq)
  finally show "valid_blk four_pool b \<longleftrightarrow> b \<in> {Blk 0, Blk 1, Blk 2, Blk 3}" .
qed

theorem pool_get_new_blocks_contract_witness:
  "get_new_blocks 5 four_pool = Inl ValueError \<and>
   (\<exists>p'. get_new_blocks 2 four_pool = Inr ([Blk 1, Blk 2], p') \<and> ref_cnt (data p' (Blk 2)) = 1 \<and> pool_inv p' [Blk 3])"
  using pool_get_new_blocks_contract [OF four_pool(2), of 5] pool_get_new_blocks_contract [OF four_pool(2), of 2]
  by (auto simp: numeral_eq_Suc)

theorem reachable_pool_invariant_witness:
  "\<exists>bs p. get_new_blocks 2 four_pool = Inr (bs, p) \<and> get_all_free_blocks (free_block_queue p) = Some (Inr [Blk 3]) \<and>
     get_num_free_blocks p + int (card {b. valid_blk p b \<and> b \<noteq> null_block p \<and> 0 < ref_cnt (bstore p b)}) = 3"
proof -
  obtain p where p: "get_new_blocks 2 four_pool = Inr ([Blk 1, Blk 2], p)" "pool_inv p [Blk 3]"
    using pool_get_new_blocks_spec [OF four_pool(2), of 2] by (auto simp: numeral_eq_Suc)
  have "pool_step\<^sup>*\<^sup>* four_pool p" using Get [OF _ p(1)] by simp
  then show ?thesis
    using reachable_pool_invariant [OF four_pool(1)] p(1) get_all_free_blocks_repr [OF pool_okD(1) [OF p(2)]] by force
qed

theorem cached_lookup_sound_and_complete_witness:
  "\<exists>r. get_cached_block four_pool [7] [0] = Inr r \<and> r = None"
proof -
  obtain r where r: "get_cached_block four_pool [7] [0] = Inr r"
    "case r of
       None \<Rightarrow> \<exists>g\<in>set [0]. \<forall>b k. make_block_hash_with_group_id [7] g = Inr k \<longrightarrow> valid_blk four_pool b \<longrightarrow>
                 block_hash (bstore four_pool b) \<noteq> Some k
     | Some bs \<Rightarrow> list_all2 (\<lambda>g b. valid_blk four_pool b \<and> b \<noteq> null_block four_pool \<and>
         (\<exists>k. make_block_hash_with_group_id [7] g = Inr k \<and> block_hash (bstore four_pool b) = Some k)) [0] bs"
    using cached_lookup_sound_and_complete [OF four_pool(2), of "[0]" "[7]"] by auto
  have "block_hash (bstore four_pool b) = None" if "valid_blk four_pool b" for b
    using that four_pool(5) by (auto simp: four_pool_valid(1) data_sel KVCacheBlock_def)
  then have "r = None" using r(2) by (cases r) (auto simp: list_all2_Cons1)
  then show ?thesis using r(1) by blast
qed

theorem touch_then_free_renews_witness:
  "\<exists>p1 p2. touch [Blk 1] four_pool = Inr p1 \<and> free_blocks [Blk 1] p1 = Inr p2 \<and> pool_inv p2 [Blk 2, Blk 3, Blk 1]"
  using touch_then_free_renews [OF four_pool(2), of "[Blk 1]"] by (auto simp: four_pool_valid)


text \<open>A request of five tokens with two complete blocks of two tokens each.\<close>

definition small_request :: request where
  "small_request = sample_request\<lparr>mm_features := [], lora_req := None, has_prompt_embeds := False,
     all_token_ids := [5, 6, 7, 8, 9], block_hashes := [[21], [22]]\<rparr>"

theorem cached_blocks_are_found_witness:
  "\<exists>p' b. cache_full_blocks (\<lambda>_ _ _. []) small_request [Blk 2, Blk 0] 0 2 2 0 four_pool = Inr p' \<and>
     get_cached_block p' [21] [0] = Inr (Some [b])"
proof -
  have "cacheable four_pool small_request [Blk 2, Blk 0] 0 2 2 0"
    using four_pool(5) by (simp add: cacheable_def four_pool_valid small_request_def text_request_def block_size_ok_def
        group_id_ok_def group_hashes_def KVCacheBlock_def)
  from cached_blocks_are_found [OF four_pool(2) this, of "\<lambda>_ _ _. []"] obtain p' where
    p': "cache_full_blocks (\<lambda>_ _ _. []) small_request [Blk 2, Blk 0] 0 2 2 0 four_pool = Inr p'"
    and hit: "\<forall>i. 0 \<le> i \<and> i < 2 \<and> [Blk 2, Blk 0] ! i \<noteq> null_block four_pool \<longrightarrow>
       (let h = group_hashes (hash_block_size four_pool) 2 (block_hashes small_request) ! i
        in block_hash (data p' ([Blk 2, Blk 0] ! i)) = Some (key_of 0 h) \<and>
           (\<exists>b. get_cached_block p' h [0] = Inr (Some [b]) \<and> block_hash (data p' b) = Some (key_of 0 h)))"
    by auto
  have "\<exists>b. get_cached_block p' [21] [0] = Inr (Some [b])"
    using hit [rule_format, of 0] by (auto simp: four_pool_valid Let_def group_hashes_def small_request_def)
  then show ?thesis using p' by blast
qed

end
