(* ===== verification/Pool_Ops.thy ===== *)
theory Pool_Ops
  imports Block_Pool DSA_Logical_Pool
begin

text \<open>
  The pool interface the cache managers program against. In the source it is duck typed: a manager
  holds a \<^verbatim>\<open>BlockPool\<close> or a \<^verbatim>\<open>DSASharedLogicalBlockPool\<close>; here it is a record of the methods and
  attributes a manager uses, filled in by either pool. The locale \<open>kv_pool\<close> states what a manager
  relies on and is interpreted on both pools; \<open>caching_pool\<close> adds the sharing of cached blocks,
  which only the first supports.
\<close>

record 'p pool_ops =
  po_get_new_blocks :: "int \<Rightarrow> 'p \<Rightarrow> (blk list \<times> 'p) res"
  po_free_blocks :: "blk list \<Rightarrow> 'p \<Rightarrow> 'p res"
  po_touch :: "blk list \<Rightarrow> 'p \<Rightarrow> 'p res"
  po_cache_full_blocks :: "request \<Rightarrow> blk list \<Rightarrow> int \<Rightarrow> int \<Rightarrow> int \<Rightarrow> int \<Rightarrow> 'p \<Rightarrow> 'p res"
  po_get_num_free_blocks :: "'p \<Rightarrow> int"
  po_num_gpu_blocks :: "'p \<Rightarrow> int"
  po_blocks_per_bundle :: "'p \<Rightarrow> int"
  po_null_block :: "'p \<Rightarrow> blk"
  po_block :: "'p \<Rightarrow> blk \<Rightarrow> kv_block"
  po_queue_popleft_n :: "int \<Rightarrow> 'p \<Rightarrow> (blk list \<times> 'p) res"

definition gpu_ops :: "embeds_digest \<Rightarrow> block_pool pool_ops" where
  "gpu_ops digest =
     \<lparr>po_get_new_blocks = get_new_blocks, po_free_blocks = free_blocks, po_touch = touch,
      po_cache_full_blocks = cache_full_blocks digest, po_get_num_free_blocks = get_num_free_blocks,
      po_num_gpu_blocks = num_gpu_blocks, po_blocks_per_bundle = (\<lambda>_. 1), po_null_block = null_block,
      po_block = bstore,
      po_queue_popleft_n = (\<lambda>n p. rbind (popleft_n n (free_block_queue p)) (\<lambda>(bs, q). Inr (bs, p\<lparr>free_block_queue := q\<rparr>)))\<rparr>"

definition shared_ops :: "(dsa_allocator \<times> logical_pool) pool_ops" where
  "shared_ops =
     \<lparr>po_get_new_blocks = (\<lambda>n (a, p). rbind (lp_get_new_blocks n a p) (\<lambda>(bs, a', p'). Inr (bs, a', p'))),
      po_free_blocks = (\<lambda>bs (a, p). lp_free_blocks bs a p),
      po_touch = (\<lambda>bs (a, p). rbind (lp_touch bs p) (\<lambda>p'. Inr (a, p'))),
      po_cache_full_blocks = (\<lambda>_ _ _ _ _ _ (a, p). rbind (lp_cache_full_blocks p) (\<lambda>p'. Inr (a, p'))),
      po_get_num_free_blocks = (\<lambda>(a, p). lp_get_num_free_blocks a p),
      po_num_gpu_blocks = (\<lambda>(a, p). lp_num_gpu_blocks p),
      po_blocks_per_bundle = (\<lambda>(a, p). blocks_per_bundle (layout a) (lp_owner p)),
      po_null_block = (\<lambda>_. Blk 0), po_block = (\<lambda>(a, p). lp_store p),
      po_queue_popleft_n = (\<lambda>_ _. Inl AttributeError)\<rparr>"

section \<open>What a manager relies on\<close>

text \<open>\<open>refs p b\<close> is how often block \<open>b\<close> is held; the null block, which is block 0 of every pool, is not
  counted.\<close>

locale kv_pool =
  fixes ops :: "'p pool_ops" and inv :: "'p \<Rightarrow> bool" and refs :: "'p \<Rightarrow> blk \<Rightarrow> int" and valid :: "'p \<Rightarrow> blk \<Rightarrow> bool"
  assumes refs_nonneg: "inv p \<Longrightarrow> 0 \<le> refs p b"
    and refs_null: "inv p \<Longrightarrow> refs p (Blk 0) = 0"
    and bundle_pos: "inv p \<Longrightarrow> 0 < po_blocks_per_bundle ops p"
    and get_ok: "inv p \<Longrightarrow> 0 \<le> n \<Longrightarrow> n \<le> po_get_num_free_blocks ops p \<Longrightarrow>
      \<exists>bs p'. po_get_new_blocks ops n p = Inr (bs, p') \<and> inv p' \<and> n \<le> int (length bs) \<and> distinct bs \<and>
        (\<forall>b\<in>set bs. b \<noteq> Blk 0 \<and> refs p b = 0) \<and> refs p' = (\<lambda>b. if b \<in> set bs then 1 else refs p b) \<and>
        po_get_num_free_blocks ops p' = po_get_num_free_blocks ops p - int (length bs)"
    and get_error: "inv p \<Longrightarrow> po_get_num_free_blocks ops p < n \<Longrightarrow> po_get_new_blocks ops n p = Inl ValueError"
    and free_ok: "inv p \<Longrightarrow> (\<And>b. b \<in> set bs \<Longrightarrow> b \<noteq> Blk 0 \<Longrightarrow> 0 < refs p b) \<Longrightarrow> distinct (filter (\<lambda>b. b \<noteq> Blk 0) bs) \<Longrightarrow>
      \<exists>p'. po_free_blocks ops bs p = Inr p' \<and> inv p' \<and>
        refs p' = (\<lambda>b. if b \<in> set bs \<and> b \<noteq> Blk 0 then refs p b - 1 else refs p b)"
    and touch_inv: "inv p \<Longrightarrow> (\<And>b. b \<in> set bs \<Longrightarrow> valid p b) \<Longrightarrow> po_touch ops bs p = Inr p' \<Longrightarrow>
      inv p' \<and> refs p' = (\<lambda>b. if b = Blk 0 then 0 else refs p b + int (count_list bs b))"
    and cache_inv: "inv p \<Longrightarrow> (\<And>b. b \<in> set bs \<Longrightarrow> b = Blk 0 \<or> 0 < refs p b) \<Longrightarrow>
      po_cache_full_blocks ops r bs c n bsz gid p = Inr p' \<Longrightarrow>
      inv p' \<and> refs p' = refs p \<and> po_get_num_free_blocks ops p' = po_get_num_free_blocks ops p"

text \<open>A pool that really shares cached blocks, and hands out exactly as many blocks as asked for.\<close>

locale caching_pool = kv_pool +
  assumes get_exact: "inv p \<Longrightarrow> 0 \<le> n \<Longrightarrow> po_get_new_blocks ops n p = Inr (bs, p') \<Longrightarrow> int (length bs) = n"
    and touch_ok: "inv p \<Longrightarrow> (\<And>b. b \<in> set bs \<Longrightarrow> valid p b) \<Longrightarrow>
      \<exists>p'. po_touch ops bs p = Inr p' \<and>
        po_get_num_free_blocks ops p' = po_get_num_free_blocks ops p - int (card {b \<in> set bs. b \<noteq> Blk 0 \<and> refs p b = 0})"
    and block_refs: "inv p \<Longrightarrow> valid p b \<Longrightarrow> b \<noteq> Blk 0 \<Longrightarrow> ref_cnt (po_block ops p b) = refs p b"
    and block_null: "inv p \<Longrightarrow> valid p b \<Longrightarrow> is_null (po_block ops p b) = (b = Blk 0)"

definition gpu_refs :: "block_pool \<Rightarrow> blk \<Rightarrow> int" where
  "gpu_refs p b = (if valid_blk p b \<and> b \<noteq> Blk 0 then ref_cnt (data p b) else 0)"

definition gpu_inv :: "block_pool \<Rightarrow> bool" where
  "gpu_inv p \<longleftrightarrow> (\<exists>xs. pool_inv p xs)"

definition shared_refs :: "dsa_allocator \<times> logical_pool \<Rightarrow> blk \<Rightarrow> int" where
  "shared_refs s b = (case b of Blk i \<Rightarrow> ref_cnt (lp_store (snd s) (Blk i)) | _ \<Rightarrow> 0)"

definition shared_inv :: "dsa_allocator \<times> logical_pool \<Rightarrow> bool" where
  "shared_inv s \<longleftrightarrow> lp_inv (fst s) (snd s)"

lemma gpu_refs_free: "pool_inv p xs \<Longrightarrow> b \<in> set xs \<longleftrightarrow> valid_blk p b \<and> b \<noteq> Blk 0 \<and> gpu_refs p b = 0"
  by (auto simp: pool_ok_data(1) gpu_refs_def)

lemma gpu_get_ok:
  assumes "gpu_inv p" and n: "0 \<le> n" "n \<le> get_num_free_blocks p"
  shows "\<exists>bs p'. get_new_blocks n p = Inr (bs, p') \<and> gpu_inv p' \<and> cfg p' = cfg p \<and> int (length bs) = n \<and> distinct bs \<and>
    (\<forall>b\<in>set bs. b \<noteq> Blk 0 \<and> gpu_refs p b = 0) \<and> gpu_refs p' = (\<lambda>b. if b \<in> set bs then 1 else gpu_refs p b) \<and>
    get_num_free_blocks p' = get_num_free_blocks p - int (length bs)"
proof -
  obtain xs where ok: "pool_inv p xs" using assms(1) by (auto simp: gpu_inv_def)
  have free: "get_num_free_blocks p = int (length xs)" by (rule pool_okD(7) [OF ok])
  let ?bs = "take (nat n) xs"
  obtain p' where p': "get_new_blocks n p = Inr (?bs, p')" "pool_inv p' (drop (nat n) xs)" "cfg p' = cfg p"
    "data p' = (\<lambda>b. if b \<in> set ?bs then allocated (enable_caching p) (data p b) else data p b)"
    using pool_get_new_blocks_spec [OF ok n(1)] n(2) free by auto
  have mem: "valid_blk p b \<and> b \<noteq> Blk 0 \<and> gpu_refs p b = 0" if "b \<in> set ?bs" for b
    using that gpu_refs_free [OF ok] in_set_takeD by fast
  have "gpu_refs p' = (\<lambda>b. if b \<in> set ?bs then 1 else gpu_refs p b)"
    using mem by (auto simp: gpu_refs_def p'(4) valid_blk_cfg [OF p'(3)] allocated_def fun_eq_iff)
  moreover have "distinct ?bs" using pool_okD(1) [OF ok] by (simp add: fq_repr_def)
  moreover have "get_num_free_blocks p' = get_num_free_blocks p - int (length ?bs)"
    using pool_okD(7) [OF p'(2)] free n by simp
  ultimately show ?thesis using p'(1-3) mem n free by (auto simp: gpu_inv_def)
qed

lemma gpu_free_ok:
  assumes "gpu_inv p" and held: "\<And>b. b \<in> set bs \<Longrightarrow> b \<noteq> Blk 0 \<Longrightarrow> 0 < gpu_refs p b" and dist: "distinct (filter (\<lambda>b. b \<noteq> Blk 0) bs)"
  shows "\<exists>p'. free_blocks bs p = Inr p' \<and> gpu_inv p' \<and> cfg p' = cfg p \<and>
    gpu_refs p' = (\<lambda>b. if b \<in> set bs \<and> b \<noteq> Blk 0 then gpu_refs p b - 1 else gpu_refs p b)"
proof -
  obtain xs where ok: "pool_inv p xs" using assms(1) by (auto simp: gpu_inv_def)
  have n: "valid_blk p (Blk 0)" using ok by (simp add: pool_ok_def valid_blk_def)
  have v: "valid_blk p b" if "b \<in> set bs" for b
    using held [OF that] n by (cases "b = Blk 0") (auto simp: gpu_refs_def split: if_splits)
  have r: "0 < ref_cnt (data p b)" if "b \<in> set bs" "b \<noteq> Blk 0" for b
    using held [OF that] that by (auto simp: gpu_refs_def split: if_splits)
  have "freeable p bs"
    unfolding freeable_def using v r dist by auto
  then obtain p' where p': "free_blocks bs p = Inr p'" "pool_inv p' (xs @ filter (\<lambda>b. b \<noteq> Blk 0 \<and> ref_cnt (data p b) = 1) bs)"
    "cfg p' = cfg p" "data p' = (\<lambda>b. (data p b)\<lparr>ref_cnt := ref_cnt (data p b) - int (count_list bs b)\<rparr>)"
    using free_blocks_pool_spec [OF ok] by blast
  have cnt: "count_list bs b = (if b \<in> set bs then 1 else 0)" if "b \<noteq> Blk 0" for b
    using count_distinct_filter [OF dist, of b] that by simp
  have "gpu_refs p' = (\<lambda>b. if b \<in> set bs \<and> b \<noteq> Blk 0 then gpu_refs p b - 1 else gpu_refs p b)"
    using v by (auto simp: gpu_refs_def p'(4) valid_blk_cfg [OF p'(3)] cnt fun_eq_iff)
  then show ?thesis using p'(1-3) by (auto simp: gpu_inv_def)
qed

lemma gpu_touch_ok:
  assumes "gpu_inv p" and valid: "\<And>b. b \<in> set bs \<Longrightarrow> valid_blk p b"
  shows "\<exists>p'. touch bs p = Inr p' \<and> gpu_inv p' \<and> cfg p' = cfg p \<and>
    gpu_refs p' = (\<lambda>b. if b = Blk 0 then 0 else gpu_refs p b + int (count_list bs b)) \<and>
    get_num_free_blocks p' = get_num_free_blocks p - int (card {b \<in> set bs. b \<noteq> Blk 0 \<and> gpu_refs p b = 0})"
proof -
  obtain xs where ok: "pool_inv p xs" using assms(1) by (auto simp: gpu_inv_def)
  obtain p' where p': "touch bs p = Inr p'" "pool_inv p' (filter (\<lambda>b. b \<notin> set bs) xs)" "cfg p' = cfg p"
    "data p' = (\<lambda>b. (data p b)\<lparr>ref_cnt := ref_cnt (data p b) + int (count_list bs b)\<rparr>)"
    using touch_spec [OF ok, of bs] valid by blast
  have "gpu_refs p' = (\<lambda>b. if b = Blk 0 then 0 else gpu_refs p b + int (count_list bs b))"
    using valid by (auto simp: gpu_refs_def p'(4) valid_blk_cfg [OF p'(3)] count_list_0_iff fun_eq_iff)
  moreover have "get_num_free_blocks p' = get_num_free_blocks p - int (card {b \<in> set bs. b \<noteq> Blk 0 \<and> gpu_refs p b = 0})"
  proof -
    have dist: "distinct xs" using pool_okD(1) [OF ok] by (simp add: fq_repr_def)
    have eq: "{b \<in> set bs. b \<noteq> Blk 0 \<and> gpu_refs p b = 0} = set (filter (\<lambda>b. b \<in> set bs) xs)"
      using gpu_refs_free [OF ok] valid by auto
    have "card {b \<in> set bs. b \<noteq> Blk 0 \<and> gpu_refs p b = 0} = length (filter (\<lambda>b. b \<in> set bs) xs)"
      unfolding eq using dist by (intro distinct_card) simp
    then show ?thesis
      using pool_okD(7) [OF ok] pool_okD(7) [OF p'(2)] sum_length_filter_compl [of "\<lambda>b. b \<in> set bs" xs] by simp
  qed
  ultimately show ?thesis using p'(1-3) by (auto simp: gpu_inv_def)
qed

lemma cache_one_inv:
  assumes ok: "pool_inv p xs" and b: "valid_blk p b" and one: "cache_one_block hs gid (i, b) (nh, p) = Inr (nh', p')"
  shows "pool_inv p' xs \<and> cfg p' = cfg p \<and> (\<forall>b. ref_cnt (data p' b) = ref_cnt (data p b))"
proof (cases "b = Blk 0")
  case True
  then have "is_null (bstore p b)" using pool_okD(3) [OF ok, of 0] by simp
  then show ?thesis using one ok by (simp add: cache_one_block_def)
next
  case False
  obtain j where "b = Blk j" using b unfolding valid_blk_def by blast
  then have "\<not> is_null (bstore p b)" using False pool_okD(3) [OF ok, of j] by simp
  then obtain h key where "block_hash (data p b) = None" "py_index hs (int i) = Inr h" "make_block_hash_with_group_id h gid = Inr key"
    using one by (auto simp: cache_one_block_def rassert_eq_Inr_iff rbind_eq_Inr_iff data_sel)
  then have "block_hash (data p b) = None" "i < length hs" "group_id_ok gid"
    by (auto simp: py_index_def make_block_hash_with_group_id_def group_id_ok_def split: if_splits)
  then show ?thesis using cache_one_spec [OF ok b False, of i hs gid nh] one by auto
qed

lemma gpu_cache_inv:
  assumes "gpu_inv p" and refd: "\<And>b. b \<in> set bs \<Longrightarrow> b = Blk 0 \<or> 0 < gpu_refs p b"
    and cache: "cache_full_blocks digest r bs c n bsz gid p = Inr p'"
  shows "gpu_inv p' \<and> cfg p' = cfg p \<and> gpu_refs p' = gpu_refs p \<and> get_num_free_blocks p' = get_num_free_blocks p"
proof -
  obtain xs where ok: "pool_inv p xs" using assms(1) by (auto simp: gpu_inv_def)
  let ?P = "\<lambda>p'. pool_inv p' xs \<and> cfg p' = cfg p \<and> (\<forall>b. ref_cnt (data p' b) = ref_cnt (data p b))"
  have "valid_blk p (Blk 0)" using ok by (simp add: pool_ok_def valid_blk_def)
  then have valid: "valid_blk p b" if "b \<in> set bs" for b
    using refd [OF that] by (cases "b = Blk 0") (simp_all add: gpu_refs_def split: if_splits)
  have same: "gpu_inv q \<and> gpu_refs q = gpu_refs p \<and> get_num_free_blocks q = get_num_free_blocks p" if "?P q" for q
  proof -
    have "pool_inv q xs" and v: "\<And>b. valid_blk q b = valid_blk p b" and r: "\<And>b. ref_cnt (data q b) = ref_cnt (data p b)"
      using that valid_blk_cfg [of q p] by auto
    then show ?thesis using pool_okD(7) [OF ok] pool_okD(7) [OF \<open>pool_inv q xs\<close>] unfolding gpu_inv_def gpu_refs_def fun_eq_iff v r by metis
  qed
  show ?thesis
  proof (cases "c \<ge> n")
    case True
    then show ?thesis using cache assms(1) by (simp add: cache_full_blocks_def)
  next
    case False
    then obtain hl hs nh p1 where loop: "rfold (cache_one_block hs gid) (enumerate 0 (py_slice bs c n)) ([], p) = Inr (nh, p1)"
      and rest: "(if \<not> enable_kv_cache_events p then Inr p1 else stored_event digest r bs c n bsz hl nh p1) = Inr p'"
      using cache by (auto simp: cache_full_blocks_def rassert_eq_Inr_iff rbind_eq_Inr_iff)
    have "?P (snd (nh, p1))"
    proof (rule rfold_invariant [OF loop])
      fix x s s' assume x: "x \<in> set (enumerate 0 (py_slice bs c n))" and P: "?P (snd s)" and "cache_one_block hs gid x s = Inr s'"
      moreover have "snd x \<in> set bs"
        using x unfolding enumerate_eq_zip py_slice_def Let_def
        by (metis in_set_dropD in_set_takeD prod.collapse set_zip_rightD)
      then have "valid_blk (snd s) (snd x)" using valid P valid_blk_cfg [of "snd s" p] by auto
      ultimately show "?P (snd s')" using cache_one_inv [of "snd s" xs "snd x" hs gid "fst x" "fst s" "fst s'" "snd s'"] by simp
    qed (simp add: ok)
    moreover have "p' = p1 \<or> (\<exists>e. p' = p1\<lparr>kv_event_queue := e\<rparr>)"
      using rest by (auto simp: stored_event_def rbind_eq_Inr_iff split: if_splits)
    ultimately have "?P p'" by (auto simp: pool_ok_events data_events cfg_def)
    then show ?thesis using same by blast
  qed
qed

lemma gpu_refs_nonneg: "gpu_inv p \<Longrightarrow> 0 \<le> gpu_refs p b"
  by (auto simp: gpu_inv_def gpu_refs_def valid_blk_def dest: pool_ok_data(3))

interpretation gpu: caching_pool "gpu_ops digest" gpu_inv gpu_refs valid_blk
proof
  fix p :: block_pool and n bs p'
  assume inv: "gpu_inv p" and "0 \<le> n" and get: "po_get_new_blocks (gpu_ops digest) n p = Inr (bs, p')"
  then have "n \<le> get_num_free_blocks p" by (auto simp: gpu_ops_def get_new_blocks_def split: if_splits)
  then show "int (length bs) = n" using gpu_get_ok [OF inv \<open>0 \<le> n\<close>] get by (auto simp: gpu_ops_def)
next
  fix p :: block_pool and n
  assume "gpu_inv p" and "po_get_num_free_blocks (gpu_ops digest) p < n"
  then show "po_get_new_blocks (gpu_ops digest) n p = Inl ValueError" by (simp add: gpu_ops_def get_new_blocks_def)
next
  fix p :: block_pool and n :: int
  assume "gpu_inv p" and "0 \<le> n" and "n \<le> po_get_num_free_blocks (gpu_ops digest) p"
  then show "\<exists>bs p'. po_get_new_blocks (gpu_ops digest) n p = Inr (bs, p') \<and> gpu_inv p' \<and> n \<le> int (length bs) \<and> distinct bs \<and>
        (\<forall>b\<in>set bs. b \<noteq> Blk 0 \<and> gpu_refs p b = 0) \<and> gpu_refs p' = (\<lambda>b. if b \<in> set bs then 1 else gpu_refs p b) \<and>
        po_get_num_free_blocks (gpu_ops digest) p' = po_get_num_free_blocks (gpu_ops digest) p - int (length bs)"
    using gpu_get_ok [of p n] by (auto simp: gpu_ops_def)
next
  fix p :: block_pool and bs p'
  assume "gpu_inv p" and "\<And>b. b \<in> set bs \<Longrightarrow> valid_blk p b" and "po_touch (gpu_ops digest) bs p = Inr p'"
  then show "gpu_inv p' \<and> gpu_refs p' = (\<lambda>b. if b = Blk 0 then 0 else gpu_refs p b + int (count_list bs b))"
    using gpu_touch_ok [of p bs] by (auto simp: gpu_ops_def)
next
  fix p :: block_pool and r bs c n bsz gid p'
  assume "gpu_inv p" and "\<And>b. b \<in> set bs \<Longrightarrow> b = Blk 0 \<or> 0 < gpu_refs p b"
    and "po_cache_full_blocks (gpu_ops digest) r bs c n bsz gid p = Inr p'"
  then show "gpu_inv p' \<and> gpu_refs p' = gpu_refs p \<and>
      po_get_num_free_blocks (gpu_ops digest) p' = po_get_num_free_blocks (gpu_ops digest) p"
    using gpu_cache_inv [of p bs digest r c n bsz gid p'] by (simp add: gpu_ops_def)
next
  fix p b
  assume "gpu_inv p" and "valid_blk p b"
  then show "is_null (po_block (gpu_ops digest) p b) = (b = Blk 0)"
    by (auto simp: gpu_inv_def valid_blk_def gpu_ops_def pool_okD(3))
next
  fix p :: block_pool and bs
  assume "gpu_inv p" and "\<And>b. b \<in> set bs \<Longrightarrow> valid_blk p b"
  then show "\<exists>p'. po_touch (gpu_ops digest) bs p = Inr p' \<and> po_get_num_free_blocks (gpu_ops digest) p' =
      po_get_num_free_blocks (gpu_ops digest) p - int (card {b \<in> set bs. b \<noteq> Blk 0 \<and> gpu_refs p b = 0})"
    using gpu_touch_ok [of p bs] by (auto simp: gpu_ops_def)
next
  fix p b
  assume "valid_blk p b" and "b \<noteq> Blk 0"
  then show "ref_cnt (po_block (gpu_ops digest) p b) = gpu_refs p b"
    by (simp add: gpu_ops_def gpu_refs_def data_sel)
next
  fix p :: block_pool and bs
  assume "gpu_inv p" and "\<And>b. b \<in> set bs \<Longrightarrow> b \<noteq> Blk 0 \<Longrightarrow> 0 < gpu_refs p b" and "distinct (filter (\<lambda>b. b \<noteq> Blk 0) bs)"
  then show "\<exists>p'. po_free_blocks (gpu_ops digest) bs p = Inr p' \<and> gpu_inv p' \<and>
      gpu_refs p' = (\<lambda>b. if b \<in> set bs \<and> b \<noteq> Blk 0 then gpu_refs p b - 1 else gpu_refs p b)"
    using gpu_free_ok [of p bs] by (auto simp: gpu_ops_def)
qed (auto simp: gpu_refs_nonneg gpu_ops_def gpu_refs_def [of _ "Blk 0"])

lemma shared_refs_blk: "shared_inv s \<Longrightarrow> 0 < shared_refs s b \<Longrightarrow> \<exists>i. b = Blk i \<and> 0 < i \<and> shared_refs s b = 1"
  by (auto simp: shared_inv_def lp_inv_def lp_wf_def shared_refs_def split: blk.splits) (metis insertE less_irrefl singletonD)+

lemma shared_free_ok:
  assumes inv: "shared_inv s" and held: "\<And>b. b \<in> set bs \<Longrightarrow> b \<noteq> Blk 0 \<Longrightarrow> 0 < shared_refs s b"
    and dist: "distinct (filter (\<lambda>b. b \<noteq> Blk 0) bs)"
  shows "\<exists>s'. po_free_blocks shared_ops bs s = Inr s' \<and> shared_inv s' \<and>
    shared_refs s' = (\<lambda>b. if b \<in> set bs \<and> b \<noteq> Blk 0 then shared_refs s b - 1 else shared_refs s b)"
proof -
  obtain a p where s: "s = (a, p)" by (cases s)
  have lp: "lp_inv a p" using inv by (simp add: shared_inv_def s)
  then have wf: "\<And>i. is_null (lp_store p (Blk i)) = (i = 0)" by (simp add: lp_inv_def lp_wf_def)
  have blk: "\<forall>b\<in>set bs. \<exists>i. b = Blk i" using shared_refs_blk [OF inv] held by metis
  have filt: "filter (\<lambda>b. \<not> is_null (lp_store p b)) bs = filter (\<lambda>b. b \<noteq> Blk 0) bs"
    using blk wf by (intro filter_cong) auto
  have one: "ref_cnt (lp_store p b) = 1" if "b \<in> set bs" "b \<noteq> Blk 0" for b
    using shared_refs_blk [OF inv held [OF that]] by (auto simp: shared_refs_def s)
  have rel: "releasable p bs" unfolding releasable_def Let_def filt using dist one by auto
  obtain a' where free: "lp_free_blocks bs a p = Inr (a', p\<lparr>lp_store := released_store (filter (\<lambda>b. b \<noteq> Blk 0) bs) (lp_store p)\<rparr>)"
    using free_blocks_spec [OF lp blk rel] unfolding filt by blast
  let ?s = "(a', p\<lparr>lp_store := released_store (filter (\<lambda>b. b \<noteq> Blk 0) bs) (lp_store p)\<rparr>)"
  have "shared_inv ?s" using free_blocks_inv [OF lp blk free] by (simp add: shared_inv_def)
  moreover have "shared_refs ?s = (\<lambda>b. if b \<in> set bs \<and> b \<noteq> Blk 0 then shared_refs s b - 1 else shared_refs s b)"
    using one bspec [OF blk] by (auto simp: fun_eq_iff shared_refs_def released_store_def s split: blk.split)
  ultimately show ?thesis using free by (auto simp: shared_ops_def s)
qed

lemma shared_get_ok:
  assumes inv: "shared_inv s" and n: "n \<le> po_get_num_free_blocks shared_ops s"
  shows "\<exists>bs s'. po_get_new_blocks shared_ops n s = Inr (bs, s') \<and> shared_inv s' \<and> n \<le> int (length bs) \<and> distinct bs \<and>
    (\<forall>b\<in>set bs. b \<noteq> Blk 0 \<and> shared_refs s b = 0) \<and> shared_refs s' = (\<lambda>b. if b \<in> set bs then 1 else shared_refs s b) \<and>
    po_get_num_free_blocks shared_ops s' = po_get_num_free_blocks shared_ops s - int (length bs)"
proof -
  obtain a p where s: "s = (a, p)" by (cases s)
  have lp: "lp_inv a p" using inv by (simp add: shared_inv_def s)
  then have wf: "\<And>i. is_null (lp_store p (Blk i)) = (i = 0)" and ok: "layout_ok (layout a)" by (simp_all add: lp_inv_def lp_wf_def)
  have le: "n \<le> lp_get_num_free_blocks a p" using n by (simp add: shared_ops_def s)
  note cases = logical_get_new_blocks_cases [OF lp, of n]
  obtain bs a' p' where get: "lp_get_new_blocks n a p = Inr (bs, a', p')" and blk: "\<forall>c\<in>set bs. \<exists>i. c = Blk i"
    by (rule get_new_blocks_spec [OF lp le]) (auto simp: bundle_blocks_def)
  have post: "n \<le> int (length bs)" "distinct bs" "\<forall>c\<in>set bs. ref_cnt (lp_store p c) = 0 \<and> \<not> is_null (lp_store p c)"
    "lp_store p' = (\<lambda>c. if c \<in> set bs then (lp_store p c)\<lparr>ref_cnt := 1\<rparr> else lp_store p c)"
    "lp_get_num_free_blocks a' p' = lp_get_num_free_blocks a p - int (length bs)" "lp_inv a' p'"
    using cases get by blast+
  have "shared_refs (a', p') = (\<lambda>b. if b \<in> set bs then 1 else shared_refs s b)"
    using blk by (auto simp: fun_eq_iff shared_refs_def s post(4) split: blk.split)
  moreover have "b \<noteq> Blk 0 \<and> shared_refs s b = 0" if "b \<in> set bs" for b
    using that post(3) wf blk by (auto simp: shared_refs_def s)
  ultimately show ?thesis using get post by (auto simp: shared_ops_def s shared_inv_def)
qed

interpretation shared: kv_pool shared_ops shared_inv shared_refs "\<lambda>_ _. True"
proof
  fix s b
  assume inv: "shared_inv s"
  show "0 \<le> shared_refs s b"
    using inv by (auto simp: shared_inv_def lp_inv_def lp_wf_def shared_refs_def split: blk.splits) (metis insertE order_refl singletonD zero_le_one)
  show "shared_refs s (Blk 0) = 0" using shared_refs_blk [OF inv, of "Blk 0"] \<open>0 \<le> shared_refs s b\<close> inv
    by (auto simp: shared_inv_def lp_inv_def lp_wf_def shared_refs_def)
  show "0 < po_blocks_per_bundle shared_ops s"
    using inv by (cases s) (simp add: shared_inv_def lp_inv_def lp_wf_def shared_ops_def blocks_per_bundle_pos)
next
  fix s n
  assume "shared_inv s" and "po_get_num_free_blocks shared_ops s < n"
  then show "po_get_new_blocks shared_ops n s = Inl ValueError"
    by (auto simp: shared_ops_def lp_get_new_blocks_def split: prod.splits)
next
  fix s s' bs
  assume "po_touch shared_ops bs s = Inr s'"
  then show "shared_inv s' \<and> shared_refs s' = (\<lambda>b. if b = Blk 0 then 0 else shared_refs s b + int (count_list bs b))"
    by (simp add: shared_ops_def lp_touch_def split: prod.splits)
next
  fix s s' r bs c n bsz gid
  assume "po_cache_full_blocks shared_ops r bs c n bsz gid s = Inr s'"
  then show "shared_inv s' \<and> shared_refs s' = shared_refs s \<and>
      po_get_num_free_blocks shared_ops s' = po_get_num_free_blocks shared_ops s"
    by (simp add: shared_ops_def lp_cache_full_blocks_def split: prod.splits)
qed (rule shared_get_ok shared_free_ok; assumption | blast)+

end
