(* ===== verification/KV_Spec.thy ===== *)
theory KV_Spec
  imports Prelude
begin

text \<open>
  \<^verbatim>\<open>vllm/v1/kv_cache_interface.py\<close>: the specification of one layer's cache, its page size and memory
  bound, the merging of the layers of a group, and the cache configuration. A torch dtype is its name;
  the size of an element (\<^verbatim>\<open>get_dtype_size\<close>, computed by torch) is the parameter \<open>dsize\<close>. The process
  environment is a partial function from variable names to values.
\<close>

section \<open>Environment switches\<close>

type_synonym environ = "string \<rightharpoonup> string"

definition getenv :: "environ \<Rightarrow> string \<Rightarrow> string \<Rightarrow> string" where
  "getenv env name dflt = (case env name of None \<Rightarrow> dflt | Some v \<Rightarrow> v)"

definition is_space :: "char \<Rightarrow> bool" where
  "is_space c \<longleftrightarrow> c \<in> set [CHR 0x20, CHR 0x09, CHR 0x0A, CHR 0x0B, CHR 0x0C, CHR 0x0D, CHR 0x1C, CHR 0x1D, CHR 0x1E, CHR 0x1F]"

definition is_digit :: "char \<Rightarrow> bool" where
  "is_digit c \<longleftrightarrow> 48 \<le> (of_char c :: nat) \<and> (of_char c :: nat) \<le> 57"

definition digit_value :: "char \<Rightarrow> int" where
  "digit_value c = int (of_char c) - 48"

text \<open>The digits of a Python integer literal: single underscores may separate digits.\<close>

fun parse_digits :: "int \<Rightarrow> string \<Rightarrow> int option" where
  "parse_digits acc [] = Some acc"
| "parse_digits acc (c # cs) =
     (if is_digit c then parse_digits (acc * 10 + digit_value c) cs
      else if c = CHR ''_'' then
        (case cs of d # _ \<Rightarrow> if is_digit d then parse_digits acc cs else None | [] \<Rightarrow> None)
      else None)"

definition py_int :: "string \<Rightarrow> int option" where
  "py_int s =
     (let t = rev (dropWhile is_space (rev (dropWhile is_space s)))
      in case t of
           [] \<Rightarrow> None
         | c # cs \<Rightarrow>
             if c = CHR ''-'' \<or> c = CHR ''+''
             then (case cs of
                     d # _ \<Rightarrow> if is_digit d then map_option (\<lambda>n. if c = CHR ''-'' then - n else n) (parse_digits 0 cs) else None
                   | [] \<Rightarrow> None)
             else if is_digit c then parse_digits 0 t else None)"

definition dsa_two_groups_enabled :: "environ \<Rightarrow> bool" where
  "dsa_two_groups_enabled env \<longleftrightarrow> getenv env ''VLLM_ASCEND_DSA_TWO_GROUPS'' ''0'' = ''1''"

definition dsa_shared_pool_enabled :: "environ \<Rightarrow> bool" where
  "dsa_shared_pool_enabled env \<longleftrightarrow> getenv env ''VLLM_ASCEND_DSA_SHARED_POOL'' ''1'' = ''1''"

definition dsa_shrink_stage :: "environ \<Rightarrow> int" where
  "dsa_shrink_stage env =
     (case py_int (getenv env ''VLLM_ASCEND_DSA_SHRINK_LATENT'' ''0'') of None \<Rightarrow> 0 | Some n \<Rightarrow> n)"

section \<open>Specifications\<close>

type_synonym dtype = string

record attention_spec =
  attn_block_size :: int
  num_kv_heads :: int
  head_size :: int
  dtype :: dtype
  page_size_padded :: "int option"

record full_fields =
  head_size_v :: int
  full_sliding_window :: "int option"
  full_attention_chunk_size :: "int option"

record mla_fields =
  cache_dtype_str :: "string option"
  sparse_head_dim :: "int list option"
  cache_sparse_c8 :: bool
  c8_k_cache_dtype :: dtype
  c8_k_scale_cache_dtype :: dtype

record mamba_spec =
  mamba_block_size :: int
  shapes :: "int list list"
  dtypes :: "dtype list"
  mamba_page_size_padded :: "int option"
  mamba_type :: string
  mamba_cache_mode :: string
  num_speculative_blocks :: int

datatype kv_cache_spec =
    FullAttentionSpec attention_spec full_fields
  | MLAAttentionSpec attention_spec full_fields mla_fields
  | SinkFullAttentionSpec attention_spec full_fields "int option"
  | ChunkedLocalAttentionSpec attention_spec int
  | SlidingWindowSpec attention_spec int
  | MambaSpec mamba_spec
  | EncoderOnlyAttentionSpec attention_spec
  | CrossAttentionSpec attention_spec
  | UniformTypeKVCacheSpecs int "(string \<times> kv_cache_spec) list"

fun block_size :: "kv_cache_spec \<Rightarrow> int" where
  "block_size (FullAttentionSpec a _) = attn_block_size a"
| "block_size (MLAAttentionSpec a _ _) = attn_block_size a"
| "block_size (SinkFullAttentionSpec a _ _) = attn_block_size a"
| "block_size (ChunkedLocalAttentionSpec a _) = attn_block_size a"
| "block_size (SlidingWindowSpec a _) = attn_block_size a"
| "block_size (MambaSpec s) = mamba_block_size s"
| "block_size (EncoderOnlyAttentionSpec a) = attn_block_size a"
| "block_size (CrossAttentionSpec a) = attn_block_size a"
| "block_size (UniformTypeKVCacheSpecs b _) = b"

fun copy_with_new_block_size :: "int \<Rightarrow> kv_cache_spec \<Rightarrow> kv_cache_spec" where
  "copy_with_new_block_size b (FullAttentionSpec a f) = FullAttentionSpec (a\<lparr>attn_block_size := b\<rparr>) f"
| "copy_with_new_block_size b (MLAAttentionSpec a f m) = MLAAttentionSpec (a\<lparr>attn_block_size := b\<rparr>) f m"
| "copy_with_new_block_size b (SinkFullAttentionSpec a f s) = SinkFullAttentionSpec (a\<lparr>attn_block_size := b\<rparr>) f s"
| "copy_with_new_block_size b (ChunkedLocalAttentionSpec a c) = ChunkedLocalAttentionSpec (a\<lparr>attn_block_size := b\<rparr>) c"
| "copy_with_new_block_size b (SlidingWindowSpec a w) = SlidingWindowSpec (a\<lparr>attn_block_size := b\<rparr>) w"
| "copy_with_new_block_size b (MambaSpec s) = MambaSpec (s\<lparr>mamba_block_size := b\<rparr>)"
| "copy_with_new_block_size b (EncoderOnlyAttentionSpec a) = EncoderOnlyAttentionSpec (a\<lparr>attn_block_size := b\<rparr>)"
| "copy_with_new_block_size b (CrossAttentionSpec a) = CrossAttentionSpec (a\<lparr>attn_block_size := b\<rparr>)"
| "copy_with_new_block_size b (UniformTypeKVCacheSpecs _ ss) = UniformTypeKVCacheSpecs b ss"

text \<open>\<^verbatim>\<open>isinstance\<close> along the class hierarchy: MLA and sink specifications are full attention
  specifications.\<close>

fun is_full_attention :: "kv_cache_spec \<Rightarrow> bool" where
  "is_full_attention (FullAttentionSpec _ _) = True"
| "is_full_attention (MLAAttentionSpec _ _ _) = True"
| "is_full_attention (SinkFullAttentionSpec _ _ _) = True"
| "is_full_attention _ = False"

fun is_mla :: "kv_cache_spec \<Rightarrow> bool" where
  "is_mla (MLAAttentionSpec _ _ _) = True"
| "is_mla _ = False"

fun attn_of :: "kv_cache_spec \<Rightarrow> attention_spec option" where
  "attn_of (FullAttentionSpec a _) = Some a"
| "attn_of (MLAAttentionSpec a _ _) = Some a"
| "attn_of (SinkFullAttentionSpec a _ _) = Some a"
| "attn_of (ChunkedLocalAttentionSpec a _) = Some a"
| "attn_of (SlidingWindowSpec a _) = Some a"
| "attn_of (EncoderOnlyAttentionSpec a) = Some a"
| "attn_of (CrossAttentionSpec a) = Some a"
| "attn_of _ = None"

fun full_of :: "kv_cache_spec \<Rightarrow> full_fields option" where
  "full_of (FullAttentionSpec _ f) = Some f"
| "full_of (MLAAttentionSpec _ f _) = Some f"
| "full_of (SinkFullAttentionSpec _ f _) = Some f"
| "full_of _ = None"

definition full_post_init :: "int \<Rightarrow> int option \<Rightarrow> int" where
  "full_post_init hs hv = (case hv of None \<Rightarrow> hs | Some v \<Rightarrow> v)"

section \<open>Page sizes\<close>

definition attn_real_page_size_bytes :: "(dtype \<Rightarrow> int) \<Rightarrow> attention_spec \<Rightarrow> int" where
  "attn_real_page_size_bytes dsize a = 2 * attn_block_size a * num_kv_heads a * head_size a * dsize (dtype a)"

definition full_real_page_size_bytes :: "(dtype \<Rightarrow> int) \<Rightarrow> attention_spec \<Rightarrow> full_fields \<Rightarrow> int" where
  "full_real_page_size_bytes dsize a f =
     attn_block_size a * num_kv_heads a * (head_size a + head_size_v f) * dsize (dtype a)"

definition mla_real_page_size_bytes :: "(dtype \<Rightarrow> int) \<Rightarrow> attention_spec \<Rightarrow> mla_fields \<Rightarrow> int" where
  "mla_real_page_size_bytes dsize a m =
     (if cache_dtype_str m = Some ''fp8_ds_mla'' then attn_block_size a * 656
      else attn_block_size a * num_kv_heads a * head_size a * dsize (dtype a))"

definition padded_page_size :: "int option \<Rightarrow> int \<Rightarrow> int res" where
  "padded_page_size padded real_page_size =
     (case padded of None \<Rightarrow> Inr real_page_size | Some p \<Rightarrow> rassert (p \<ge> real_page_size) (Inr p))"

definition mla_page_size_bytes :: "(dtype \<Rightarrow> int) \<Rightarrow> attention_spec \<Rightarrow> mla_fields \<Rightarrow> int res" where
  "mla_page_size_bytes dsize a m =
     (if cache_sparse_c8 m then
        (case sparse_head_dim m of
           Some [kv_lora_rank, qk_rope_head_dim, index_head_dim] \<Rightarrow>
             (let num_heads_per_page = attn_block_size a * num_kv_heads a;
                  k_pe_nope_bytes = num_heads_per_page * (kv_lora_rank + qk_rope_head_dim) * dsize (dtype a);
                  indexer_k_bytes = num_heads_per_page * index_head_dim * dsize (c8_k_cache_dtype m);
                  indexer_k_scale_bytes = num_heads_per_page * 1 * dsize (c8_k_scale_cache_dtype m)
              in Inr (k_pe_nope_bytes + indexer_k_bytes + indexer_k_scale_bytes))
         | _ \<Rightarrow> Inl AssertionError)
      else Inr (attn_block_size a * num_kv_heads a * head_size a * dsize (dtype a)))"

definition mamba_page_size_bytes :: "(dtype \<Rightarrow> int) \<Rightarrow> mamba_spec \<Rightarrow> int res" where
  "mamba_page_size_bytes dsize s =
     padded_page_size (mamba_page_size_padded s)
       (sum_list (map (\<lambda>(shape, d). prod_list shape * dsize d) (zip (shapes s) (dtypes s))))"

lemma rmap_cong [fundef_cong]: "xs = ys \<Longrightarrow> (\<And>x. x \<in> set ys \<Longrightarrow> f x = g x) \<Longrightarrow> rmap f xs = rmap g ys"
  by (induction xs arbitrary: ys) (auto simp: rbind_def)

fun page_size_bytes :: "(dtype \<Rightarrow> int) \<Rightarrow> kv_cache_spec \<Rightarrow> int res" where
  "page_size_bytes dsize (FullAttentionSpec a f) = padded_page_size (page_size_padded a) (full_real_page_size_bytes dsize a f)"
| "page_size_bytes dsize (MLAAttentionSpec a f m) = mla_page_size_bytes dsize a m"
| "page_size_bytes dsize (SinkFullAttentionSpec a f s) = padded_page_size (page_size_padded a) (full_real_page_size_bytes dsize a f)"
| "page_size_bytes dsize (ChunkedLocalAttentionSpec a c) = padded_page_size (page_size_padded a) (attn_real_page_size_bytes dsize a)"
| "page_size_bytes dsize (SlidingWindowSpec a w) = padded_page_size (page_size_padded a) (attn_real_page_size_bytes dsize a)"
| "page_size_bytes dsize (MambaSpec s) = mamba_page_size_bytes dsize s"
| "page_size_bytes dsize (EncoderOnlyAttentionSpec a) = padded_page_size (page_size_padded a) (attn_real_page_size_bytes dsize a)"
| "page_size_bytes dsize (CrossAttentionSpec a) = padded_page_size (page_size_padded a) (attn_real_page_size_bytes dsize a)"
| "page_size_bytes dsize (UniformTypeKVCacheSpecs b ss) =
     rbind (rmap (\<lambda>(_, s). page_size_bytes dsize s) ss) (\<lambda>ps. Inr (sum_list ps))"

section \<open>Memory bounds\<close>

text \<open>The parts of the engine configuration the bounds read.\<close>

record vllm_config =
  max_model_len :: int
  max_num_batched_tokens :: int
  max_num_encoder_input_tokens :: int
  decode_context_parallel_size :: int
  prefill_context_parallel_size :: int
  cfg_mamba_cache_mode :: string

definition full_max_tokens :: "vllm_config \<Rightarrow> int" where
  "full_max_tokens v =
     (if decode_context_parallel_size v * prefill_context_parallel_size v > 1
      then cdiv (max_model_len v) (decode_context_parallel_size v * prefill_context_parallel_size v)
      else max_model_len v)"

definition py_max :: "int list \<Rightarrow> int res" where
  "py_max xs = (case xs of [] \<Rightarrow> Inl ValueError | _ \<Rightarrow> Inr (Max (set xs)))"

definition full_max_memory_usage_bytes :: "vllm_config \<Rightarrow> attention_spec \<Rightarrow> int \<Rightarrow> int" where
  "full_max_memory_usage_bytes v a p = cdiv (full_max_tokens v) (attn_block_size a) * p"

definition chunked_max_memory_usage_bytes :: "vllm_config \<Rightarrow> attention_spec \<Rightarrow> int \<Rightarrow> int \<Rightarrow> int" where
  "chunked_max_memory_usage_bytes v a c p =
     (let num_tokens = min (c + max_num_batched_tokens v) (max_model_len v) in cdiv num_tokens (attn_block_size a) * p)"

definition sliding_max_memory_usage_bytes :: "vllm_config \<Rightarrow> attention_spec \<Rightarrow> int \<Rightarrow> int \<Rightarrow> int res" where
  "sliding_max_memory_usage_bytes v a w p =
     rassert (decode_context_parallel_size v = 1)
       (let num_tokens = min (w - 1 + max_num_batched_tokens v) (max_model_len v)
        in Inr ((cdiv num_tokens (attn_block_size a) + 1) * p))"

definition mamba_max_memory_usage_bytes :: "vllm_config \<Rightarrow> mamba_spec \<Rightarrow> int \<Rightarrow> int" where
  "mamba_max_memory_usage_bytes v s p =
     (if cfg_mamba_cache_mode v = ''all'' then cdiv (max_model_len v) (mamba_block_size s) * p
      else if cfg_mamba_cache_mode v = ''align'' then p * (2 + num_speculative_blocks s)
      else p * (1 + num_speculative_blocks s))"

definition cross_max_memory_usage_bytes :: "vllm_config \<Rightarrow> attention_spec \<Rightarrow> int \<Rightarrow> int" where
  "cross_max_memory_usage_bytes v a p = cdiv (max_num_encoder_input_tokens v) (attn_block_size a) * p"

text \<open>The page size raises before the bound does only where both would fail on an assertion.\<close>

fun max_memory_usage_bytes :: "(dtype \<Rightarrow> int) \<Rightarrow> vllm_config \<Rightarrow> kv_cache_spec \<Rightarrow> int res" where
  "max_memory_usage_bytes dsize v (FullAttentionSpec a f) =
     rbind (page_size_bytes dsize (FullAttentionSpec a f)) (\<lambda>p. Inr (full_max_memory_usage_bytes v a p))"
| "max_memory_usage_bytes dsize v (MLAAttentionSpec a f m) =
     rbind (page_size_bytes dsize (MLAAttentionSpec a f m)) (\<lambda>p. Inr (full_max_memory_usage_bytes v a p))"
| "max_memory_usage_bytes dsize v (SinkFullAttentionSpec a f s) =
     rbind (page_size_bytes dsize (SinkFullAttentionSpec a f s)) (\<lambda>p. Inr (full_max_memory_usage_bytes v a p))"
| "max_memory_usage_bytes dsize v (ChunkedLocalAttentionSpec a c) =
     rbind (page_size_bytes dsize (ChunkedLocalAttentionSpec a c)) (\<lambda>p. Inr (chunked_max_memory_usage_bytes v a c p))"
| "max_memory_usage_bytes dsize v (SlidingWindowSpec a w) =
     rbind (page_size_bytes dsize (SlidingWindowSpec a w)) (sliding_max_memory_usage_bytes v a w)"
| "max_memory_usage_bytes dsize v (MambaSpec s) =
     rbind (page_size_bytes dsize (MambaSpec s)) (\<lambda>p. Inr (mamba_max_memory_usage_bytes v s p))"
| "max_memory_usage_bytes dsize v (EncoderOnlyAttentionSpec a) = Inr 0"
| "max_memory_usage_bytes dsize v (CrossAttentionSpec a) =
     rbind (page_size_bytes dsize (CrossAttentionSpec a)) (\<lambda>p. Inr (cross_max_memory_usage_bytes v a p))"
| "max_memory_usage_bytes dsize v (UniformTypeKVCacheSpecs b ss) =
     rbind (rmap (\<lambda>(_, s). rbind (max_memory_usage_bytes dsize v s) (\<lambda>u.
              rbind (page_size_bytes dsize s) (\<lambda>p. if p = 0 then Inl ZeroDivisionError else Inr (cdiv u p)))) ss) (\<lambda>ns.
     rbind (py_max ns) (\<lambda>max_num_pages.
     rbind (page_size_bytes dsize (UniformTypeKVCacheSpecs b ss)) (\<lambda>p. Inr (max_num_pages * p))))"

section \<open>Merging the layers of a group\<close>

text \<open>A set of window sizes as the list of its members in order of first occurrence.\<close>

definition merge_window_sizes :: "int list \<Rightarrow> int option res" where
  "merge_window_sizes window_sizes =
     (case window_sizes of [] \<Rightarrow> Inr None | [w] \<Rightarrow> Inr (Some w) | _ \<Rightarrow> Inl ValueError)"

definition base_merge :: "kv_cache_spec list \<Rightarrow> kv_cache_spec res" where
  "base_merge specs =
     (case specs of
        [] \<Rightarrow> Inl IndexError
      | s # ss \<Rightarrow> rassert (\<forall>t\<in>set ss. t = s) (Inr s))"

definition windows :: "(full_fields \<Rightarrow> int option) \<Rightarrow> kv_cache_spec list \<Rightarrow> int list" where
  "windows sel specs = fold set_add (List.map_filter (\<lambda>s. Option.bind (full_of s) sel) specs) []"

text \<open>The part \<^verbatim>\<open>FullAttentionSpec.merge\<close> and \<^verbatim>\<open>SinkFullAttentionSpec.merge\<close> have in common; the
  first specification's fields come as \<open>a\<close>, \<open>f\<close>, and the result is built by \<open>mk\<close>.\<close>

definition merge_full_with :: "(attention_spec \<Rightarrow> full_fields \<Rightarrow> kv_cache_spec) \<Rightarrow> attention_spec \<Rightarrow> full_fields \<Rightarrow>
    kv_cache_spec list \<Rightarrow> kv_cache_spec res" where
  "merge_full_with mk a f specs =
     rassert (\<forall>s\<in>set specs. is_full_attention s)
      (rassert (\<not> (\<exists>s\<in>set specs. is_mla s))
        (rbind (merge_window_sizes (windows full_sliding_window specs)) (\<lambda>sw.
         rbind (merge_window_sizes (windows full_attention_chunk_size specs)) (\<lambda>cs.
           rassert (\<forall>s\<in>set specs. attn_of s = Some a)
            (rassert (sw = None \<or> cs = None)
              (Inr (mk a (f\<lparr>full_sliding_window := sw, full_attention_chunk_size := cs\<rparr>))))))))"

definition mla_merge :: "kv_cache_spec list \<Rightarrow> attention_spec \<Rightarrow> mla_fields \<Rightarrow> kv_cache_spec res" where
  "mla_merge specs a m =
     rassert (\<forall>s\<in>set specs. is_mla s)
      (let all_eq = (\<lambda>g. \<forall>s\<in>set specs. case s of MLAAttentionSpec b _ n \<Rightarrow> g b n | _ \<Rightarrow> False)
       in rassert (all_eq (\<lambda>b n. cache_dtype_str n = cache_dtype_str m))
           (rassert (all_eq (\<lambda>b n. head_size b = head_size a))
             (rassert (all_eq (\<lambda>b n. sparse_head_dim n = sparse_head_dim m))
               (Inr (MLAAttentionSpec
                  (a\<lparr>page_size_padded := None\<rparr>)
                  \<lparr>head_size_v = full_post_init (head_size a) None, full_sliding_window = None, full_attention_chunk_size = None\<rparr>
                  \<lparr>cache_dtype_str = cache_dtype_str m, sparse_head_dim = sparse_head_dim m, cache_sparse_c8 = cache_sparse_c8 m,
                   c8_k_cache_dtype = ''int8'', c8_k_scale_cache_dtype = ''float16''\<rparr>)))))"

definition full_merge :: "kv_cache_spec list \<Rightarrow> attention_spec \<Rightarrow> full_fields \<Rightarrow> kv_cache_spec res" where
  "full_merge specs a f = merge_full_with FullAttentionSpec a f specs"

definition sink_merge :: "kv_cache_spec list \<Rightarrow> attention_spec \<Rightarrow> full_fields \<Rightarrow> int option \<Rightarrow> kv_cache_spec res" where
  "sink_merge specs a f sink_len = merge_full_with (\<lambda>a f. SinkFullAttentionSpec a f sink_len) a f specs"

text \<open>\<^verbatim>\<open>type(specs[0]).merge(specs)\<close>.\<close>

definition merge :: "kv_cache_spec list \<Rightarrow> kv_cache_spec res" where
  "merge specs =
     (case specs of
        [] \<Rightarrow> Inl IndexError
      | FullAttentionSpec a f # _ \<Rightarrow> full_merge specs a f
      | SinkFullAttentionSpec a f sink # _ \<Rightarrow> sink_merge specs a f sink
      | MLAAttentionSpec a f m # _ \<Rightarrow> mla_merge specs a m
      | _ \<Rightarrow> base_merge specs)"

section \<open>Uniform types\<close>

definition mla_head_sizes :: "kv_cache_spec list \<Rightarrow> int list" where
  "mla_head_sizes specs =
     fold set_add (List.map_filter (\<lambda>s. case s of MLAAttentionSpec a _ _ \<Rightarrow> Some (head_size a) | _ \<Rightarrow> None) specs) []"

definition is_uniform_type :: "environ \<Rightarrow> (string \<times> kv_cache_spec) list \<Rightarrow> bool res" where
  "is_uniform_type env specs =
     (let vs = map snd specs
      in if dsa_two_groups_enabled env \<and> length (mla_head_sizes vs) > 1 then Inr False
         else if length (fold set_add (map block_size vs) []) > 1 then Inr False
         else (case vs of
                 [] \<Rightarrow> Inl StopIteration
               | one # _ \<Rightarrow>
                   if is_full_attention one then Inr (\<forall>s\<in>set vs. is_full_attention s)
                   else (case one of
                           CrossAttentionSpec _ \<Rightarrow> Inr (\<forall>s\<in>set vs. case s of CrossAttentionSpec _ \<Rightarrow> True | _ \<Rightarrow> False)
                         | SlidingWindowSpec _ w \<Rightarrow> Inr (\<forall>s\<in>set vs. case s of SlidingWindowSpec _ w' \<Rightarrow> w' = w | _ \<Rightarrow> False)
                         | ChunkedLocalAttentionSpec _ c \<Rightarrow>
                             Inr (\<forall>s\<in>set vs. case s of ChunkedLocalAttentionSpec _ c' \<Rightarrow> c' = c | _ \<Rightarrow> False)
                         | MambaSpec m \<Rightarrow>
                             Inr (\<forall>s\<in>set vs. case s of MambaSpec m' \<Rightarrow> num_speculative_blocks m' = num_speculative_blocks m
                                                | _ \<Rightarrow> False)
                         | _ \<Rightarrow> Inl NotImplementedError)))"

definition from_specs :: "environ \<Rightarrow> (string \<times> kv_cache_spec) list \<Rightarrow> kv_cache_spec option res" where
  "from_specs env specs =
     rbind (is_uniform_type env specs) (\<lambda>u.
       if u then (case specs of [] \<Rightarrow> Inl StopIteration
                  | (_, s) # _ \<Rightarrow> Inr (Some (UniformTypeKVCacheSpecs (block_size s) specs)))
       else Inr None)"

section \<open>Configuration\<close>

record kv_cache_tensor =
  tensor_size :: int
  shared_by :: "string list"

record kv_cache_group =
  layer_names :: "string list"
  kv_cache_spec :: kv_cache_spec

record kv_cache_config =
  num_blocks :: int
  kv_cache_tensors :: "kv_cache_tensor list"
  kv_cache_groups :: "kv_cache_group list"
  num_blocks_per_group :: "int list option"
  dsa_index_topk :: "int option"
  dsa_num_speculative_tokens :: int

definition has_mamba_layers :: "kv_cache_config \<Rightarrow> bool" where
  "has_mamba_layers c \<longleftrightarrow> (\<exists>g\<in>set (kv_cache_groups c). case kv_cache_spec g of MambaSpec _ \<Rightarrow> True | _ \<Rightarrow> False)"

definition needs_kv_cache_zeroing :: "kv_cache_config \<Rightarrow> bool" where
  "needs_kv_cache_zeroing c = has_mamba_layers c"

section \<open>Blocks a range of tokens touches\<close>

definition blocks_touched :: "int \<Rightarrow> int \<Rightarrow> int \<Rightarrow> int set" where
  "blocks_touched bs s n = (\<lambda>t. t div bs) ` {s..<s + n}"

lemma blocks_touched_bound:
  assumes bs: "0 < bs" and "0 \<le> n" and lim: "s + n \<le> (k + s div bs) * bs" "0 \<le> k"
  shows "int (card (blocks_touched bs s n)) \<le> k"
proof -
  have "blocks_touched bs s n \<subseteq> {s div bs..<k + s div bs}"
  proof
    fix x assume "x \<in> blocks_touched bs s n"
    then obtain t where t: "s \<le> t" "t < s + n" "x = t div bs" by (auto simp: blocks_touched_def)
    have "s div bs \<le> x" using t bs by (simp add: zdiv_mono1)
    moreover have "\<not> k + s div bs \<le> x"
      using int_le_div_iff [OF bs, of "k + s div bs" t] t lim by linarith
    ultimately show "x \<in> {s div bs..<k + s div bs}" by simp
  qed
  then have "card (blocks_touched bs s n) \<le> card {s div bs..<k + s div bs}" by (intro card_mono) auto
  then show ?thesis using lim(2) by simp
qed

lemma blocks_touched_le:
  assumes bs: "0 < bs" and n: "0 \<le> n" "n \<le> m"
  shows "int (card (blocks_touched bs s n)) \<le> cdiv m bs + 1"
    and "bs dvd s \<Longrightarrow> int (card (blocks_touched bs s n)) \<le> cdiv m bs"
proof -
  have m: "m \<le> cdiv m bs * bs" "0 \<le> cdiv m bs" using bs n by (simp_all add: cdiv_mult_ge cdiv_nonneg)
  have "s < (s div bs + 1) * bs" using bs int_le_div_iff [of bs "s div bs + 1" s] by linarith
  then have "s + n \<le> (cdiv m bs + 1 + s div bs) * bs" using m n by (simp add: algebra_simps)
  then show "int (card (blocks_touched bs s n)) \<le> cdiv m bs + 1" using bs n m by (intro blocks_touched_bound) auto
  assume "bs dvd s"
  then have "s = s div bs * bs" by simp
  then have "s + n \<le> (cdiv m bs + s div bs) * bs" using m n by (simp add: algebra_simps)
  then show "int (card (blocks_touched bs s n)) \<le> cdiv m bs" using bs n m by (intro blocks_touched_bound) auto
qed

section \<open>Properties\<close>

lemma fold_set_add_single:
  assumes "fold set_add xs [] = [w]"
  shows "set xs = {w}"
  using fold_set_add(1) [of xs "[]"] assms by simp

lemma merge_window_sizes_eq:
  "merge_window_sizes (fold set_add xs []) =
     (if xs = [] then Inr None else if \<forall>x\<in>set xs. x = hd xs then Inr (Some (hd xs)) else Inl ValueError)"
proof -
  let ?l = "fold set_add xs []"
  have l: "set ?l = set xs" "distinct ?l" by (simp_all add: fold_set_add)
  consider (nil) "?l = []" | (one) w where "?l = [w]" | (more) u v rest where "?l = u # v # rest"
    by (metis list.exhaust)
  then show ?thesis
  proof cases
    case nil
    then have "xs = []" using l(1) by simp
    then show ?thesis by (simp add: merge_window_sizes_def)
  next
    case (one w)
    then have single: "set xs = {w}" using l(1) by simp
    then obtain y ys where xs: "xs = y # ys" by (cases xs) auto
    then have "y = w" using single by auto
    then have "(\<forall>x\<in>set xs. x = hd xs) \<and> hd xs = w" using single xs by auto
    then show ?thesis using one xs by (auto simp: merge_window_sizes_def)
  next
    case (more u v rest)
    then have "u \<in> set xs" "v \<in> set xs" "u \<noteq> v" unfolding l(1) [symmetric] using l(2) by auto
    then have "xs \<noteq> []" "\<not> (\<forall>x\<in>set xs. x = hd xs)" by (auto, metis)
    then show ?thesis using more by (simp add: merge_window_sizes_def)
  qed
qed

definition window_list :: "(full_fields \<Rightarrow> int option) \<Rightarrow> kv_cache_spec list \<Rightarrow> int list" where
  "window_list sel specs = List.map_filter (\<lambda>s. Option.bind (full_of s) sel) specs"

definition common_window :: "int list \<Rightarrow> int option" where
  "common_window ws = (case ws of [] \<Rightarrow> None | w # _ \<Rightarrow> Some w)"

text \<open>C37. Merging a group that starts with a full attention layer: it succeeds exactly when every layer
  is a full attention layer and none is an MLA layer, all share the first layer's block size,
  head counts, dtype and padding, the window sizes present agree, the chunk sizes present agree,
  and not both kinds occur; the result is the first layer's specification with the common window
  and chunk size. Disagreeing windows raise \<open>ValueError\<close>, everything else an assertion error.\<close>

theorem full_attention_merge_contract:
  "merge (FullAttentionSpec a f # rest) =
     (let specs = FullAttentionSpec a f # rest;
          ws = window_list full_sliding_window specs; cs = window_list full_attention_chunk_size specs
      in if \<not> (\<forall>s\<in>set specs. is_full_attention s \<and> \<not> is_mla s) then Inl AssertionError
         else if (\<exists>w\<in>set ws. w \<noteq> hd ws) \<or> (\<exists>c\<in>set cs. c \<noteq> hd cs) then Inl ValueError
         else if (\<exists>s\<in>set specs. attn_of s \<noteq> Some a) \<or> (ws \<noteq> [] \<and> cs \<noteq> []) then Inl AssertionError
         else Inr (FullAttentionSpec a (f\<lparr>full_sliding_window := common_window ws,
                                           full_attention_chunk_size := common_window cs\<rparr>)))"
proof -
  let ?specs = "FullAttentionSpec a f # rest"
  let ?ws = "window_list full_sliding_window ?specs" and ?cs = "window_list full_attention_chunk_size ?specs"
  have win: "merge_window_sizes (windows sel ?specs) =
      (if \<exists>w\<in>set (window_list sel ?specs). w \<noteq> hd (window_list sel ?specs) then Inl ValueError
       else Inr (common_window (window_list sel ?specs)))" for sel
    unfolding windows_def window_list_def merge_window_sizes_eq
    by (auto simp: common_window_def split: list.split)
  have none: "common_window ws = None \<longleftrightarrow> ws = []" for ws by (simp add: common_window_def split: list.split)
  have "merge ?specs = merge_full_with FullAttentionSpec a f ?specs" by (simp add: merge_def full_merge_def)
  also have "\<dots> = rassert (\<forall>s\<in>set ?specs. is_full_attention s) (rassert (\<not> (\<exists>s\<in>set ?specs. is_mla s))
      (if (\<exists>w\<in>set ?ws. w \<noteq> hd ?ws) \<or> (\<exists>c\<in>set ?cs. c \<noteq> hd ?cs) then Inl ValueError
       else rassert (\<forall>s\<in>set ?specs. attn_of s = Some a) (rassert (?ws = [] \<or> ?cs = [])
         (Inr (FullAttentionSpec a (f\<lparr>full_sliding_window := common_window ?ws, full_attention_chunk_size := common_window ?cs\<rparr>))))))"
    unfolding merge_full_with_def win by (simp add: none del: set_simps)
  finally show ?thesis unfolding Let_def rassert_def by (simp del: set_simps)
qed

text \<open>C38. The memory bounds of windowed attention. Whatever position the tokens start at, the blocks
  touched by the tokens a sliding window layer keeps (at most the window less one, plus one
  scheduling step) fit the bytes of its bound; for chunked attention the same holds for tokens
  that start at a multiple of the chunk size, provided that is a multiple of the block size.\<close>

theorem window_memory_bounds_suffice:
  assumes "0 < attn_block_size a" and "0 \<le> n" and "0 \<le> p"
  shows "(n \<le> min (w - 1 + max_num_batched_tokens v) (max_model_len v) \<longrightarrow>
      page_size_bytes dsize (SlidingWindowSpec a w) = Inr p \<longrightarrow>
      max_memory_usage_bytes dsize v (SlidingWindowSpec a w) = Inr u \<longrightarrow>
      int (card (blocks_touched (attn_block_size a) s n)) * p \<le> u) \<and>
    (n \<le> min (c + max_num_batched_tokens v) (max_model_len v) \<longrightarrow> attn_block_size a dvd c \<longrightarrow> c dvd s \<longrightarrow>
      page_size_bytes dsize (ChunkedLocalAttentionSpec a c) = Inr p \<longrightarrow>
      max_memory_usage_bytes dsize v (ChunkedLocalAttentionSpec a c) = Inr u \<longrightarrow>
      int (card (blocks_touched (attn_block_size a) s n)) * p \<le> u)"
  using blocks_touched_le(1) [OF assms(1,2), of "min (w - 1 + max_num_batched_tokens v) (max_model_len v)" s]
    blocks_touched_le(2) [OF assms(1,2), of "min (c + max_num_batched_tokens v) (max_model_len v)" s] assms(3)
  by (intro conjI; auto simp: rassert_eq_Inr_iff sliding_max_memory_usage_bytes_def chunked_max_memory_usage_bytes_def Let_def
      intro: mult_right_mono dvd_trans)

definition demo_attn :: attention_spec where
  "demo_attn = \<lparr>attn_block_size = 4, num_kv_heads = 1, head_size = 8, dtype = ''float16'', page_size_padded = None\<rparr>"

definition demo_config :: vllm_config where
  "demo_config = \<lparr>max_model_len = 100, max_num_batched_tokens = 1, max_num_encoder_input_tokens = 0,
     decode_context_parallel_size = 1, prefill_context_parallel_size = 1, cfg_mamba_cache_mode = ''none''\<rparr>"

theorem full_attention_merge_contract_witness:
  "merge [FullAttentionSpec demo_attn \<lparr>head_size_v = 8, full_sliding_window = None, full_attention_chunk_size = None\<rparr>,
          FullAttentionSpec demo_attn \<lparr>head_size_v = 8, full_sliding_window = Some 7, full_attention_chunk_size = None\<rparr>] =
     Inr (FullAttentionSpec demo_attn \<lparr>head_size_v = 8, full_sliding_window = Some 7, full_attention_chunk_size = None\<rparr>)"
  unfolding full_attention_merge_contract by code_simp

theorem window_memory_bounds_suffice_witness:
  "int (card (blocks_touched 4 6 7)) * 128 \<le> 384 \<and>
   page_size_bytes (\<lambda>_. 2) (SlidingWindowSpec demo_attn 7) = Inr 128 \<and>
   max_memory_usage_bytes (\<lambda>_. 2) demo_config (SlidingWindowSpec demo_attn 7) = Inr 384 \<and>
   int (card (blocks_touched 4 8 9)) * 128 \<le> 384 \<and>
   page_size_bytes (\<lambda>_. 2) (ChunkedLocalAttentionSpec demo_attn 8) = Inr 128 \<and>
   max_memory_usage_bytes (\<lambda>_. 2) demo_config (ChunkedLocalAttentionSpec demo_attn 8) = Inr 384"
proof -
  have p: "page_size_bytes (\<lambda>_. 2) (SlidingWindowSpec demo_attn 7) = Inr 128"
    and u: "max_memory_usage_bytes (\<lambda>_. 2) demo_config (SlidingWindowSpec demo_attn 7) = Inr 384"
    and p': "page_size_bytes (\<lambda>_. 2) (ChunkedLocalAttentionSpec demo_attn 8) = Inr 128"
    and u': "max_memory_usage_bytes (\<lambda>_. 2) demo_config (ChunkedLocalAttentionSpec demo_attn 8) = Inr 384"
    by code_simp+
  have "int (card (blocks_touched 4 6 7)) * 128 \<le> 384"
    using window_memory_bounds_suffice [of demo_attn 7 128 7 demo_config "\<lambda>_. 2" 384 6] p u
    by (simp add: demo_attn_def demo_config_def)
  moreover have "int (card (blocks_touched 4 8 9)) * 128 \<le> 384"
    using window_memory_bounds_suffice [of demo_attn 9 128 _ demo_config "\<lambda>_. 2" 384 8 8] p' u'
    by (simp add: demo_attn_def demo_config_def)
  ultimately show ?thesis using p u p' u' by blast
qed

text \<open>Two observations on the source. Full attention layers whose value heads differ in size merge,
  although their pages differ; and the page size of an MLA layer does not use the layer's own
  \<^verbatim>\<open>real_page_size_bytes\<close>, so the 656 bytes per token of the \<^verbatim>\<open>fp8_ds_mla\<close> format never enter it.\<close>

lemma merge_ignores_value_head_size:
  "\<exists>s t m. merge [s, t] = Inr m \<and> page_size_bytes (\<lambda>_. 2) m = Inr 128 \<and> page_size_bytes (\<lambda>_. 2) t = Inr 192"
  by (rule exI [of _ "FullAttentionSpec demo_attn \<lparr>head_size_v = 8, full_sliding_window = None, full_attention_chunk_size = None\<rparr>"],
      rule exI [of _ "FullAttentionSpec demo_attn \<lparr>head_size_v = 16, full_sliding_window = None, full_attention_chunk_size = None\<rparr>"],
      rule exI [of _ "FullAttentionSpec demo_attn \<lparr>head_size_v = 8, full_sliding_window = None, full_attention_chunk_size = None\<rparr>"])
    code_simp

lemma chunked_bound_needs_alignment:
  "max_memory_usage_bytes (\<lambda>_. 2) demo_config (ChunkedLocalAttentionSpec demo_attn 6) = Inr (2 * 128) \<and>
   card (blocks_touched 4 6 7) = 3"
proof
  show "max_memory_usage_bytes (\<lambda>_. 2) demo_config (ChunkedLocalAttentionSpec demo_attn 6) = Inr (2 * 128)" by code_simp
  have "{6..<13::int} = {6, 7, 8, 9, 10, 11, 12}" by auto
  then have "blocks_touched 4 6 7 = {1, 2, 3}" unfolding blocks_touched_def by auto
  then show "card (blocks_touched 4 6 7) = 3" by simp
qed

lemma mla_page_ignores_real_page:
  "page_size_bytes dsize (MLAAttentionSpec a f (m\<lparr>cache_dtype_str := Some ''fp8_ds_mla'', cache_sparse_c8 := False\<rparr>)) =
     Inr (attn_block_size a * num_kv_heads a * head_size a * dsize (dtype a)) \<and>
   mla_real_page_size_bytes dsize a (m\<lparr>cache_dtype_str := Some ''fp8_ds_mla'', cache_sparse_c8 := False\<rparr>) = attn_block_size a * 656"
  by (simp add: mla_page_size_bytes_def mla_real_page_size_bytes_def)

end
