(* ===== verification/Single_Type_Managers.thy ===== *)
theory Single_Type_Managers
  imports Pool_Ops KV_Spec
begin

text \<open>
  \<^verbatim>\<open>vllm/v1/core/single_type_kv_cache_manager.py\<close>: the managers that give the requests of one cache
  group their blocks. A manager object is one record for all classes, with its class as a tag; the
  attributes of a subclass are unused fields for the others. Dictionaries are association lists in
  insertion order. Logging and the diagnostic events have no effect on the state and are left out.
\<close>

section \<open>Dictionaries\<close>

definition dget :: "('k \<times> 'v) list \<Rightarrow> 'k \<Rightarrow> 'v \<Rightarrow> 'v" where
  "dget d k dflt = (case map_of d k of None \<Rightarrow> dflt | Some v \<Rightarrow> v)"

definition dhas :: "('k \<times> 'v) list \<Rightarrow> 'k \<Rightarrow> bool" where
  "dhas d k \<longleftrightarrow> map_of d k \<noteq> None"

definition dsetdefault :: "'k \<Rightarrow> 'v \<Rightarrow> ('k \<times> 'v) list \<Rightarrow> ('k \<times> 'v) list" where
  "dsetdefault k v d = (if dhas d k then d else d @ [(k, v)])"

section \<open>Managers\<close>

datatype manager_class =
    FullAttentionManager
  | DSALatentManager
  | SlidingWindowManager
  | ChunkedLocalAttentionManager
  | MambaManager
  | CrossAttentionManager
  | SinkFullAttentionManager

record manager =
  mgr_class :: manager_class
  mgr_spec :: kv_cache_spec
  mgr_block_size :: int
  mgr_enable_caching :: bool
  new_block_ids :: "int list"
  req_to_blocks :: "(string \<times> blk list) list"
  num_cached_block :: "(string \<times> int) list"
  kv_cache_group_id :: int
  mgr_null :: blk
  scratch_blocks :: int
  compact_prefix_tokens :: "(string \<times> int) list"
  compact_released_blocks :: "(string \<times> int) list"
  cached_blocks_this_step :: "bytes list"
  last_state_block_idx :: "(string \<times> int) list"
  allocated_block_reqs :: "string list"
  sink_blocks :: "blk list"

definition SingleTypeKVCacheManager :: "manager_class \<Rightarrow> kv_cache_spec \<Rightarrow> blk \<Rightarrow> bool \<Rightarrow> int \<Rightarrow> int \<Rightarrow> int \<Rightarrow> manager" where
  "SingleTypeKVCacheManager cl spec nb caching gid dcp pcp =
     \<lparr>mgr_class = cl, mgr_spec = spec,
      mgr_block_size = (if dcp * pcp > 1 then block_size spec * (dcp * pcp) else block_size spec),
      mgr_enable_caching = caching, new_block_ids = [], req_to_blocks = [], num_cached_block = [],
      kv_cache_group_id = gid, mgr_null = nb, scratch_blocks = 0, compact_prefix_tokens = [],
      compact_released_blocks = [], cached_blocks_this_step = [], last_state_block_idx = [],
      allocated_block_reqs = [], sink_blocks = []\<rparr>"

definition mamba_mode :: "manager \<Rightarrow> string" where
  "mamba_mode m = (case mgr_spec m of MambaSpec s \<Rightarrow> mamba_cache_mode s | _ \<Rightarrow> '''')"

definition mamba_spec_blocks :: "manager \<Rightarrow> int" where
  "mamba_spec_blocks m = (case mgr_spec m of MambaSpec s \<Rightarrow> num_speculative_blocks s | _ \<Rightarrow> 0)"

definition sliding_get_num_skipped_tokens :: "int \<Rightarrow> int \<Rightarrow> int" where
  "sliding_get_num_skipped_tokens w ncomp = max 0 (ncomp - w + 1)"

definition chunked_get_num_skipped_tokens :: "int \<Rightarrow> int \<Rightarrow> int" where
  "chunked_get_num_skipped_tokens c ncomp = ncomp div c * c"

definition mamba_get_num_skipped_tokens :: "int \<Rightarrow> int" where
  "mamba_get_num_skipped_tokens ncomp = ncomp - 1"

definition get_num_skipped_tokens :: "manager \<Rightarrow> int \<Rightarrow> int" where
  "get_num_skipped_tokens m ncomp =
     (case (mgr_class m, mgr_spec m) of
        (SlidingWindowManager, SlidingWindowSpec _ w) \<Rightarrow> sliding_get_num_skipped_tokens w ncomp
      | (ChunkedLocalAttentionManager, ChunkedLocalAttentionSpec _ c) \<Rightarrow> chunked_get_num_skipped_tokens c ncomp
      | (MambaManager, _) \<Rightarrow> mamba_get_num_skipped_tokens ncomp
      | _ \<Rightarrow> 0)"

definition get_num_evictable_blocks :: "'p pool_ops \<Rightarrow> 'p \<Rightarrow> blk list \<Rightarrow> int" where
  "get_num_evictable_blocks ops p bs =
     int (length (filter (\<lambda>b. ref_cnt (po_block ops p b) = 0 \<and> \<not> is_null (po_block ops p b)) bs))"

text \<open>\<^verbatim>\<open>self.req_to_blocks[request_id]\<close> on the \<^verbatim>\<open>defaultdict\<close> enters an empty list for a new key.\<close>

definition req_blocks :: "manager \<Rightarrow> string \<Rightarrow> blk list" where
  "req_blocks m rid = dget (req_to_blocks m) rid []"

definition default_req :: "string \<Rightarrow> manager \<Rightarrow> manager" where
  "default_req rid m = m\<lparr>req_to_blocks := dsetdefault rid [] (req_to_blocks m)\<rparr>"

definition set_req_blocks :: "string \<Rightarrow> blk list \<Rightarrow> manager \<Rightarrow> manager" where
  "set_req_blocks rid bs m = m\<lparr>req_to_blocks := AList.update rid bs (req_to_blocks m)\<rparr>"

definition add_new_block_ids :: "'p pool_ops \<Rightarrow> 'p \<Rightarrow> blk list \<Rightarrow> manager \<Rightarrow> manager" where
  "add_new_block_ids ops p bs m =
     (case mgr_spec m of
        FullAttentionSpec _ _ \<Rightarrow> m\<lparr>new_block_ids := new_block_ids m @ map (\<lambda>b. block_id (po_block ops p b)) bs\<rparr>
      | _ \<Rightarrow> m)"

section \<open>The base class\<close>

definition base_get_num_blocks_to_allocate :: "'p pool_ops \<Rightarrow> manager \<Rightarrow> 'p \<Rightarrow> string \<Rightarrow> int \<Rightarrow> blk list \<Rightarrow> int \<Rightarrow> int res" where
  "base_get_num_blocks_to_allocate ops m p rid ntok new_computed_blocks total_computed_tokens =
     (let num_required_blocks = cdiv ntok (mgr_block_size m);
          num_req_blocks = int (length (req_blocks m rid))
      in if dhas (num_cached_block m) rid
         then rassert (new_computed_blocks = []) (Inr (max (num_required_blocks - num_req_blocks) 0))
         else
           (let num_skipped_tokens = get_num_skipped_tokens m total_computed_tokens;
                num_local_computed_blocks = int (length new_computed_blocks) + num_req_blocks;
                num_skipped_blocks = num_skipped_tokens div mgr_block_size m;
                num_new_blocks = max (num_required_blocks - max num_skipped_blocks num_local_computed_blocks) 0;
                num_skipped_new_computed_blocks = max 0 (num_skipped_blocks - num_req_blocks)
            in Inr (num_new_blocks +
                 get_num_evictable_blocks ops p (py_from new_computed_blocks num_skipped_new_computed_blocks))))"

definition base_allocate_new_computed_blocks :: "'p pool_ops \<Rightarrow> string \<Rightarrow> blk list \<Rightarrow> int \<Rightarrow> int \<Rightarrow> manager \<times> 'p \<Rightarrow>
    (manager \<times> 'p) res" where
  "base_allocate_new_computed_blocks ops rid new_computed_blocks num_local num_external s =
     (let (m, p) = s
      in if dhas (num_cached_block m) rid then rassert (new_computed_blocks = []) (Inr s)
         else rassert (req_blocks m rid = [])
          (let num_total = num_local + num_external;
               num_skipped_tokens = get_num_skipped_tokens m num_total;
               num_skipped_blocks = num_skipped_tokens div mgr_block_size m;
               computed = (if num_skipped_blocks > 0 then py_from new_computed_blocks num_skipped_blocks
                           else new_computed_blocks);
               external = (if num_skipped_blocks > 0 then min (num_total - num_skipped_tokens) num_external
                           else num_external)
           in rbind (if mgr_enable_caching m then po_touch ops computed p
                     else rassert (computed = []) (Inr p)) (\<lambda>p1.
              let rb = replicate (nat num_skipped_blocks) (mgr_null m) @ computed;
                  m1 = (set_req_blocks rid rb (default_req rid m))
                         \<lparr>num_cached_block := AList.update rid (int (length rb)) (num_cached_block m)\<rparr>
              in if external > 0
                 then rbind (po_get_new_blocks ops (cdiv num_total (mgr_block_size m) - int (length rb)) p1)
                        (\<lambda>(allocated, p2).
                           Inr (add_new_block_ids ops p2 allocated (set_req_blocks rid (rb @ allocated) m1), p2))
                 else Inr (m1, p1))))"

definition base_allocate_new_blocks :: "'p pool_ops \<Rightarrow> string \<Rightarrow> int \<Rightarrow> manager \<times> 'p \<Rightarrow> (blk list \<times> manager \<times> 'p) res" where
  "base_allocate_new_blocks ops rid ntok s =
     (let (m, p) = s; rb = req_blocks m rid; m1 = default_req rid m;
          num_new_blocks = cdiv ntok (mgr_block_size m) - int (length rb)
      in if num_new_blocks \<le> 0 then Inr ([], m1, p)
         else rbind (po_get_new_blocks ops num_new_blocks p) (\<lambda>(new_blocks, p1).
                Inr (new_blocks, add_new_block_ids ops p1 new_blocks (set_req_blocks rid (rb @ new_blocks) m1), p1)))"

definition take_new_block_ids :: "manager \<Rightarrow> int list \<times> manager" where
  "take_new_block_ids m = (new_block_ids m, m\<lparr>new_block_ids := []\<rparr>)"

definition base_cache_blocks :: "'p pool_ops \<Rightarrow> request \<Rightarrow> int \<Rightarrow> manager \<times> 'p \<Rightarrow> (manager \<times> 'p) res" where
  "base_cache_blocks ops r ntok s =
     (let (m, p) = s; rid = request_id r;
          num_cached_blocks = dget (num_cached_block m) rid 0;
          num_full_blocks = ntok div mgr_block_size m
      in if num_cached_blocks \<ge> num_full_blocks then Inr s
         else rbind (po_cache_full_blocks ops r (req_blocks m rid) num_cached_blocks num_full_blocks
                       (mgr_block_size m) (kv_cache_group_id m) p) (\<lambda>p1.
                Inr ((default_req rid m)\<lparr>num_cached_block := AList.update rid num_full_blocks (num_cached_block m)\<rparr>, p1)))"

definition base_free :: "'p pool_ops \<Rightarrow> string \<Rightarrow> manager \<times> 'p \<Rightarrow> (manager \<times> 'p) res" where
  "base_free ops rid s =
     (let (m, p) = s
      in rbind (po_free_blocks ops (rev (req_blocks m rid)) p) (\<lambda>p1.
           Inr (m\<lparr>req_to_blocks := AList.delete rid (req_to_blocks m),
                  num_cached_block := AList.delete rid (num_cached_block m)\<rparr>, p1)))"

text \<open>The loop of \<^verbatim>\<open>remove_skipped_blocks\<close> from index \<open>n - 1\<close> down to 0, and its effect on the list.\<close>

fun skip_loop :: "blk \<Rightarrow> blk list \<Rightarrow> nat \<Rightarrow> blk list \<times> blk list" where
  "skip_loop nb bs 0 = ([], bs)"
| "skip_loop nb bs (Suc i) =
     (if bs ! i = nb then ([], bs)
      else (let (removed, bs') = skip_loop nb (bs[i := nb]) i in (bs ! i # removed, bs')))"

definition base_remove_skipped_blocks :: "'p pool_ops \<Rightarrow> string \<Rightarrow> int \<Rightarrow> manager \<times> 'p \<Rightarrow> (manager \<times> 'p) res" where
  "base_remove_skipped_blocks ops rid total_computed_tokens s =
     (let (m, p) = s; num_skipped_tokens = get_num_skipped_tokens m total_computed_tokens
      in if num_skipped_tokens \<le> 0 then Inr s
         else (let bs = req_blocks m rid;
                   num_skipped_blocks = min (num_skipped_tokens div mgr_block_size m) (int (length bs));
                   (removed, bs') = skip_loop (mgr_null m) bs (nat num_skipped_blocks)
               in rbind (po_free_blocks ops removed p) (\<lambda>p1.
                    Inr (set_req_blocks rid bs' (default_req rid m), p1))))"

section \<open>The DSA latent manager\<close>

definition is_compact_external :: "manager \<Rightarrow> string \<Rightarrow> bool" where
  "is_compact_external m rid = dhas (compact_prefix_tokens m) rid"

definition round_up_to_bundle :: "int \<Rightarrow> int \<Rightarrow> int" where
  "round_up_to_bundle bpb n = cdiv n bpb * bpb"

definition round_down_to_bundle :: "int \<Rightarrow> int \<Rightarrow> int" where
  "round_down_to_bundle bpb n = n div bpb * bpb"

definition compact_required_indices :: "int \<Rightarrow> manager \<Rightarrow> int \<Rightarrow> int \<Rightarrow> int \<Rightarrow> bool \<Rightarrow> int \<Rightarrow> int list" where
  "compact_required_indices bpb m prefix_tokens ntok ntok_main force_compact released =
     (let required_blocks = round_up_to_bundle bpb (cdiv ntok (mgr_block_size m))
      in if \<not> force_compact \<and> ntok_main \<le> prefix_tokens then [0..required_blocks - 1]
         else
           (let scratch_end = round_up_to_bundle bpb (scratch_blocks m);
                tail0 = max (round_down_to_bundle bpb (prefix_tokens div mgr_block_size m)) released;
                final_prompt_idx = max (cdiv prefix_tokens (mgr_block_size m) - 1) 0;
                tail_start = (if force_compact then min tail0 (round_down_to_bundle bpb final_prompt_idx) else tail0)
            in [0..scratch_end - 1] @ [max scratch_end tail_start..required_blocks - 1]))"

text \<open>Indices here are never negative, so \<^verbatim>\<open>req_blocks[idx]\<close> is the plain list access.\<close>

definition get_num_missing_blocks :: "manager \<Rightarrow> string \<Rightarrow> int list \<Rightarrow> int" where
  "get_num_missing_blocks m rid required =
     (let bs = req_blocks m rid
      in int (length (filter (\<lambda>i. i \<ge> int (length bs) \<or> bs ! nat i = mgr_null m) required)))"

definition mark_compact :: "string \<Rightarrow> int \<Rightarrow> manager \<Rightarrow> manager" where
  "mark_compact rid prefix_tokens m =
     m\<lparr>compact_prefix_tokens := AList.update rid prefix_tokens (compact_prefix_tokens m),
       compact_released_blocks := dsetdefault rid 0 (compact_released_blocks m)\<rparr>"

definition get_num_blocks_to_allocate_compact_external ::
  "'p pool_ops \<Rightarrow> manager \<Rightarrow> 'p \<Rightarrow> string \<Rightarrow> int \<Rightarrow> blk list \<Rightarrow> int \<Rightarrow> int \<Rightarrow> int \<times> manager" where
  "get_num_blocks_to_allocate_compact_external ops m p rid ntok new_computed_blocks total_computed_tokens ntok_main =
     (let m1 = mark_compact rid total_computed_tokens m;
          required = compact_required_indices (po_blocks_per_bundle ops p) m1 total_computed_tokens ntok ntok_main True 0
      in (get_num_missing_blocks m1 rid required + get_num_evictable_blocks ops p new_computed_blocks, m1))"

definition latent_get_num_blocks_to_allocate ::
  "'p pool_ops \<Rightarrow> manager \<Rightarrow> 'p \<Rightarrow> string \<Rightarrow> int \<Rightarrow> blk list \<Rightarrow> int \<Rightarrow> int \<Rightarrow> int res" where
  "latent_get_num_blocks_to_allocate ops m p rid ntok new_computed_blocks total_computed_tokens ntok_main =
     (case map_of (compact_prefix_tokens m) rid of
        None \<Rightarrow> base_get_num_blocks_to_allocate ops m p rid ntok new_computed_blocks total_computed_tokens
      | Some prefix_tokens \<Rightarrow>
          (let required = compact_required_indices (po_blocks_per_bundle ops p) m prefix_tokens ntok ntok_main False
                            (dget (compact_released_blocks m) rid 0)
           in Inr (get_num_missing_blocks m rid required + get_num_evictable_blocks ops p new_computed_blocks)))"

definition allocate_new_computed_blocks_compact_external ::
  "'p pool_ops \<Rightarrow> string \<Rightarrow> blk list \<Rightarrow> int \<Rightarrow> int \<Rightarrow> manager \<times> 'p \<Rightarrow> (manager \<times> 'p) res" where
  "allocate_new_computed_blocks_compact_external ops rid new_computed_blocks num_local num_external s =
     (let (m, p) = s
      in if dhas (num_cached_block m) rid then rassert (new_computed_blocks = []) (Inr s)
         else rassert (new_computed_blocks = []) (rassert (num_external > 0)
          (let prefix_tokens = num_local + num_external;
               m1 = mark_compact rid prefix_tokens m;
               scratch = round_up_to_bundle (po_blocks_per_bundle ops p) (scratch_blocks m)
           in rbind (po_get_new_blocks ops scratch p) (\<lambda>(allocated, p1).
              rassert (int (length allocated) = scratch)
               (let logical_blocks = max (cdiv prefix_tokens (mgr_block_size m)) scratch
                in rassert (req_blocks m rid = [])
                  (let rb = allocated @ replicate (nat (logical_blocks - scratch)) (mgr_null m)
                   in Inr ((set_req_blocks rid rb (default_req rid m1))
                            \<lparr>num_cached_block := AList.update rid (int (length rb)) (num_cached_block m)\<rparr>, p1)))))))"

definition allocate_compact_request_blocks ::
  "'p pool_ops \<Rightarrow> string \<Rightarrow> int \<Rightarrow> int \<Rightarrow> bool \<Rightarrow> manager \<times> 'p \<Rightarrow> (blk list \<times> manager \<times> 'p) res" where
  "allocate_compact_request_blocks ops rid ntok ntok_main force_compact s =
     (let (m, p) = s
      in case map_of (compact_prefix_tokens m) rid of
           None \<Rightarrow> Inl AssertionError
         | Some prefix_tokens \<Rightarrow>
             (let required = compact_required_indices (po_blocks_per_bundle ops p) m prefix_tokens ntok ntok_main force_compact
                               (dget (compact_released_blocks m) rid 0);
                  bs0 = req_blocks m rid;
                  bs = (if required = [] then bs0
                        else bs0 @ replicate (nat (last required + 1) - length bs0) (mgr_null m));
                  missing = filter (\<lambda>i. bs ! nat i = mgr_null m) required;
                  m1 = set_req_blocks rid bs (default_req rid m)
              in if missing = [] then Inr ([], m1, p)
                 else rbind (po_get_new_blocks ops (int (length missing)) p) (\<lambda>(new_blocks, p1).
                   rassert (length new_blocks = length missing)
                    (Inr (new_blocks,
                          set_req_blocks rid (fold (\<lambda>(i, b) xs. xs[nat i := b]) (zip missing new_blocks) bs) m1, p1)))))"

definition allocate_new_blocks_compact_external ::
  "'p pool_ops \<Rightarrow> string \<Rightarrow> int \<Rightarrow> int \<Rightarrow> manager \<times> 'p \<Rightarrow> (blk list \<times> manager \<times> 'p) res" where
  "allocate_new_blocks_compact_external ops rid ntok ntok_main s =
     allocate_compact_request_blocks ops rid ntok ntok_main True s"

definition latent_allocate_new_blocks ::
  "'p pool_ops \<Rightarrow> string \<Rightarrow> int \<Rightarrow> int \<Rightarrow> manager \<times> 'p \<Rightarrow> (blk list \<times> manager \<times> 'p) res" where
  "latent_allocate_new_blocks ops rid ntok ntok_main s =
     (if \<not> is_compact_external (fst s) rid then base_allocate_new_blocks ops rid ntok s
      else allocate_compact_request_blocks ops rid ntok ntok_main False s)"

definition latent_free :: "'p pool_ops \<Rightarrow> string \<Rightarrow> manager \<times> 'p \<Rightarrow> (manager \<times> 'p) res" where
  "latent_free ops rid s =
     (let (m, p) = s
      in base_free ops rid
           (m\<lparr>compact_prefix_tokens := AList.delete rid (compact_prefix_tokens m),
              compact_released_blocks := AList.delete rid (compact_released_blocks m)\<rparr>, p))"

text \<open>The release loop from index \<open>start + n - 1\<close> down to \<open>start\<close>; null blocks are passed over.\<close>

fun release_loop_from :: "blk \<Rightarrow> nat \<Rightarrow> blk list \<Rightarrow> nat \<Rightarrow> blk list \<times> blk list" where
  "release_loop_from nb start bs 0 = ([], bs)"
| "release_loop_from nb start bs (Suc i) =
     (if bs ! (start + i) = nb then release_loop_from nb start bs i
      else (let (removed, bs') = release_loop_from nb start (bs[start + i := nb]) i in (bs ! (start + i) # removed, bs')))"

definition remove_saved_decode_window_blocks :: "'p pool_ops \<Rightarrow> string \<Rightarrow> int \<Rightarrow> manager \<times> 'p \<Rightarrow> (int \<times> manager \<times> 'p) res" where
  "remove_saved_decode_window_blocks ops rid committed_end s =
     (let (m, p) = s
      in if committed_end \<le> 0 then Inr (0, m, p)
         else (case map_of (req_to_blocks m) rid of
                 None \<Rightarrow> Inr (0, m, p)
               | Some bs \<Rightarrow>
                   if bs = [] then Inr (0, m, p)
                   else if committed_end mod mgr_block_size m \<noteq> 0 then Inl ValueError
                   else
                     (let start = scratch_blocks m;
                          end = min (committed_end div mgr_block_size m) (int (length bs));
                          m1 = (if dhas (compact_prefix_tokens m) rid
                                then m\<lparr>compact_released_blocks :=
                                        AList.update rid (max (dget (compact_released_blocks m) rid 0) end)
                                          (compact_released_blocks m)\<rparr>
                                else m)
                      in if end \<le> start then Inr (0, m1, p)
                         else (let (removed, bs') = release_loop_from (mgr_null m) (nat start) bs (nat end - nat start)
                               in rbind (po_free_blocks ops removed p) (\<lambda>p1.
                                    Inr (int (length removed), set_req_blocks rid bs' m1, p1))))))"

section \<open>The Mamba manager\<close>

definition mamba_remove_skipped_blocks :: "'p pool_ops \<Rightarrow> string \<Rightarrow> int \<Rightarrow> manager \<times> 'p \<Rightarrow> (manager \<times> 'p) res" where
  "mamba_remove_skipped_blocks ops rid ncomp s =
     (let n = max 0 (ncomp - mamba_spec_blocks (fst s))
      in rbind (base_remove_skipped_blocks ops rid n s) (\<lambda>(m, p).
           if mamba_mode m \<noteq> ''align'' then Inr (m, p)
           else (case map_of (last_state_block_idx m) rid of
                   None \<Rightarrow> Inr (m, p)
                 | Some i \<Rightarrow>
                     if i < cdiv n (mgr_block_size m) - 1
                     then rbind (py_index (req_blocks m rid) i) (\<lambda>b.
                            if b \<noteq> mgr_null m
                            then rbind (po_free_blocks ops [b] p) (\<lambda>p1.
                                 rbind (py_set (req_blocks m rid) i (mgr_null m)) (\<lambda>bs.
                                 Inr (set_req_blocks rid bs (default_req rid m), p1)))
                            else Inr (default_req rid m, p))
                     else Inr (m, p))))"

definition mamba_get_num_blocks_to_allocate ::
  "'p pool_ops \<Rightarrow> manager \<Rightarrow> 'p \<Rightarrow> string \<Rightarrow> int \<Rightarrow> blk list \<Rightarrow> int \<Rightarrow> int \<Rightarrow> (int \<times> manager) res" where
  "mamba_get_num_blocks_to_allocate ops m p rid ntok new_computed_blocks total_computed_tokens ntok_main =
     (if new_computed_blocks \<noteq> [] \<and>
         (case block_hash (po_block ops p (last new_computed_blocks)) of
            None \<Rightarrow> False | Some h \<Rightarrow> h \<in> set (cached_blocks_this_step m))
      then Inr (po_num_gpu_blocks ops p + 1, m)
      else if mamba_mode m \<noteq> ''align''
      then rbind (base_get_num_blocks_to_allocate ops m p rid
                    (if mamba_spec_blocks m > 0 then ntok + block_size (mgr_spec m) * mamba_spec_blocks m else ntok)
                    new_computed_blocks total_computed_tokens) (\<lambda>n. Inr (n, m))
      else
        (let num_required_blocks = cdiv ntok_main (mgr_block_size m) + mamba_spec_blocks m;
             n0 = num_required_blocks - int (length new_computed_blocks) - int (length (req_blocks m rid));
             num_new_blocks = (if n0 > 0 then (if rid \<in> set (allocated_block_reqs m) then 1 else 1 + mamba_spec_blocks m)
                               else n0)
         in Inr (num_new_blocks + get_num_evictable_blocks ops p new_computed_blocks, default_req rid m)))"

text \<open>The reuse of the speculative blocks of the previous step.\<close>

fun reuse_loop :: "blk \<Rightarrow> int \<Rightarrow> int list \<Rightarrow> blk list \<Rightarrow> blk list res" where
  "reuse_loop nb num_skipped [] bs = Inr bs"
| "reuse_loop nb num_skipped (i # is) bs =
     (if i < num_skipped
      then rbind (py_index bs i) (\<lambda>b. rbind (py_set (bs @ [b]) i nb) (reuse_loop nb num_skipped is))
      else Inr bs)"

definition mamba_allocate_new_blocks ::
  "'p pool_ops \<Rightarrow> string \<Rightarrow> int \<Rightarrow> int \<Rightarrow> manager \<times> 'p \<Rightarrow> (blk list \<times> manager \<times> 'p) res" where
  "mamba_allocate_new_blocks ops rid ntok ntok_main s =
     (let (m, p) = s; nspec = mamba_spec_blocks m
      in if mamba_mode m \<noteq> ''align''
         then base_allocate_new_blocks ops rid (if nspec > 0 then ntok + mgr_block_size m * nspec else ntok) s
         else
           (let rb = req_blocks m rid; m0 = default_req rid m;
                num_required_blocks = cdiv ntok_main (mgr_block_size m) + nspec; prev = int (length rb)
            in if num_required_blocks = prev then Inr ([], m0, p)
               else rassert (num_required_blocks > prev)
                 (let allocated = rid \<in> set (allocated_block_reqs m);
                      m1 = (if allocated then m0\<lparr>last_state_block_idx :=
                                AList.update rid (prev - 1 - nspec) (last_state_block_idx m)\<rparr>
                            else if prev > 0 then m0\<lparr>last_state_block_idx :=
                                AList.update rid (prev - 1) (last_state_block_idx m)\<rparr>
                            else m0);
                      num_skipped_blocks = num_required_blocks - nspec - 1;
                      rb1 = rb @ replicate (nat (num_skipped_blocks - prev)) (mgr_null m)
                  in rbind (if allocated then reuse_loop (mgr_null m) num_skipped_blocks [prev - nspec..prev - 1] rb1
                            else Inr rb1) (\<lambda>rb2.
                     let num_new_blocks = num_required_blocks - int (length rb2)
                     in rassert (if allocated then num_new_blocks \<le> 1 else num_new_blocks \<le> nspec + 1)
                       (rbind (po_get_new_blocks ops num_new_blocks p) (\<lambda>(new_blocks, p1).
                          let rb3 = rb2 @ new_blocks
                          in Inr (drop (length rb) rb3,
                               (set_req_blocks rid rb3 m1)\<lparr>allocated_block_reqs := set_add rid (allocated_block_reqs m)\<rparr>,
                               p1)))))))"

definition mamba_free :: "'p pool_ops \<Rightarrow> string \<Rightarrow> manager \<times> 'p \<Rightarrow> (manager \<times> 'p) res" where
  "mamba_free ops rid s =
     (let (m, p) = s
      in base_free ops rid
           (if mamba_mode m = ''align''
            then m\<lparr>allocated_block_reqs := removeAll rid (allocated_block_reqs m),
                   last_state_block_idx := AList.delete rid (last_state_block_idx m)\<rparr>
            else m, p))"

text \<open>The loop that records the hashes cached in this step.\<close>

definition note_cached :: "'p pool_ops \<Rightarrow> 'p \<Rightarrow> blk \<Rightarrow> bytes list \<Rightarrow> bytes list res" where
  "note_cached ops p b hs =
     (if is_null (po_block ops p b) then Inr hs
      else (case block_hash (po_block ops p b) of None \<Rightarrow> Inl AssertionError | Some h \<Rightarrow> Inr (set_add h hs)))"

definition mamba_cache_blocks :: "'p pool_ops \<Rightarrow> request \<Rightarrow> int \<Rightarrow> manager \<times> 'p \<Rightarrow> (manager \<times> 'p) res" where
  "mamba_cache_blocks ops r ntok s =
     (let rid = request_id r; before = dget (num_cached_block (fst s)) rid 0
      in rbind (base_cache_blocks ops r ntok s) (\<lambda>(m, p).
           let after = dget (num_cached_block m) rid 0
           in if after > before
              then rbind (rfold (note_cached ops p) (py_slice (req_blocks m rid) before after) (cached_blocks_this_step m))
                     (\<lambda>hs. Inr ((default_req rid m)\<lparr>cached_blocks_this_step := hs\<rparr>, p))
              else Inr (m, p)))"

section \<open>Method dispatch\<close>

definition get_num_blocks_to_allocate ::
  "'p pool_ops \<Rightarrow> manager \<Rightarrow> 'p \<Rightarrow> string \<Rightarrow> int \<Rightarrow> blk list \<Rightarrow> int \<Rightarrow> int \<Rightarrow> (int \<times> manager) res" where
  "get_num_blocks_to_allocate ops m p rid ntok new_computed_blocks total_computed_tokens ntok_main =
     (case mgr_class m of
        DSALatentManager \<Rightarrow>
          rbind (latent_get_num_blocks_to_allocate ops m p rid ntok new_computed_blocks total_computed_tokens ntok_main)
            (\<lambda>n. Inr (n, m))
      | MambaManager \<Rightarrow>
          mamba_get_num_blocks_to_allocate ops m p rid ntok new_computed_blocks total_computed_tokens ntok_main
      | _ \<Rightarrow> rbind (base_get_num_blocks_to_allocate ops m p rid ntok new_computed_blocks total_computed_tokens)
               (\<lambda>n. Inr (n, m)))"

definition cross_allocate_new_computed_blocks :: "blk list \<Rightarrow> manager \<times> 'p \<Rightarrow> (manager \<times> 'p) res" where
  "cross_allocate_new_computed_blocks new_computed_blocks s = rassert (new_computed_blocks = []) (Inr s)"

definition allocate_new_computed_blocks ::
  "'p pool_ops \<Rightarrow> string \<Rightarrow> blk list \<Rightarrow> int \<Rightarrow> int \<Rightarrow> manager \<times> 'p \<Rightarrow> (manager \<times> 'p) res" where
  "allocate_new_computed_blocks ops rid new_computed_blocks num_local num_external s =
     (case mgr_class (fst s) of
        CrossAttentionManager \<Rightarrow> cross_allocate_new_computed_blocks new_computed_blocks s
      | _ \<Rightarrow> base_allocate_new_computed_blocks ops rid new_computed_blocks num_local num_external s)"

definition allocate_new_blocks ::
  "'p pool_ops \<Rightarrow> string \<Rightarrow> int \<Rightarrow> int \<Rightarrow> manager \<times> 'p \<Rightarrow> (blk list \<times> manager \<times> 'p) res" where
  "allocate_new_blocks ops rid ntok ntok_main s =
     (case mgr_class (fst s) of
        DSALatentManager \<Rightarrow> latent_allocate_new_blocks ops rid ntok ntok_main s
      | MambaManager \<Rightarrow> mamba_allocate_new_blocks ops rid ntok ntok_main s
      | _ \<Rightarrow> base_allocate_new_blocks ops rid ntok s)"

definition cross_cache_blocks :: "manager \<times> 'p \<Rightarrow> (manager \<times> 'p) res" where
  "cross_cache_blocks s = Inl ValueError"

definition cache_blocks :: "'p pool_ops \<Rightarrow> request \<Rightarrow> int \<Rightarrow> manager \<times> 'p \<Rightarrow> (manager \<times> 'p) res" where
  "cache_blocks ops r ntok s =
     (case mgr_class (fst s) of
        CrossAttentionManager \<Rightarrow> cross_cache_blocks s
      | MambaManager \<Rightarrow> mamba_cache_blocks ops r ntok s
      | _ \<Rightarrow> base_cache_blocks ops r ntok s)"

definition free :: "'p pool_ops \<Rightarrow> string \<Rightarrow> manager \<times> 'p \<Rightarrow> (manager \<times> 'p) res" where
  "free ops rid s =
     (case mgr_class (fst s) of
        DSALatentManager \<Rightarrow> latent_free ops rid s
      | MambaManager \<Rightarrow> mamba_free ops rid s
      | _ \<Rightarrow> base_free ops rid s)"

definition latent_remove_skipped_blocks :: "manager \<times> 'p \<Rightarrow> (manager \<times> 'p) res" where
  "latent_remove_skipped_blocks s = Inr s"

definition remove_skipped_blocks :: "'p pool_ops \<Rightarrow> string \<Rightarrow> int \<Rightarrow> manager \<times> 'p \<Rightarrow> (manager \<times> 'p) res" where
  "remove_skipped_blocks ops rid total_computed_tokens s =
     (case mgr_class (fst s) of
        DSALatentManager \<Rightarrow> latent_remove_skipped_blocks s
      | MambaManager \<Rightarrow> mamba_remove_skipped_blocks ops rid total_computed_tokens s
      | _ \<Rightarrow> base_remove_skipped_blocks ops rid total_computed_tokens s)"

definition full_get_num_common_prefix_blocks :: "'p pool_ops \<Rightarrow> 'p \<Rightarrow> string \<Rightarrow> manager \<Rightarrow> int \<times> manager" where
  "full_get_num_common_prefix_blocks ops p rid m =
     (let m1 = default_req rid m; n = int (length (req_to_blocks m1))
      in (int (length (takeWhile (\<lambda>b. ref_cnt (po_block ops p b) = n) (req_blocks m rid))), m1))"

definition get_num_common_prefix_blocks :: "'p pool_ops \<Rightarrow> 'p \<Rightarrow> string \<Rightarrow> manager \<Rightarrow> int \<times> manager" where
  "get_num_common_prefix_blocks ops p rid m =
     (if mgr_class m \<in> {FullAttentionManager, DSALatentManager, SinkFullAttentionManager}
      then full_get_num_common_prefix_blocks ops p rid m else (0, m))"

definition new_step_starts :: "manager \<Rightarrow> manager" where
  "new_step_starts m = (if mgr_class m = MambaManager then m\<lparr>cached_blocks_this_step := []\<rparr> else m)"

section \<open>Construction\<close>

definition SinkFullAttentionManager_init :: "'p pool_ops \<Rightarrow> int option \<Rightarrow> manager \<times> 'p \<Rightarrow> (manager \<times> 'p) res" where
  "SinkFullAttentionManager_init ops sink_len s =
     (let (m, p) = s
      in case sink_len of
           None \<Rightarrow> Inl AssertionError
         | Some n \<Rightarrow> rassert (n > 0 \<and> n mod mgr_block_size m = 0)
             (rbind (po_queue_popleft_n ops (n div mgr_block_size m) p) (\<lambda>(bs, p1). Inr (m\<lparr>sink_blocks := bs\<rparr>, p1))))"

fun manager_class_of :: "kv_cache_spec \<Rightarrow> manager_class res" where
  "manager_class_of (FullAttentionSpec _ _) = Inr FullAttentionManager"
| "manager_class_of (MLAAttentionSpec _ _ _) = Inr FullAttentionManager"
| "manager_class_of (SlidingWindowSpec _ _) = Inr SlidingWindowManager"
| "manager_class_of (ChunkedLocalAttentionSpec _ _) = Inr ChunkedLocalAttentionManager"
| "manager_class_of (MambaSpec _) = Inr MambaManager"
| "manager_class_of (CrossAttentionSpec _) = Inr CrossAttentionManager"
| "manager_class_of (SinkFullAttentionSpec _ _ _) = Inr SinkFullAttentionManager"
| "manager_class_of _ = Inl KeyError"

definition is_dsa_latent :: "environ \<Rightarrow> kv_cache_spec \<Rightarrow> bool" where
  "is_dsa_latent env spec \<longleftrightarrow> dsa_two_groups_enabled env \<and> dsa_shrink_stage env = 2 \<and>
     (case spec of MLAAttentionSpec a _ _ \<Rightarrow> head_size a \<ge> 512 | _ \<Rightarrow> False)"

definition get_manager_for_kv_cache_spec :: "'p pool_ops \<Rightarrow> environ \<Rightarrow> kv_cache_spec \<Rightarrow> bool \<Rightarrow> int \<Rightarrow> int \<Rightarrow> int \<Rightarrow> 'p \<Rightarrow>
    (manager \<times> 'p) res" where
  "get_manager_for_kv_cache_spec ops env spec caching gid dcp pcp p =
     (if is_dsa_latent env spec
      then Inr (SingleTypeKVCacheManager DSALatentManager spec (po_null_block ops p) caching gid dcp pcp, p)
      else rbind (manager_class_of spec) (\<lambda>cl.
             let m = SingleTypeKVCacheManager cl spec (po_null_block ops p) caching gid dcp pcp
             in case spec of
                  SinkFullAttentionSpec _ _ sink_len \<Rightarrow> SinkFullAttentionManager_init ops sink_len (m, p)
                | _ \<Rightarrow> Inr (m, p)))"

end
