(* ===== verification/Cache_Hits.thy ===== *)
theory Cache_Hits
  imports Single_Type_Managers
begin

text \<open>
  The class methods \<^verbatim>\<open>find_longest_cache_hit\<close> of the managers in
  \<^verbatim>\<open>vllm/v1/core/single_type_kv_cache_manager.py\<close>. They read the prefix cache of a \<^verbatim>\<open>BlockPool\<close> and
  return one list of blocks per cache group. The lemmas show that each search terminates and
  returns the longest usable prefix: for full attention the longest aligned run of cached
  blocks from the start, for a sliding window the longest aligned prefix whose last blocks, as
  many as the window needs, are all cached.
\<close>

section \<open>The searches\<close>

definition hl_len :: "hash_list \<Rightarrow> int res" where
  "hl_len hl = (case hl of Plain hs \<Rightarrow> Inr (int (length hs)) | View v \<Rightarrow> hv_len v)"

definition pop_all :: "blk list list \<Rightarrow> blk list list res" where
  "pop_all cs = rmap (\<lambda>c. if c = [] then Inl IndexError else Inr (butlast c)) cs"

definition append_each :: "blk list list \<Rightarrow> blk list \<Rightarrow> blk list list" where
  "append_each cs bs = map (\<lambda>(c, b). c @ [b]) (zip cs bs)"

lemma rbind_cong [fundef_cong]: "m = m' \<Longrightarrow> (\<And>x. m' = Inr x \<Longrightarrow> f x = g x) \<Longrightarrow> rbind m f = rbind m' g"
  by (auto simp: rbind_def split: sum.split)

lemma pop_all_length:
  assumes "pop_all (c # cs) = Inr ds"
  shows "c \<noteq> [] \<and> ds \<noteq> [] \<and> length (hd ds) < length c"
  using assms by (auto simp: pop_all_def rbind_eq_Inr_iff split: if_splits)

text \<open>The loop that drops blocks until the hit length is a multiple of the alignment.\<close>

function align_pop :: "int \<Rightarrow> int \<Rightarrow> blk list list \<Rightarrow> blk list list res" where
  "align_pop bs al cs =
     (if bs = al then Inr cs
      else if al = 0 then Inl ZeroDivisionError
      else (case cs of
              [] \<Rightarrow> Inl IndexError
            | c0 # _ \<Rightarrow>
                if int (length c0) * bs mod al \<noteq> 0
                then rbind (pop_all cs) (align_pop bs al) else Inr cs))"
  by auto
termination
proof (relation "measure (\<lambda>(bs, al, cs). length (hd cs))")
  fix bs al :: int and cs c0 rest ds
  assume "cs = c0 # rest" and "pop_all cs = Inr ds"
  then show "((bs, al, ds), (bs, al, cs)) \<in> measure (\<lambda>(bs, al, cs). length (hd cs))"
    using pop_all_length [of c0 rest ds] by simp
qed simp

declare align_pop.simps [simp del]

fun run_hits :: "block_pool \<Rightarrow> hash_list \<Rightarrow> int list \<Rightarrow> int list \<Rightarrow> blk list list \<Rightarrow> blk list list res" where
  "run_hits p hl gids [] cs = Inr cs"
| "run_hits p hl gids (i # is) cs =
     rbind (hl_at hl i) (\<lambda>h. rbind (get_cached_block p h gids) (\<lambda>r.
       case r of
         None \<Rightarrow> Inr cs
       | Some bs \<Rightarrow> if bs = [] then Inr cs else run_hits p hl gids is (append_each cs bs)))"

definition full_find_longest_cache_hit ::
  "block_pool \<Rightarrow> hash_list \<Rightarrow> int \<Rightarrow> int list \<Rightarrow> kv_cache_spec \<Rightarrow> bool \<Rightarrow> int \<Rightarrow> int \<Rightarrow> int \<Rightarrow> blk list list res" where
  "full_find_longest_cache_hit p hl max_length gids spec use_eagle al dcp pcp =
     rassert (is_full_attention spec \<or> (case spec of ChunkedLocalAttentionSpec _ _ \<Rightarrow> True | _ \<Rightarrow> False))
       (let bs = (if dcp * pcp > 1 then block_size spec * (dcp * pcp) else block_size spec);
            max_num_blocks = max_length div bs
        in if bs = 0 then Inl ZeroDivisionError
           else if max_num_blocks < 0 then Inl ValueError
           else rbind (hl_len hl) (\<lambda>n.
                rbind (run_hits p hl gids [0..min max_num_blocks n - 1] (replicate (length gids) [])) (\<lambda>cs.
                rbind (if use_eagle then rbind (py_index cs 0) (\<lambda>c0. if c0 \<noteq> [] then pop_all cs else Inr cs) else Inr cs)
                  (align_pop bs al))))"

text \<open>The search from the right, at index \<open>j\<close> for argument \<open>Suc j\<close>; the flag tells whether a match
  was found.\<close>

fun window_hits :: "block_pool \<Rightarrow> hash_list \<Rightarrow> int list \<Rightarrow> int \<Rightarrow> int \<Rightarrow> int \<Rightarrow> nat \<Rightarrow> blk list list \<Rightarrow> int \<Rightarrow>
    (blk list list \<times> int \<times> bool) res" where
  "window_hits p hl gids bs al need 0 cs nc = Inr (cs, nc, False)"
| "window_hits p hl gids bs al need (Suc j) cs nc =
     rbind (hl_at hl (int j)) (\<lambda>h. rbind (get_cached_block p h gids) (\<lambda>r.
       if r = None \<or> r = Some [] then window_hits p hl gids bs al need j cs 0
       else if nc = 0 \<and> bs \<noteq> al \<and> al = 0 then Inl ZeroDivisionError
       else if nc = 0 \<and> bs \<noteq> al \<and> (int j + 1) * bs mod al \<noteq> 0 then window_hits p hl gids bs al need j cs nc
       else (let cs' = map (\<lambda>(c, b). c[j := b]) (zip cs (the r)); nc' = nc + 1
             in if nc' \<ge> need then Inr (map (take (nat (int j + nc'))) cs', nc', True)
                else window_hits p hl gids bs al need j cs' nc')))"

definition window_find_longest_cache_hit ::
  "block_pool \<Rightarrow> hash_list \<Rightarrow> int \<Rightarrow> int list \<Rightarrow> kv_cache_spec \<Rightarrow> bool \<Rightarrow> int \<Rightarrow> int \<Rightarrow> int \<Rightarrow> blk list list res" where
  "window_find_longest_cache_hit p hl max_length gids spec use_eagle al dcp pcp =
     (case spec of
        SlidingWindowSpec a w \<Rightarrow>
          rassert (dcp = 1) (rassert (pcp = 1)
            (let bs = attn_block_size a;
                 need = cdiv (w - 1) bs + (if use_eagle then 1 else 0);
                 max_num_blocks = nat (max_length div bs)
             in if bs = 0 then Inl ZeroDivisionError
                else rbind (window_hits p hl gids bs al need max_num_blocks
                         (replicate (length gids) (replicate max_num_blocks (null_block p))) 0) (\<lambda>(cs, nc, found).
                rbind (if found then Inr cs else align_pop bs al (map (take (nat nc)) cs)) (\<lambda>cs1.
                if use_eagle
                then rbind (py_index cs1 0) (\<lambda>c0. if c0 \<noteq> [] then rassert (bs = al) (pop_all cs1) else Inr cs1)
                else Inr cs1))))
      | _ \<Rightarrow> Inl AssertionError)"

definition chunked_find_longest_cache_hit ::
  "block_pool \<Rightarrow> hash_list \<Rightarrow> int \<Rightarrow> int list \<Rightarrow> kv_cache_spec \<Rightarrow> bool \<Rightarrow> int \<Rightarrow> int \<Rightarrow> int \<Rightarrow> blk list list res" where
  "chunked_find_longest_cache_hit p hl max_length gids spec use_eagle al dcp pcp =
     (case spec of
        ChunkedLocalAttentionSpec a c \<Rightarrow>
          rassert (\<not> use_eagle) (rassert (dcp = 1) (rassert (pcp = 1) (rassert (attn_block_size a = al)
            (let bs = attn_block_size a; max_num_blocks = max_length div bs;
                 start_idx = (if max_length > 0 then max_length div c * c else 0);
                 start_block = start_idx div bs
             in if bs = 0 \<or> (max_length > 0 \<and> c = 0) then Inl ZeroDivisionError
                else run_hits p hl gids [start_block..max_num_blocks - 1]
                  (replicate (length gids) (replicate (nat start_block) (null_block p)))))))
      | _ \<Rightarrow> Inl AssertionError)"

fun last_hit :: "block_pool \<Rightarrow> hash_list \<Rightarrow> int list \<Rightarrow> int \<Rightarrow> int \<Rightarrow> nat \<Rightarrow> blk list list res" where
  "last_hit p hl gids bs al 0 = Inr (replicate (length gids) [])"
| "last_hit p hl gids bs al (Suc i) =
     rbind (hl_at hl (int i)) (\<lambda>h. rbind (get_cached_block p h gids) (\<lambda>r.
       if r = None \<or> r = Some [] then last_hit p hl gids bs al i
       else if bs \<noteq> al \<and> al = 0 then Inl ZeroDivisionError
       else if bs \<noteq> al \<and> (int i + 1) * bs mod al \<noteq> 0 then last_hit p hl gids bs al i
       else Inr (map (\<lambda>b. replicate i (null_block p) @ [b]) (the r))))"

definition mamba_find_longest_cache_hit ::
  "block_pool \<Rightarrow> hash_list \<Rightarrow> int \<Rightarrow> int list \<Rightarrow> kv_cache_spec \<Rightarrow> bool \<Rightarrow> int \<Rightarrow> int \<Rightarrow> int \<Rightarrow> blk list list res" where
  "mamba_find_longest_cache_hit p hl max_length gids spec use_eagle al dcp pcp =
     (case spec of
        MambaSpec s \<Rightarrow>
          rassert (dcp = 1) (rassert (pcp = 1)
            (if mamba_block_size s = 0 then Inl ZeroDivisionError
             else last_hit p hl gids (mamba_block_size s) al (nat (max_length div mamba_block_size s))))
      | _ \<Rightarrow> Inl AssertionError)"

definition cross_find_longest_cache_hit ::
  "block_pool \<Rightarrow> hash_list \<Rightarrow> int \<Rightarrow> int list \<Rightarrow> kv_cache_spec \<Rightarrow> bool \<Rightarrow> int \<Rightarrow> int \<Rightarrow> int \<Rightarrow> blk list list res" where
  "cross_find_longest_cache_hit p hl max_length gids spec use_eagle al dcp pcp =
     rassert (case spec of CrossAttentionSpec _ \<Rightarrow> True | _ \<Rightarrow> False) (Inl NotImplementedError)"

definition find_longest_cache_hit :: "manager_class \<Rightarrow> block_pool \<Rightarrow> hash_list \<Rightarrow> int \<Rightarrow> int list \<Rightarrow> kv_cache_spec \<Rightarrow>
    bool \<Rightarrow> int \<Rightarrow> int \<Rightarrow> int \<Rightarrow> blk list list res" where
  "find_longest_cache_hit cl =
     (case cl of
        SlidingWindowManager \<Rightarrow> window_find_longest_cache_hit
      | ChunkedLocalAttentionManager \<Rightarrow> chunked_find_longest_cache_hit
      | MambaManager \<Rightarrow> mamba_find_longest_cache_hit
      | CrossAttentionManager \<Rightarrow> cross_find_longest_cache_hit
      | _ \<Rightarrow> full_find_longest_cache_hit)"

section \<open>What a lookup returns\<close>

text \<open>The hash list stands for the hashes \<open>hs\<close>, and \<open>look\<close> is the answer of the cache for them.\<close>

definition denotes :: "hash_list \<Rightarrow> bytes list \<Rightarrow> bool" where
  "denotes hl hs \<longleftrightarrow> hl_len hl = Inr (int (length hs)) \<and> (\<forall>i<length hs. hl_at hl (int i) = Inr (hs ! i))"

definition answers :: "block_pool \<Rightarrow> int list \<Rightarrow> (bytes \<Rightarrow> blk list option) \<Rightarrow> bool" where
  "answers p gids look \<longleftrightarrow>
     (\<forall>h. get_cached_block p h gids = Inr (look h) \<and> (\<forall>bs. look h = Some bs \<longrightarrow> length bs = length gids))"

text \<open>A hash is cached for the groups when each of them has a block that carries it.\<close>

definition carries :: "block_pool \<Rightarrow> int \<Rightarrow> bytes \<Rightarrow> blk \<Rightarrow> bool" where
  "carries p g h b \<longleftrightarrow> valid_blk p b \<and> b \<noteq> null_block p \<and> block_hash (bstore p b) = Some (key_of g h)"

definition cached :: "block_pool \<Rightarrow> int list \<Rightarrow> bytes \<Rightarrow> bool" where
  "cached p gids h \<longleftrightarrow> (\<forall>g\<in>set gids. \<exists>b. carries p g h b)"

lemma pool_answers:
  assumes ok: "pool_inv p xs" and gids: "\<forall>g\<in>set gids. group_id_ok g"
  shows "\<exists>look. answers p gids look \<and> (\<forall>h. (look h \<noteq> None) = cached p gids h \<and>
    (\<forall>bs. look h = Some bs \<longrightarrow> list_all2 (\<lambda>g b. carries p g h b) gids bs))"
proof -
  have null: "null_block p = Blk 0" using ok by (simp add: pool_ok_def)
  have "\<exists>r. get_cached_block p h gids = Inr r \<and> (r \<noteq> None) = cached p gids h \<and>
      (\<forall>bs. r = Some bs \<longrightarrow> length bs = length gids \<and> list_all2 (\<lambda>g b. carries p g h b) gids bs)" for h
  proof -
    obtain r where r: "get_cached_block p h gids = Inr r"
      "case r of
         None \<Rightarrow> \<exists>g\<in>set gids. \<forall>b. valid_blk p b \<longrightarrow> block_hash (data p b) \<noteq> Some (key_of g h)
       | Some bs \<Rightarrow> list_all2 (\<lambda>g b. valid_blk p b \<and> b \<noteq> Blk 0 \<and> block_hash (data p b) = Some (key_of g h)) gids bs"
      using cached_blocks_loop_spec [OF ok gids, of h] by (auto simp: get_cached_block_def)
    show ?thesis
    proof (cases r)
      case None
      then show ?thesis using r by (auto simp: cached_def carries_def data_sel)
    next
      case (Some bs)
      then have all: "list_all2 (\<lambda>g b. carries p g h b) gids bs" using r(2) by (simp add: carries_def null data_sel)
      then have "cached p gids h" unfolding cached_def by (metis list_all2_conv_all_nth in_set_conv_nth)
      then show ?thesis using r(1) Some all list_all2_lengthD [OF all] by auto
    qed
  qed
  then obtain look where "\<forall>h. get_cached_block p h gids = Inr (look h) \<and> (look h \<noteq> None) = cached p gids h \<and>
      (\<forall>bs. look h = Some bs \<longrightarrow> length bs = length gids \<and> list_all2 (\<lambda>g b. carries p g h b) gids bs)" by metis
  then show ?thesis unfolding answers_def by (intro exI [of _ look]) blast
qed

lemma denotes_Plain [simp]: "denotes (Plain hs) hs"
  by (simp add: denotes_def hl_len_def hl_at_def py_index_nth)

section \<open>Alignment\<close>

definition aligned :: "int \<Rightarrow> int \<Rightarrow> nat \<Rightarrow> bool" where
  "aligned bs al n \<longleftrightarrow> bs = al \<or> int n * bs mod al = 0"

lemma pop_all_take:
  assumes "\<forall>c\<in>set cs. length c = Suc n"
  shows "pop_all cs = Inr (map (take n) cs)"
proof -
  have "pop_all cs = Inr (map butlast cs)"
    unfolding pop_all_def using assms by (intro rmap_map) auto
  then show ?thesis using assms by (simp add: butlast_conv_take)
qed

lemma align_pop_take:
  assumes "cs \<noteq> []" and "\<forall>c\<in>set cs. length c = n" and "al \<noteq> 0"
  shows "\<exists>L\<le>n. aligned bs al L \<and> (\<forall>L'. L < L' \<and> L' \<le> n \<longrightarrow> \<not> aligned bs al L') \<and> align_pop bs al cs = Inr (map (take L) cs)"
  using assms
proof (induction n arbitrary: cs)
  case 0
  then obtain c0 rest where "cs = c0 # rest" "c0 = []" by (cases cs) auto
  then have "align_pop bs al cs = Inr cs" using 0 by (subst align_pop.simps) simp
  moreover have "map (take 0) cs = cs" using 0 by (intro map_idI) auto
  ultimately show ?case by (intro exI [of _ 0]) (auto simp: aligned_def)
next
  case (Suc n)
  obtain c0 rest where cs: "cs = c0 # rest" "length c0 = Suc n" using Suc.prems by (cases cs) auto
  show ?case
  proof (cases "aligned bs al (Suc n)")
    case True
    then have "align_pop bs al cs = Inr cs" using cs Suc.prems(3) by (subst align_pop.simps) (auto simp: aligned_def)
    moreover have "map (take (Suc n)) cs = cs" using Suc.prems by (simp add: map_idI)
    ultimately show ?thesis using True by (intro exI [of _ "Suc n"]) auto
  next
    case False
    have "align_pop bs al cs = align_pop bs al (map (take n) cs)"
      using False cs Suc.prems(3) pop_all_take [OF Suc.prems(2)] by (subst align_pop.simps) (simp add: aligned_def)
    moreover obtain L where L: "L \<le> n" "aligned bs al L" "\<forall>L'. L < L' \<and> L' \<le> n \<longrightarrow> \<not> aligned bs al L'"
      "align_pop bs al (map (take n) cs) = Inr (map (take L) (map (take n) cs))"
      using Suc.IH [of "map (take n) cs"] Suc.prems by auto
    moreover have "map (take L) (map (take n) cs) = map (take L) cs" using L(1) by (simp add: min_def)
    ultimately show ?thesis using False by (intro exI [of _ L]) (auto simp: le_Suc_eq)
  qed
qed

section \<open>Full attention\<close>

definition rows :: "(bytes \<Rightarrow> blk list option) \<Rightarrow> bytes list \<Rightarrow> nat \<Rightarrow> nat list \<Rightarrow> blk list list" where
  "rows look hs G is = map (\<lambda>g. map (\<lambda>i. the (look (hs ! i)) ! g) is) [0..<G]"

lemma append_each_eq:
  assumes "length cs = G" and "length bs = G"
  shows "append_each cs bs = map (\<lambda>g. cs ! g @ [bs ! g]) [0..<G]"
  using assms by (intro nth_equalityI) (auto simp: append_each_def)

lemma run_hits_eq:
  assumes ans: "answers p gids look" and gids: "gids \<noteq> []" and hl: "\<And>i. k \<le> i \<Longrightarrow> i < n \<Longrightarrow> hl_at hl (int i) = Inr (hs ! i)"
    and len: "length cs = length gids"
  shows "run_hits p hl gids (map int [k..<n]) cs =
    Inr (map (\<lambda>g. cs ! g @ map (\<lambda>i. the (look (hs ! i)) ! g) (takeWhile (\<lambda>i. look (hs ! i) \<noteq> None) [k..<n])) [0..<length gids])"
  using hl len
proof (induction "n - k" arbitrary: k cs)
  case 0
  then have nil: "[k..<n] = []" by simp
  show ?case unfolding nil using map_nth [of cs] 0 by simp
next
  case (Suc d)
  then have kn: "k < n" "[k..<n] = k # [Suc k..<n]" by (simp_all add: upt_conv_Cons)
  have at: "hl_at hl (int k) = Inr (hs ! k)" using Suc.prems(1) [of k] kn(1) by simp
  have look: "get_cached_block p (hs ! k) gids = Inr (look (hs ! k))" "\<And>bs. look (hs ! k) = Some bs \<Longrightarrow> length bs = length gids"
    using ans by (auto simp: answers_def)
  show ?case
  proof (cases "look (hs ! k)")
    case None
    moreover have "cs = map (\<lambda>g. cs ! g @ []) [0..<length gids]" using Suc.prems(2) by (intro nth_equalityI) auto
    ultimately show ?thesis using at look(1) by (simp add: kn(2) del: upt_Suc)
  next
    case (Some bs)
    have bs: "bs \<noteq> []" "length bs = length gids" using look(2) [OF Some] gids by auto
    have "run_hits p hl gids (map int [Suc k..<n]) (append_each cs bs) =
        Inr (map (\<lambda>g. append_each cs bs ! g @ map (\<lambda>i. the (look (hs ! i)) ! g) (takeWhile (\<lambda>i. look (hs ! i) \<noteq> None) [Suc k..<n]))
          [0..<length gids])"
      using Suc.hyps(2) Suc.prems bs(2) by (intro Suc.hyps(1)) (auto simp: append_each_def)
    then show ?thesis
      using at look(1) Some bs Suc.prems(2) by (simp add: kn(2) append_each_eq del: upt_Suc cong: map_cong)
  qed
qed

lemma takeWhile_upt:
  "takeWhile P [0..<n] = [0..<length (takeWhile P [0..<n])]"
proof -
  have "takeWhile P [0..<n] = take (length (takeWhile P [0..<n])) [0..<n]" by (rule takeWhile_eq_take)
  then show ?thesis using length_takeWhile_le [of P "[0..<n]"] by (simp add: take_upt)
qed

lemma rows_take: "L \<le> n \<Longrightarrow> map (take L) (rows look hs G [0..<n]) = rows look hs G [0..<L]"
  by (simp add: rows_def take_map take_upt)

lemma rows_length: "c \<in> set (rows look hs G is) \<Longrightarrow> length c = length is" "length (rows look hs G is) = G"
  by (auto simp: rows_def)

definition hit_run :: "(bytes \<Rightarrow> bool) \<Rightarrow> bytes list \<Rightarrow> nat \<Rightarrow> nat" where
  "hit_run c hs n = length (takeWhile (\<lambda>i. c (hs ! i)) [0..<n])"

lemma hit_run: "i < hit_run c hs n \<Longrightarrow> c (hs ! i)" "hit_run c hs n \<le> n"
  "hit_run c hs n < n \<Longrightarrow> \<not> c (hs ! hit_run c hs n)"
proof -
  let ?t = "takeWhile (\<lambda>i. c (hs ! i)) [0..<n]"
  have len: "hit_run c hs n = length ?t" by (simp add: hit_run_def)
  have t: "?t = [0..<hit_run c hs n]" unfolding len by (rule takeWhile_upt)
  show "i < hit_run c hs n \<Longrightarrow> c (hs ! i)" using set_takeWhileD [of i "\<lambda>i. c (hs ! i)" "[0..<n]"] unfolding t by simp
  show le: "hit_run c hs n \<le> n" using length_takeWhile_le [of "\<lambda>i. c (hs ! i)" "[0..<n]"] by (simp add: hit_run_def)
  assume "hit_run c hs n < n"
  then show "\<not> c (hs ! hit_run c hs n)"
    using nth_length_takeWhile [of "\<lambda>i. c (hs ! i)" "[0..<n]"] by (simp add: hit_run_def)
qed

lemma full_find_eq:
  assumes ans: "answers p gids look" and gids: "gids \<noteq> []" and hl: "denotes hl hs" and full: "is_full_attention spec"
    and bs: "0 < block_size spec" "dcp * pcp \<le> 1" and len: "0 \<le> max_length" and al: "al \<noteq> 0"
  defines "k \<equiv> hit_run (\<lambda>h. look h \<noteq> None) hs (min (nat (max_length div block_size spec)) (length hs))"
  shows "\<exists>L\<le>(if eagle then k - 1 else k). aligned (block_size spec) al L \<and>
    (\<forall>L'. L < L' \<and> L' \<le> (if eagle then k - 1 else k) \<longrightarrow> \<not> aligned (block_size spec) al L') \<and>
    full_find_longest_cache_hit p hl max_length gids spec eagle al dcp pcp = Inr (rows look hs (length gids) [0..<L])"
proof -
  let ?n = "min (nat (max_length div block_size spec)) (length hs)" and ?G = "length gids"
  have pos: "0 \<le> max_length div block_size spec" using bs len by (simp add: pos_imp_zdiv_nonneg_iff)
  have upto: "[0..min (max_length div block_size spec) (int (length hs)) - 1] = map int [0..<?n]"
    using upto_map_int [of 0 ?n] pos by (simp add: min_def split: if_splits)
  have k: "takeWhile (\<lambda>i. look (hs ! i) \<noteq> None) [0..<?n] = [0..<k]" unfolding k_def hit_run_def by (rule takeWhile_upt)
  have at: "\<And>i. 0 \<le> i \<Longrightarrow> i < ?n \<Longrightarrow> hl_at hl (int i) = Inr (hs ! i)" using hl by (simp add: denotes_def)
  have "run_hits p hl gids (map int [0..<?n]) (replicate ?G []) = Inr (map (\<lambda>g. replicate ?G [] ! g @
      map (\<lambda>i. the (look (hs ! i)) ! g) (takeWhile (\<lambda>i. look (hs ! i) \<noteq> None) [0..<?n])) [0..<?G])"
    by (rule run_hits_eq [OF ans gids]) (use at in auto)
  then have run: "run_hits p hl gids (map int [0..<?n]) (replicate ?G []) = Inr (rows look hs ?G [0..<k])"
    unfolding k by (simp add: rows_def cong: map_cong)
  define m where "m = (if eagle then k - 1 else k)"
  have G: "rows look hs ?G is = hd (rows look hs ?G is) # tl (rows look hs ?G is)" for "is"
    using gids by (auto simp: rows_def neq_Nil_conv)
  have head: "py_index (rows look hs ?G is) 0 = Inr (hd (rows look hs ?G is))" for "is"
    using G [of "is"] by (metis length_greater_0_conv list.discI nth_Cons_0 of_nat_0_less_iff order_refl py_index_nth nat_0 list.sel(1))
  have hd_len: "length (hd (rows look hs ?G is)) = length is" for "is" using G [of "is"] rows_length by (metis list.set_intros(1))
  have pop: "(if eagle then rbind (py_index (rows look hs ?G [0..<k]) 0)
        (\<lambda>c0. if c0 \<noteq> [] then pop_all (rows look hs ?G [0..<k]) else Inr (rows look hs ?G [0..<k]))
      else Inr (rows look hs ?G [0..<k])) = Inr (rows look hs ?G [0..<m])"
  proof (cases "eagle \<and> 0 < k")
    case True
    then obtain j where j: "k = Suc j" by (cases k) auto
    then have "pop_all (rows look hs ?G [0..<k]) = Inr (map (take j) (rows look hs ?G [0..<k]))"
      by (intro pop_all_take) (auto dest: rows_length(1))
    then show ?thesis using True j hd_len [of "[0..<k]"] by (auto simp: head rows_take m_def simp del: upt_Suc)
  next
    case False
    then show ?thesis using hd_len [of "[0..<k]"] by (auto simp: head m_def)
  qed
  obtain L where L: "L \<le> m" "aligned (block_size spec) al L" "\<forall>L'. L < L' \<and> L' \<le> m \<longrightarrow> \<not> aligned (block_size spec) al L'"
    "align_pop (block_size spec) al (rows look hs ?G [0..<m]) = Inr (map (take L) (rows look hs ?G [0..<m]))"
  proof -
    have "rows look hs ?G [0..<m] \<noteq> []" using G [of "[0..<m]"] by (metis list.discI)
    moreover have "\<forall>c\<in>set (rows look hs ?G [0..<m]). length c = m" by (auto dest: rows_length(1))
    ultimately show ?thesis using align_pop_take [of "rows look hs ?G [0..<m]" m al "block_size spec"] al that by blast
  qed
  have "full_find_longest_cache_hit p hl max_length gids spec eagle al dcp pcp =
      align_pop (block_size spec) al (rows look hs ?G [0..<m])"
    using full bs pos hl run pop by (simp add: full_find_longest_cache_hit_def denotes_def upto)
  then show ?thesis using L by (auto simp: m_def rows_take)
qed

section \<open>Sliding windows\<close>

text \<open>A prefix of \<open>L\<close> blocks is usable when it is aligned and its last \<open>need\<close> blocks, or all of them if
  there are fewer, are cached.\<close>

definition usable :: "int \<Rightarrow> int \<Rightarrow> nat \<Rightarrow> (nat \<Rightarrow> bool) \<Rightarrow> nat \<Rightarrow> bool" where
  "usable bs al need hit L \<longleftrightarrow> aligned bs al L \<and> (\<forall>i. L - need \<le> i \<and> i < L \<longrightarrow> hit i)"

definition longest_usable :: "int \<Rightarrow> int \<Rightarrow> nat \<Rightarrow> (nat \<Rightarrow> bool) \<Rightarrow> nat \<Rightarrow> nat \<Rightarrow> bool" where
  "longest_usable bs al need hit n L \<longleftrightarrow> L \<le> n \<and> usable bs al need hit L \<and>
     (\<forall>L'. L < L' \<and> L' \<le> n \<longrightarrow> \<not> usable bs al need hit L')"

text \<open>The state of the search before index \<open>j - 1\<close>: \<open>nc\<close> hits from \<open>j\<close> on end at an aligned length, and no
  longer prefix is usable.\<close>

definition window_state :: "int \<Rightarrow> int \<Rightarrow> nat \<Rightarrow> (nat \<Rightarrow> bool) \<Rightarrow> nat \<Rightarrow> nat \<Rightarrow> nat \<Rightarrow> bool" where
  "window_state bs al need hit n j nc \<longleftrightarrow> nc < need \<and> j + nc \<le> n \<and> (\<forall>i. j \<le> i \<and> i < j + nc \<longrightarrow> hit i) \<and>
     (0 < nc \<longrightarrow> aligned bs al (j + nc)) \<and> (\<forall>L'. j + nc < L' \<and> L' \<le> n \<longrightarrow> \<not> usable bs al need hit L')"

lemma window_state_miss:
  assumes st: "window_state bs al need hit n (Suc j) nc" and miss: "\<not> hit j"
  shows "window_state bs al need hit n j 0"
proof -
  have "\<not> usable bs al need hit L'" if L': "j < L'" "L' \<le> n" for L'
  proof (cases "Suc j + nc < L'")
    case True
    then show ?thesis using st L' by (simp add: window_state_def)
  next
    case False
    then have "L' - need \<le> j" using st by (auto simp: window_state_def)
    then show ?thesis using miss L' by (auto simp: usable_def)
  qed
  then show ?thesis using st by (auto simp: window_state_def)
qed

lemma window_state_skip:
  assumes st: "window_state bs al need hit n (Suc j) 0" and odd: "\<not> aligned bs al (Suc j)"
  shows "window_state bs al need hit n j 0"
proof -
  have "\<not> usable bs al need hit L'" if L': "j < L'" "L' \<le> n" for L'
  proof (cases "L' = Suc j")
    case True
    then show ?thesis using odd by (simp add: usable_def)
  next
    case False
    then show ?thesis using st L' by (simp add: window_state_def)
  qed
  then show ?thesis using st by (auto simp: window_state_def)
qed

lemma window_state_hit:
  assumes st: "window_state bs al need hit n (Suc j) nc" and hit: "hit j" and start: "nc = 0 \<longrightarrow> aligned bs al (Suc j)"
  shows "if Suc nc \<ge> need then longest_usable bs al need hit n (j + Suc nc) else window_state bs al need hit n j (Suc nc)"
proof -
  have al: "aligned bs al (j + Suc nc)" and hits: "\<And>i. j \<le> i \<Longrightarrow> i < j + Suc nc \<Longrightarrow> hit i"
  proof -
    show "aligned bs al (j + Suc nc)" using st start by (cases "nc = 0") (auto simp: window_state_def)
    show "\<And>i. j \<le> i \<Longrightarrow> i < j + Suc nc \<Longrightarrow> hit i" using st hit by (metis Suc_leI add_Suc add_Suc_right le_neq_implies_less window_state_def)
  qed
  show ?thesis
  proof (cases "Suc nc \<ge> need")
    case True
    then have "Suc nc = need" using st by (simp add: window_state_def)
    then have "usable bs al need hit (j + Suc nc)" using al hits by (auto simp: usable_def)
    then show ?thesis using True st by (auto simp: longest_usable_def window_state_def)
  next
    case False
    then show ?thesis using st al hits by (auto simp: window_state_def)
  qed
qed

lemma window_state_end:
  assumes "window_state bs al need hit n 0 nc"
  shows "longest_usable bs al need hit n nc"
  using assms by (cases "nc = 0") (auto simp: window_state_def longest_usable_def usable_def aligned_def)

text \<open>One list of the result: null blocks, then the cached blocks.\<close>

definition window_row :: "blk \<Rightarrow> (bytes \<Rightarrow> blk list option) \<Rightarrow> bytes list \<Rightarrow> nat \<Rightarrow> nat \<Rightarrow> nat \<Rightarrow> blk list" where
  "window_row nb look hs g need L = map (\<lambda>i. if i < L - need then nb else the (look (hs ! i)) ! g) [0..<L]"

definition filled :: "blk \<Rightarrow> (bytes \<Rightarrow> blk list option) \<Rightarrow> bytes list \<Rightarrow> nat \<Rightarrow> nat \<Rightarrow> nat \<Rightarrow> nat \<Rightarrow> blk list list \<Rightarrow> bool" where
  "filled nb look hs G n j nc cs \<longleftrightarrow> length cs = G \<and> (\<forall>g<G. length (cs ! g) = n \<and>
     (\<forall>i<n. (i < j \<longrightarrow> cs ! g ! i = nb) \<and> (j \<le> i \<and> i < j + nc \<longrightarrow> cs ! g ! i = the (look (hs ! i)) ! g)))"

lemma filled_take:
  assumes fill: "filled nb look hs G n j nc cs" and "j + nc \<le> n" and "min need (j + nc) = nc"
  shows "map (take (j + nc)) cs = map (\<lambda>g. window_row nb look hs g need (j + nc)) [0..<G]"
proof (rule nth_equalityI)
  have len: "length cs = G" using fill unfolding filled_def by blast
  then show "length (map (take (j + nc)) cs) = length (map (\<lambda>g. window_row nb look hs g need (j + nc)) [0..<G])" by simp
  fix g assume "g < length (map (take (j + nc)) cs)"
  then have g: "g < G" using len by simp
  have lg: "length (cs ! g) = n" and at: "\<forall>i<n. (i < j \<longrightarrow> cs ! g ! i = nb) \<and> (j \<le> i \<and> i < j + nc \<longrightarrow> cs ! g ! i = the (look (hs ! i)) ! g)"
    using fill g unfolding filled_def by blast+
  have "j + nc - need = j" using assms(3) by (auto simp: min_def split: if_splits)
  then have "take (j + nc) (cs ! g) = window_row nb look hs g need (j + nc)"
    using lg at assms(2) by (intro nth_equalityI) (auto simp: window_row_def)
  then show "map (take (j + nc)) cs ! g = map (\<lambda>g. window_row nb look hs g need (j + nc)) [0..<G] ! g"
    using g len by simp
qed

lemma window_hits_eq:
  assumes ans: "answers p gids look" and gids: "gids \<noteq> []" and hl: "\<And>i. i < n \<Longrightarrow> hl_at hl (int i) = Inr (hs ! i)"
    and al: "al \<noteq> 0" and need: "need' = max 1 (nat need)"
    and st: "window_state bs al need' (\<lambda>i. look (hs ! i) \<noteq> None) n j nc" and fill: "filled nb look hs (length gids) n j nc cs"
  shows "\<exists>cs' nc' found. window_hits p hl gids bs al need j cs (int nc) = Inr (cs', int nc', found) \<and>
    (if found then \<exists>L. longest_usable bs al need' (\<lambda>i. look (hs ! i) \<noteq> None) n L \<and>
        cs' = map (\<lambda>g. window_row nb look hs g need' L) [0..<length gids]
     else window_state bs al need' (\<lambda>i. look (hs ! i) \<noteq> None) n 0 nc' \<and> filled nb look hs (length gids) n 0 nc' cs')"
  using st fill
proof (induction j arbitrary: nc cs)
  case 0
  then show ?case by (intro exI [of _ cs] exI [of _ nc] exI [of _ False]) simp
next
  case (Suc j)
  let ?hit = "\<lambda>i. look (hs ! i) \<noteq> None" and ?G = "length gids"
  have j: "j < n" using Suc.prems(1) by (simp add: window_state_def)
  have at: "hl_at hl (int j) = Inr (hs ! j)" using hl [OF j] .
  have look: "get_cached_block p (hs ! j) gids = Inr (look (hs ! j))" and llen: "\<And>bs. look (hs ! j) = Some bs \<Longrightarrow> length bs = ?G"
    using ans by (auto simp: answers_def)
  have fill0: "filled nb look hs ?G n j 0 cs" using Suc.prems(2) by (auto simp: filled_def)
  show ?case
  proof (cases "look (hs ! j)")
    case None
    then have "window_hits p hl gids bs al need (Suc j) cs (int nc) = window_hits p hl gids bs al need j cs (int 0)"
      using at look by simp
    then show ?thesis using Suc.IH [OF window_state_miss [OF Suc.prems(1)] fill0] None by simp
  next
    case (Some bs')
    then have ne: "bs' \<noteq> []" "length bs' = ?G" using llen gids by auto
    show ?thesis
    proof (cases "nc = 0 \<and> \<not> aligned bs al (Suc j)")
      case True
      then have "window_hits p hl gids bs al need (Suc j) cs (int nc) = window_hits p hl gids bs al need j cs (int 0)"
        using at look Some ne al by (simp add: aligned_def algebra_simps)
      moreover have "window_state bs al need' ?hit n j 0" using window_state_skip Suc.prems(1) True by blast
      ultimately show ?thesis using Suc.IH [OF _ fill0] by simp
    next
      case False
      let ?cs = "map (\<lambda>(c, b). c[j := b]) (zip cs bs')"
      have step: "window_hits p hl gids bs al need (Suc j) cs (int nc) =
          (if int nc + 1 \<ge> need then Inr (map (take (nat (int j + (int nc + 1)))) ?cs, int nc + 1, True)
           else window_hits p hl gids bs al need j ?cs (int (Suc nc)))"
        using at look Some ne al False by (auto simp: aligned_def algebra_simps Let_def)
      have hit: "?hit j" using Some by simp
      have enough: "int nc + 1 \<ge> need \<longleftrightarrow> Suc nc \<ge> need'" by (auto simp: need)
      have fill1: "filled nb look hs ?G n j (Suc nc) ?cs"
        using Suc.prems(2) ne(2) Some j by (auto simp: filled_def nth_list_update)
      show ?thesis
      proof (cases "Suc nc \<ge> need'")
        case True
        then have L: "longest_usable bs al need' ?hit n (j + Suc nc)" and "Suc nc = need'"
          using window_state_hit [OF Suc.prems(1) hit] False Suc.prems(1) by (auto simp: window_state_def)
        have all_rows: "map (take (j + Suc nc)) ?cs = map (\<lambda>g. window_row nb look hs g need' (j + Suc nc)) [0..<?G]"
          using L \<open>Suc nc = need'\<close> by (intro filled_take [OF fill1]) (auto simp: longest_usable_def)
        have "nat (int j + (int nc + 1)) = j + Suc nc" by simp
        then have found: "window_hits p hl gids bs al need (Suc j) cs (int nc) =
            Inr (map (\<lambda>g. window_row nb look hs g need' (j + Suc nc)) [0..<?G], int (Suc nc), True)"
          using True unfolding step enough by (simp only: all_rows if_True) simp
        show ?thesis
          by (rule exI, rule exI [of _ "Suc nc"], rule exI, intro conjI, rule found) (use L in auto)
      next
        case notyet: False
        then have "window_state bs al need' ?hit n j (Suc nc)"
          using window_state_hit [OF Suc.prems(1) hit] False by auto
        then show ?thesis using step enough notyet Suc.IH [OF _ fill1] by simp
      qed
    qed
  qed
qed

lemma window_state_init: "need \<ge> 1 \<Longrightarrow> window_state bs al need hit n n 0"
  by (auto simp: window_state_def)

lemma align_pop_aligned:
  assumes "cs \<noteq> []" and "\<forall>c\<in>set cs. length c = n" and "al \<noteq> 0" and "aligned bs al n"
  shows "align_pop bs al cs = Inr cs"
proof -
  obtain L where L: "L \<le> n" "\<forall>L'. L < L' \<and> L' \<le> n \<longrightarrow> \<not> aligned bs al L'" "align_pop bs al cs = Inr (map (take L) cs)"
    using align_pop_take [OF assms(1-3), of bs] by blast
  then have "L = n" using assms(4) by (metis le_neq_implies_less order_refl)
  then show ?thesis using L(3) assms(2) by (simp add: map_idI)
qed

lemma window_search:
  assumes ans: "answers p gids look" and gids: "gids \<noteq> []" and hl: "\<And>i. i < n \<Longrightarrow> hl_at hl (int i) = Inr (hs ! i)" and al: "al \<noteq> 0"
  shows "\<exists>L cs nc found. longest_usable bs al (max 1 (nat need)) (\<lambda>i. look (hs ! i) \<noteq> None) n L \<and>
    window_hits p hl gids bs al need n (replicate (length gids) (replicate n nb)) 0 = Inr (cs, nc, found) \<and>
    (if found then Inr cs else align_pop bs al (map (take (nat nc)) cs)) =
      Inr (map (\<lambda>g. window_row nb look hs g (max 1 (nat need)) L) [0..<length gids])"
proof -
  let ?need = "max 1 (nat need)" and ?hit = "\<lambda>i. look (hs ! i) \<noteq> None" and ?G = "length gids"
  have init: "window_state bs al ?need ?hit n n 0" by (rule window_state_init) simp
  have fill: "filled nb look hs ?G n n 0 (replicate ?G (replicate n nb))" by (simp add: filled_def)
  obtain cs nc found where run: "window_hits p hl gids bs al need n (replicate ?G (replicate n nb)) (int 0) = Inr (cs, int nc, found)"
    and post: "if found then \<exists>L. longest_usable bs al ?need ?hit n L \<and>
        cs = map (\<lambda>g. window_row nb look hs g ?need L) [0..<?G]
     else window_state bs al ?need ?hit n 0 nc \<and> filled nb look hs ?G n 0 nc cs"
    using window_hits_eq [OF ans gids hl al refl init fill] by blast
  show ?thesis
  proof (cases found)
    case True
    then obtain L where L: "longest_usable bs al ?need ?hit n L" "cs = map (\<lambda>g. window_row nb look hs g ?need L) [0..<?G]"
      using post by auto
    show ?thesis
      by (rule exI [of _ L], rule exI [of _ cs], rule exI [of _ "int nc"], rule exI [of _ found]) (use L run True in simp)
  next
    case False
    then have st: "window_state bs al ?need ?hit n 0 nc" "filled nb look hs ?G n 0 nc cs" using post by simp_all
    have nc: "nc \<le> n" "nc < ?need" "aligned bs al nc" using st(1) by (auto simp: window_state_def aligned_def)
    have rows: "map (take nc) cs = map (\<lambda>g. window_row nb look hs g ?need nc) [0..<?G]"
      using filled_take [OF st(2), of ?need] nc(1,2) by (simp only: add_0 min.absorb2 less_imp_le)
    have "align_pop bs al (map (take nc) cs) = Inr (map (take nc) cs)"
      by (rule align_pop_aligned) (use gids al nc(3) in \<open>auto simp: rows window_row_def\<close>)
    then have res: "align_pop bs al (map (take nc) cs) = Inr (map (\<lambda>g. window_row nb look hs g ?need nc) [0..<?G])"
      by (simp only: rows)
    show ?thesis
      by (rule exI [of _ nc], rule exI [of _ cs], rule exI [of _ "int nc"], rule exI [of _ found])
        (use window_state_end [OF st(1)] run False res in simp)
  qed
qed

lemma window_find_eq:
  fixes w :: int and eagle :: bool
  assumes ans: "answers p gids look" and gids: "gids \<noteq> []" and bs: "0 < attn_block_size a" "0 \<le> max_length" and al: "al \<noteq> 0"
    and hl: "\<And>i. i < nat (max_length div attn_block_size a) \<Longrightarrow> hl_at hl (int i) = Inr (hs ! i)"
    and eagle: "eagle \<longrightarrow> attn_block_size a = al"
  defines "need \<equiv> max 1 (nat (cdiv (w - 1) (attn_block_size a) + (if eagle then 1 else 0)))"
  shows "\<exists>L. longest_usable (attn_block_size a) al need (\<lambda>i. look (hs ! i) \<noteq> None) (nat (max_length div attn_block_size a)) L \<and>
    window_find_longest_cache_hit p hl max_length gids (SlidingWindowSpec a w) eagle al 1 1 =
      Inr (map (\<lambda>g. take (if eagle then L - 1 else L) (window_row (null_block p) look hs g need L)) [0..<length gids])"
proof -
  let ?n = "nat (max_length div attn_block_size a)" and ?G = "length gids" and ?nb = "null_block p"
  let ?need = "cdiv (w - 1) (attn_block_size a) + (if eagle then 1 else 0)"
  obtain L cs nc found where L: "longest_usable (attn_block_size a) al need (\<lambda>i. look (hs ! i) \<noteq> None) ?n L"
    and run: "window_hits p hl gids (attn_block_size a) al ?need ?n (replicate ?G (replicate ?n ?nb)) 0 = Inr (cs, nc, found)"
    and res: "(if found then Inr cs else align_pop (attn_block_size a) al (map (take (nat nc)) cs)) =
      Inr (map (\<lambda>g. window_row ?nb look hs g need L) [0..<?G])"
    using window_search [OF ans gids hl al, where need = ?need and nb = ?nb and bs = "attn_block_size a"]
    unfolding need_def by blast
  let ?rows = "map (\<lambda>g. window_row ?nb look hs g need L) [0..<?G]"
  have len: "\<forall>c\<in>set ?rows. length c = L" by (auto simp: window_row_def)
  have head: "py_index ?rows 0 = Inr (window_row ?nb look hs 0 need L)" using gids by (simp add: py_index_nth)
  have size: "attn_block_size a \<noteq> 0" using bs(1) by simp
  have "window_find_longest_cache_hit p hl max_length gids (SlidingWindowSpec a w) eagle al 1 1 =
      (if eagle then (if L \<noteq> 0 then pop_all ?rows else Inr ?rows) else Inr ?rows)"
    using run res eagle head by (auto simp: window_find_longest_cache_hit_def Let_def window_row_def size)
  also have "\<dots> = Inr (map (\<lambda>g. take (if eagle then L - 1 else L) (window_row ?nb look hs g need L)) [0..<?G])"
  proof (cases "eagle \<and> L \<noteq> 0")
    case True
    then obtain k where "L = Suc k" by (cases L) auto
    then show ?thesis using True pop_all_take [of ?rows k] len by (simp add: o_def)
  next
    case False
    then show ?thesis by (auto simp: window_row_def)
  qed
  finally show ?thesis using L by blast
qed

section \<open>Mamba and chunked attention\<close>

lemma last_hit_eq:
  assumes ans: "answers p gids look" and gids: "gids \<noteq> []" and hl: "\<And>i. i < n \<Longrightarrow> hl_at hl (int i) = Inr (hs ! i)" and al: "al \<noteq> 0"
  shows "\<exists>L. longest_usable bs al 1 (\<lambda>i. look (hs ! i) \<noteq> None) n L \<and>
    last_hit p hl gids bs al n = Inr (map (\<lambda>g. window_row (null_block p) look hs g 1 L) [0..<length gids])"
  using hl
proof (induction n)
  case 0
  have "replicate (length gids) [] = map (\<lambda>g. window_row (null_block p) look hs g 1 0) [0..<length gids]"
    by (intro nth_equalityI) (auto simp: window_row_def)
  then show ?case by (intro exI [of _ 0]) (auto simp: longest_usable_def usable_def aligned_def)
next
  case (Suc n)
  let ?hit = "\<lambda>i. look (hs ! i) \<noteq> None" and ?G = "length gids"
  obtain L where L: "longest_usable bs al 1 ?hit n L"
    "last_hit p hl gids bs al n = Inr (map (\<lambda>g. window_row (null_block p) look hs g 1 L) [0..<?G])"
    using Suc by auto
  have at: "hl_at hl (int n) = Inr (hs ! n)" using Suc.prems by simp
  have look: "get_cached_block p (hs ! n) gids = Inr (look (hs ! n))" and llen: "\<And>b. look (hs ! n) = Some b \<Longrightarrow> length b = ?G"
    using ans by (auto simp: answers_def)
  show ?case
  proof (cases "?hit n \<and> aligned bs al (Suc n)")
    case True
    then obtain b where b: "look (hs ! n) = Some b" "length b = ?G" using llen by auto
    have "longest_usable bs al 1 ?hit (Suc n) (Suc n)" using True by (auto simp: longest_usable_def usable_def less_Suc_eq)
    moreover have "map (\<lambda>x. replicate n (null_block p) @ [x]) b =
        map (\<lambda>g. window_row (null_block p) look hs g 1 (Suc n)) [0..<?G]"
      using b by (intro nth_equalityI) (auto simp: window_row_def nth_append intro!: nth_equalityI)
    moreover have "b \<noteq> []" using b gids by auto
    ultimately show ?thesis
      using True at look b al by (intro exI [of _ "Suc n"]) (auto simp: aligned_def algebra_simps)
  next
    case False
    then have "\<not> usable bs al 1 ?hit (Suc n)" by (auto simp: usable_def)
    then have "longest_usable bs al 1 ?hit (Suc n) L" using L(1) by (auto simp: longest_usable_def le_Suc_eq)
    moreover have "last_hit p hl gids bs al (Suc n) = last_hit p hl gids bs al n"
      using False at look al by (auto simp: aligned_def algebra_simps)
    ultimately show ?thesis using L(2) by auto
  qed
qed

section \<open>Properties\<close>

text \<open>The blocks found for a prefix of \<open>L\<close> blocks: per group a list of \<open>L\<close> blocks, null blocks first, and
  each of the last \<open>need\<close> carrying the hash of its position for its group.\<close>

definition hit_rows :: "block_pool \<Rightarrow> int list \<Rightarrow> bytes list \<Rightarrow> nat \<Rightarrow> nat \<Rightarrow> blk list list \<Rightarrow> bool" where
  "hit_rows p gids hs need L cs \<longleftrightarrow> length cs = length gids \<and>
     (\<forall>g<length gids. length (cs ! g) = L \<and>
        (\<forall>i<L. if i < L - need then cs ! g ! i = null_block p else carries p (gids ! g) (hs ! i) (cs ! g ! i)))"

lemma look_carries:
  assumes "\<forall>h bs. look h = Some bs \<longrightarrow> list_all2 (\<lambda>g b. carries p g h b) gids bs" and "look h \<noteq> None" and "g < length gids"
  shows "carries p (gids ! g) h (the (look h) ! g)"
  using assms by (auto simp: list_all2_conv_all_nth)

lemma window_rows_hit:
  assumes car: "\<forall>h bs. look h = Some bs \<longrightarrow> list_all2 (\<lambda>g b. carries p g h b) gids bs"
    and us: "usable bs al need (\<lambda>i. look (hs ! i) \<noteq> None) L" and need: "1 \<le> need"
  shows "hit_rows p gids hs need L (map (\<lambda>g. window_row (null_block p) look hs g need L) [0..<length gids])"
    and "hit_rows p gids hs (need - 1) (L - 1) (map (\<lambda>g. take (L - 1) (window_row (null_block p) look hs g need L)) [0..<length gids])"
proof -
  have at: "if i < L - need then window_row (null_block p) look hs g need L ! i = null_block p
      else carries p (gids ! g) (hs ! i) (window_row (null_block p) look hs g need L ! i)"
    if "g < length gids" "i < L" for g i
    using that us look_carries [OF car, of "hs ! i" g] by (auto simp: window_row_def usable_def)
  show "hit_rows p gids hs need L (map (\<lambda>g. window_row (null_block p) look hs g need L) [0..<length gids])"
    using at by (auto simp: hit_rows_def) (simp_all add: window_row_def)
  have shift: "i < L - 1 - (need - 1) \<longleftrightarrow> i < L - need" for i using need by auto
  show "hit_rows p gids hs (need - 1) (L - 1) (map (\<lambda>g. take (L - 1) (window_row (null_block p) look hs g need L)) [0..<length gids])"
  proof (unfold hit_rows_def shift, intro conjI allI impI)
    fix g assume g: "g < length gids"
    then show "length (map (\<lambda>g. take (L - 1) (window_row (null_block p) look hs g need L)) [0..<length gids] ! g) = L - 1"
      by (simp add: window_row_def)
    fix i assume "i < L - 1"
    then show "if i < L - need
        then map (\<lambda>g. take (L - 1) (window_row (null_block p) look hs g need L)) [0..<length gids] ! g ! i = null_block p
        else carries p (gids ! g) (hs ! i)
               (map (\<lambda>g. take (L - 1) (window_row (null_block p) look hs g need L)) [0..<length gids] ! g ! i)"
      using at [OF g, of i] g by simp
  qed simp
qed

lemma full_hit_spec:
  assumes "pool_inv p xs" and "gids \<noteq> []" and "\<forall>g\<in>set gids. group_id_ok g" and "denotes hl hs"
    and "is_full_attention spec" and "0 < block_size spec" and "0 \<le> max_length" and "0 < al"
    and n_def: "n = min (nat (max_length div block_size spec)) (length hs)" and e_def: "e = (if eagle then 1 else 0)"
  shows "\<exists>L cs. full_find_longest_cache_hit p hl max_length gids spec eagle al 1 1 = Inr cs \<and>
    hit_rows p gids hs L L cs \<and> aligned (block_size spec) al L \<and> (L + e \<le> n \<or> L = 0) \<and>
    (\<forall>L'. L < L' \<and> L' + e \<le> n \<and> aligned (block_size spec) al L' \<longrightarrow> (\<exists>i<L' + e. \<not> cached p gids (hs ! i)))"
proof -
  obtain look where ans: "answers p gids look" and hit: "\<And>h. (look h \<noteq> None) = cached p gids h"
    and car: "\<forall>h bs. look h = Some bs \<longrightarrow> list_all2 (\<lambda>g b. carries p g h b) gids bs"
    using pool_answers [OF assms(1,3)] by blast
  define k where "k = hit_run (\<lambda>h. look h \<noteq> None) hs n"
  obtain L where L: "L \<le> (if eagle then k - 1 else k)" "aligned (block_size spec) al L"
    "\<forall>L'. L < L' \<and> L' \<le> (if eagle then k - 1 else k) \<longrightarrow> \<not> aligned (block_size spec) al L'"
    "full_find_longest_cache_hit p hl max_length gids spec eagle al 1 1 = Inr (rows look hs (length gids) [0..<L])"
    using full_find_eq [OF ans assms(2,4,5,6), of 1 1 max_length al eagle] assms(7,8) unfolding k_def n_def by auto
  note k = hit_run [where c = "\<lambda>h. look h \<noteq> None" and hs = hs and n = n, folded k_def]
  have "hit_rows p gids hs L L (rows look hs (length gids) [0..<L])"
    using look_carries [OF car] k(1) L(1) by (auto simp: hit_rows_def rows_def split: if_splits)
  moreover have "L + e \<le> n \<or> L = 0" using L(1) k(2) by (auto simp: e_def split: if_splits)
  moreover have "\<exists>i<L' + e. \<not> cached p gids (hs ! i)" if "L < L'" "L' + e \<le> n" "aligned (block_size spec) al L'" for L'
  proof -
    have "k < L' + e" using L(3) that(1,3) by (auto simp: e_def split: if_splits)
    then show ?thesis using k(3) that(2) hit by (metis order_less_le_trans)
  qed
  ultimately show ?thesis using L(2,4) by blast
qed

text \<open>C10. Full attention. The search returns, for every group, the blocks that carry the first \<open>L\<close> hashes,
  where \<open>L\<close> is the greatest number of blocks that fits the given length in tokens, is aligned,
  and has all its hashes cached in every group; with the drafting head one more hash must be
  cached, whose block is dropped.\<close>

theorem full_attention_hit_is_longest:
  assumes "pool_inv p xs" and "gids \<noteq> []" and "\<forall>g\<in>set gids. group_id_ok g" and "denotes hl hs"
    and "is_full_attention spec" and "0 < block_size spec" and "0 \<le> max_length" and "0 < al"
    and n_def: "n = min (nat (max_length div block_size spec)) (length hs)" and e_def: "e = (if eagle then 1 else 0)"
  shows "\<exists>L cs. full_find_longest_cache_hit p hl max_length gids spec eagle al 1 1 = Inr cs \<and>
    hit_rows p gids hs L L cs \<and> aligned (block_size spec) al L \<and> (L + e \<le> n \<or> L = 0) \<and>
    (\<forall>L'. L < L' \<and> L' + e \<le> n \<and> aligned (block_size spec) al L' \<longrightarrow> (\<exists>i<L' + e. \<not> cached p gids (hs ! i)))"
  by (rule full_hit_spec [OF assms])

lemma window_hit_spec:
  assumes "pool_inv p xs" and "gids \<noteq> []" and "\<forall>g\<in>set gids. group_id_ok g" and "denotes hl hs"
    and "0 < attn_block_size a" and "0 \<le> max_length" and "0 < al" and "eagle \<longrightarrow> attn_block_size a = al"
    and "nat (max_length div attn_block_size a) \<le> length hs"
    and "need = max 1 (nat (cdiv (w - 1) (attn_block_size a) + (if eagle then 1 else 0)))"
  shows "\<exists>L cs. window_find_longest_cache_hit p hl max_length gids (SlidingWindowSpec a w) eagle al 1 1 = Inr cs \<and>
    hit_rows p gids hs (if eagle then need - 1 else need) (if eagle then L - 1 else L) cs \<and>
    longest_usable (attn_block_size a) al need (\<lambda>i. cached p gids (hs ! i)) (nat (max_length div attn_block_size a)) L"
proof -
  obtain look where ans: "answers p gids look" and hit: "\<And>h. (look h \<noteq> None) = cached p gids h"
    and car: "\<forall>h bs. look h = Some bs \<longrightarrow> list_all2 (\<lambda>g b. carries p g h b) gids bs"
    using pool_answers [OF assms(1,3)] by blast
  have hl: "\<And>i. i < nat (max_length div attn_block_size a) \<Longrightarrow> hl_at hl (int i) = Inr (hs ! i)"
    using assms(4,9) by (simp add: denotes_def)
  obtain L where L: "longest_usable (attn_block_size a) al need (\<lambda>i. look (hs ! i) \<noteq> None) (nat (max_length div attn_block_size a)) L"
    "window_find_longest_cache_hit p hl max_length gids (SlidingWindowSpec a w) eagle al 1 1 =
      Inr (map (\<lambda>g. take (if eagle then L - 1 else L) (window_row (null_block p) look hs g need L)) [0..<length gids])"
    using window_find_eq [OF ans assms(2,5,6) _ hl assms(8), of w] assms(7,10) by auto
  have need: "1 \<le> need" using assms(10) by simp
  have us: "usable (attn_block_size a) al need (\<lambda>i. look (hs ! i) \<noteq> None) L" using L(1) by (simp add: longest_usable_def)
  have full: "take L (window_row (null_block p) look hs g need L) = window_row (null_block p) look hs g need L" for g
    by (simp add: window_row_def)
  show ?thesis
    using L window_rows_hit [OF car us need] unfolding hit by (cases eagle) (auto simp: full)
qed

text \<open>C15. Sliding windows. The search returns null blocks followed by the cached blocks of the window, for
  the longest prefix that is aligned and whose last blocks, as many as the window of the next
  token reaches into, are all cached in every group; with the drafting head one more block is
  required and then dropped.\<close>

theorem sliding_window_hit_is_longest:
  assumes "pool_inv p xs" and "gids \<noteq> []" and "\<forall>g\<in>set gids. group_id_ok g" and "denotes hl hs"
    and "0 < attn_block_size a" and "0 \<le> max_length" and "0 < al" and "eagle \<longrightarrow> attn_block_size a = al"
    and "nat (max_length div attn_block_size a) \<le> length hs"
    and "need = max 1 (nat (cdiv (w - 1) (attn_block_size a) + (if eagle then 1 else 0)))"
  shows "\<exists>L cs. window_find_longest_cache_hit p hl max_length gids (SlidingWindowSpec a w) eagle al 1 1 = Inr cs \<and>
    hit_rows p gids hs (if eagle then need - 1 else need) (if eagle then L - 1 else L) cs \<and>
    longest_usable (attn_block_size a) al need (\<lambda>i. cached p gids (hs ! i)) (nat (max_length div attn_block_size a)) L"
  by (rule window_hit_spec [OF assms])

lemma mamba_hit_spec:
  assumes "pool_inv p xs" and "gids \<noteq> []" and "\<forall>g\<in>set gids. group_id_ok g" and "denotes hl hs" and "0 < al"
    and "nat (max_length div mamba_block_size s) \<le> length hs" and "0 < mamba_block_size s"
  shows "\<exists>L cs. mamba_find_longest_cache_hit p hl max_length gids (MambaSpec s) eagle al 1 1 = Inr cs \<and>
    hit_rows p gids hs 1 L cs \<and>
    longest_usable (mamba_block_size s) al 1 (\<lambda>i. cached p gids (hs ! i)) (nat (max_length div mamba_block_size s)) L"
proof -
  obtain look where ans: "answers p gids look" and hit: "\<And>h. (look h \<noteq> None) = cached p gids h"
    and car: "\<forall>h bs. look h = Some bs \<longrightarrow> list_all2 (\<lambda>g b. carries p g h b) gids bs"
    using pool_answers [OF assms(1,3)] by blast
  have hl: "\<And>i. i < nat (max_length div mamba_block_size s) \<Longrightarrow> hl_at hl (int i) = Inr (hs ! i)"
    using assms(4,6) by (simp add: denotes_def)
  obtain L where L: "longest_usable (mamba_block_size s) al 1 (\<lambda>i. look (hs ! i) \<noteq> None) (nat (max_length div mamba_block_size s)) L"
    "last_hit p hl gids (mamba_block_size s) al (nat (max_length div mamba_block_size s)) =
      Inr (map (\<lambda>g. window_row (null_block p) look hs g 1 L) [0..<length gids])"
    using last_hit_eq [OF ans assms(2) hl, where al = al and bs = "mamba_block_size s"] assms(5) by auto
  have us: "usable (mamba_block_size s) al 1 (\<lambda>i. look (hs ! i) \<noteq> None) L" using L(1) by (simp add: longest_usable_def)
  show ?thesis
    using L window_rows_hit(1) [OF car us] assms(7) unfolding hit by (auto simp: mamba_find_longest_cache_hit_def)
qed

text \<open>C19. Mamba. With a positive block size, the search returns the longest aligned prefix whose last block
  is cached in every group, as null blocks followed by that one block.\<close>

theorem mamba_hit_is_latest:
  assumes "pool_inv p xs" and "gids \<noteq> []" and "\<forall>g\<in>set gids. group_id_ok g" and "denotes hl hs" and "0 < al"
    and "nat (max_length div mamba_block_size s) \<le> length hs" and "0 < mamba_block_size s"
  shows "\<exists>L cs. mamba_find_longest_cache_hit p hl max_length gids (MambaSpec s) eagle al 1 1 = Inr cs \<and>
    hit_rows p gids hs 1 L cs \<and>
    longest_usable (mamba_block_size s) al 1 (\<lambda>i. cached p gids (hs ! i)) (nat (max_length div mamba_block_size s)) L"
  by (rule mamba_hit_spec [OF assms])

section \<open>Witnesses\<close>

lemma pool_with_two_hashes:
  "\<exists>p. pool_inv p [Blk 1, Blk 2, Blk 3] \<and> cached p [0] [21] \<and> cached p [0] [22]"
proof -
  have c: "cacheable four_pool small_request [Blk 2, Blk 3] 0 2 2 0"
    using four_pool(5) by (simp add: cacheable_def four_pool_valid small_request_def text_request_def block_size_ok_def
        group_id_ok_def group_hashes_def KVCacheBlock_def)
  obtain p where p: "pool_inv p [Blk 1, Blk 2, Blk 3]" "cfg p = cfg four_pool"
    "data p = tag (tagged 0 (drop 0 (group_hashes (hash_block_size four_pool) 2 (block_hashes small_request)))
        (take (2 - 0) (drop 0 [Blk 2, Blk 3]))) (data four_pool)"
    using cache_full_blocks_spec [OF four_pool(2) c] by blast
  have "valid_blk p b = valid_blk four_pool b" for b using p(2) by (rule valid_blk_cfg)
  moreover have "null_block p = Blk 0" using p(1) by (simp add: pool_ok_def)
  ultimately have "carries p 0 [21] (Blk 2)" "carries p 0 [22] (Blk 3)"
    by (simp_all add: carries_def data_sel p(3) tag_def tagged_def four_pool_valid group_hashes_def small_request_def)
  then show ?thesis using p(1) by (auto simp: cached_def)
qed

definition small_full :: kv_cache_spec where
  "small_full = FullAttentionSpec (demo_attn\<lparr>attn_block_size := 2\<rparr>)
     \<lparr>head_size_v = 8, full_sliding_window = None, full_attention_chunk_size = None\<rparr>"

theorem full_attention_hit_is_longest_witness:
  "\<exists>p cs. full_find_longest_cache_hit p (Plain [[21], [22]]) 5 [0] small_full False 2 1 1 = Inr cs \<and>
     hit_rows p [0] [[21], [22]] 2 2 cs"
proof -
  obtain p where p: "pool_inv p [Blk 1, Blk 2, Blk 3]" "cached p [0] [21]" "cached p [0] [22]" using pool_with_two_hashes by blast
  have spec: "is_full_attention small_full" "block_size small_full = 2" by (simp_all add: small_full_def demo_attn_def)
  obtain L cs where L: "full_find_longest_cache_hit p (Plain [[21], [22]]) 5 [0] small_full False 2 1 1 = Inr cs"
    "hit_rows p [0] [[21], [22]] L L cs" "L + 0 \<le> 2 \<or> L = 0"
    "\<forall>L'. L < L' \<and> L' + 0 \<le> 2 \<and> aligned 2 2 L' \<longrightarrow> (\<exists>i<L' + 0. \<not> cached p [0] ([[21], [22]] ! i))"
    using full_attention_hit_is_longest [OF p(1), of "[0]" "Plain [[21], [22]]" "[[21], [22]]" small_full 5 2 2 0 False] spec
    by (auto simp: group_id_ok_def)
  have "\<forall>i<2. cached p [0] ([[21], [22]] ! i)" using p(2,3) by (auto simp: less_2_cases_iff)
  then have "\<not> L < 2" using L(4) [rule_format, of 2] by (auto simp: aligned_def)
  then have "L = 2" using L(3) by simp
  then show ?thesis using L by blast
qed

theorem sliding_window_hit_is_longest_witness:
  "\<exists>p cs. window_find_longest_cache_hit p (Plain [[21], [22]]) 5 [0] (SlidingWindowSpec (demo_attn\<lparr>attn_block_size := 2\<rparr>) 3) False 2 1 1 = Inr cs \<and>
     hit_rows p [0] [[21], [22]] 1 2 cs"
proof -
  let ?a = "demo_attn\<lparr>attn_block_size := 2\<rparr>"
  obtain p where p: "pool_inv p [Blk 1, Blk 2, Blk 3]" "cached p [0] [21]" "cached p [0] [22]" using pool_with_two_hashes by blast
  have need: "1 = max 1 (nat (cdiv (3 - 1) (attn_block_size ?a) + (if False then 1 else 0)))" by (simp add: cdiv_def)
  obtain L cs where L: "window_find_longest_cache_hit p (Plain [[21], [22]]) 5 [0] (SlidingWindowSpec ?a 3) False 2 1 1 = Inr cs"
    "hit_rows p [0] [[21], [22]] 1 L cs" "longest_usable 2 2 1 (\<lambda>i. cached p [0] ([[21], [22]] ! i)) 2 L"
    using sliding_window_hit_is_longest [OF p(1), of "[0]" "Plain [[21], [22]]" "[[21], [22]]" ?a 5 2 False 1 3] need
    by (auto simp: group_id_ok_def)
  have "usable 2 2 1 (\<lambda>i. cached p [0] ([[21], [22]] ! i)) 2" using p(2,3) by (auto simp: usable_def aligned_def less_2_cases_iff)
  then have "L = 2" using L(3) by (auto simp: longest_usable_def) (metis le_neq_implies_less order_refl)
  then show ?thesis using L by blast
qed

theorem mamba_hit_is_latest_witness:
  "\<exists>p cs. mamba_find_longest_cache_hit p (Plain [[21], [22]]) 5 [0]
     (MambaSpec \<lparr>mamba_block_size = 2, shapes = [], dtypes = [], mamba_page_size_padded = None, mamba_type = ''mamba2'',
        mamba_cache_mode = ''none'', num_speculative_blocks = 0\<rparr>) False 2 1 1 = Inr cs \<and> hit_rows p [0] [[21], [22]] 1 2 cs"
proof -
  let ?s = "\<lparr>mamba_block_size = 2, shapes = [], dtypes = [], mamba_page_size_padded = None, mamba_type = ''mamba2'',
        mamba_cache_mode = ''none'', num_speculative_blocks = 0\<rparr>"
  obtain p where p: "pool_inv p [Blk 1, Blk 2, Blk 3]" "cached p [0] [21]" "cached p [0] [22]" using pool_with_two_hashes by blast
  obtain L cs where L: "mamba_find_longest_cache_hit p (Plain [[21], [22]]) 5 [0] (MambaSpec ?s) False 2 1 1 = Inr cs"
    "hit_rows p [0] [[21], [22]] 1 L cs" "longest_usable 2 2 1 (\<lambda>i. cached p [0] ([[21], [22]] ! i)) 2 L"
    using mamba_hit_is_latest [OF p(1), of "[0]" "Plain [[21], [22]]" "[[21], [22]]" 2 5 ?s False] by (auto simp: group_id_ok_def)
  have "usable 2 2 1 (\<lambda>i. cached p [0] ([[21], [22]] ! i)) 2" using p(2,3) by (auto simp: usable_def aligned_def less_2_cases_iff)
  then have "L = 2" using L(3) by (auto simp: longest_usable_def) (metis le_neq_implies_less order_refl)
  then show ?thesis using L by blast
qed

end
