(* ===== verification/Manager_Invariants.thy ===== *)
theory Manager_Invariants
  imports Single_Type_Managers
begin

text \<open>
  What the cache managers guarantee, proved once over the pool interface \<open>kv_pool\<close>: the reference
  count of a block is the number of request tables that hold it (plus what other managers of the
  same pool hold), kept by every operation of every manager class; and what the operations do to
  the tables. \<open>ext\<close> stands for the references other holders of the pool have.
\<close>

section \<open>Request tables\<close>

definition hsum :: "('k \<times> blk list) list \<Rightarrow> blk \<Rightarrow> nat" where
  "hsum d b = sum_list (map (\<lambda>(k, bs). count_list bs b) d)"

definition held :: "manager \<Rightarrow> blk \<Rightarrow> nat" where
  "held m b = hsum (req_to_blocks m) b"

abbreviation real_blocks :: "blk list \<Rightarrow> blk list" where
  "real_blocks \<equiv> filter (\<lambda>b. b \<noteq> Blk 0)"

lemma count_distinct: "distinct xs \<Longrightarrow> count_list xs x = (if x \<in> set xs then 1 else 0)"
  using count_distinct_filter [of "\<lambda>_. True" xs x] by simp

lemma hsum_simps [simp]: "hsum [] b = 0" "hsum ((k, bs) # d) b = count_list bs b + hsum d b"
  by (simp_all add: hsum_def)

lemma dget_simps [simp]: "dget [] k v = v" "dget ((k', w) # d) k v = (if k = k' then w else dget d k v)"
  by (auto simp: dget_def)

lemma dget_update: "dget (AList.update k w d) k' v = (if k' = k then w else dget d k' v)"
  by (simp add: dget_def update_conv)

lemma dget_delete: "dget (AList.delete k d) k' v = (if k' = k then v else dget d k' v)"
  by (simp add: dget_def delete_conv)

lemma dget_setdefault: "dget (dsetdefault k v d) k' v = dget d k' v"
  by (auto simp: dget_def dsetdefault_def dhas_def map_add_def split: option.splits)

lemma dhas_update [simp]: "dhas (AList.update k w d) k' \<longleftrightarrow> k' = k \<or> dhas d k'"
  by (simp add: dhas_def update_conv)

lemma hsum_update: "hsum (AList.update k bs d) b + count_list (dget d k []) b = hsum d b + count_list bs b"
  by (induction d) auto

lemma hsum_delete: "distinct (map fst d) \<Longrightarrow> hsum (AList.delete k d) b + count_list (dget d k []) b = hsum d b"
proof (induction d)
  case (Cons x d)
  obtain k' bs where x: "x = (k', bs)" by (cases x)
  have del: "AList.delete k (x # d) = (if k' = k then AList.delete k d else x # AList.delete k d)"
    unfolding AList.delete_eq x by simp
  have "AList.delete k d = d" if "k' = k" using Cons.prems that x by (force simp: AList.delete_eq filter_id_conv)
  then show ?case using Cons.IH Cons.prems unfolding del x by (cases "k' = k") auto
qed (simp add: AList.delete_eq)

lemma hsum_setdefault [simp]: "hsum (dsetdefault k [] d) b = hsum d b"
  by (simp add: dsetdefault_def hsum_def)

lemma hsum_ge: "count_list (dget d k []) b \<le> hsum d b"
  by (induction d) auto

lemma distinct_setdefault: "distinct (map fst d) \<Longrightarrow> distinct (map fst (dsetdefault k v d))"
  by (auto simp: dsetdefault_def dhas_def map_of_eq_None_iff)

lemma in_dget: "distinct (map fst d) \<Longrightarrow> (k, v) \<in> set d \<Longrightarrow> dget d k w = v"
  by (simp add: dget_def)

definition spec_ok :: "kv_cache_spec \<Rightarrow> bool" where
  "spec_ok s \<longleftrightarrow> (case s of SlidingWindowSpec _ w \<Rightarrow> 0 < w | ChunkedLocalAttentionSpec _ c \<Rightarrow> 0 < c | _ \<Rightarrow> True)"

text \<open>A manager of a shape the constructors produce and the operations keep.\<close>

definition tables_ok :: "manager \<Rightarrow> bool" where
  "tables_ok m \<longleftrightarrow> distinct (map fst (req_to_blocks m)) \<and> (\<forall>rid. distinct (real_blocks (req_blocks m rid))) \<and>
     mgr_null m = Blk 0 \<and> spec_ok (mgr_spec m) \<and> 0 < mgr_block_size m \<and> 0 \<le> scratch_blocks m \<and> 0 \<le> mamba_spec_blocks m \<and>
     (\<forall>rid\<in>set (allocated_block_reqs m). mamba_spec_blocks m \<le> int (length (req_blocks m rid))) \<and>
     (mgr_class m = MambaManager \<and> mamba_mode m = ''align'' \<or> allocated_block_reqs m = [])"

definition mgr_inv :: "('p \<Rightarrow> bool) \<Rightarrow> ('p \<Rightarrow> blk \<Rightarrow> int) \<Rightarrow> (blk \<Rightarrow> int) \<Rightarrow> manager \<Rightarrow> 'p \<Rightarrow> bool" where
  "mgr_inv I refs ext m p \<longleftrightarrow> I p \<and> tables_ok m \<and> (\<forall>b. 0 \<le> ext b) \<and>
     (\<forall>b. b \<noteq> Blk 0 \<longrightarrow> refs p b = ext b + int (held m b))"

lemma mgr_invD:
  assumes "mgr_inv I refs ext m p"
  shows "I p" and "tables_ok m" and "0 \<le> ext b" and "b \<noteq> Blk 0 \<Longrightarrow> refs p b = ext b + int (held m b)"
    and "mgr_null m = Blk 0" and "0 < mgr_block_size m" and "distinct (real_blocks (req_blocks m rid))"
  using assms by (auto simp: mgr_inv_def tables_ok_def)

text \<open>The parts of a manager the invariant reads.\<close>

definition mgr_core :: "manager \<Rightarrow> manager_class \<times> kv_cache_spec \<times> int \<times> blk \<times> int" where
  "mgr_core m = (mgr_class m, mgr_spec m, mgr_block_size m, mgr_null m, scratch_blocks m)"

lemma mgr_coreD:
  assumes "mgr_core m' = mgr_core m"
  shows "mgr_class m' = mgr_class m" "mgr_spec m' = mgr_spec m" "mgr_block_size m' = mgr_block_size m" "mgr_null m' = mgr_null m"
    "scratch_blocks m' = scratch_blocks m" "mamba_mode m' = mamba_mode m" "mamba_spec_blocks m' = mamba_spec_blocks m"
    "get_num_skipped_tokens m' = get_num_skipped_tokens m"
  using assms by (auto simp: mgr_core_def mamba_mode_def mamba_spec_blocks_def get_num_skipped_tokens_def fun_eq_iff)

lemma mgr_core_simps [simp]:
  "mgr_core (m\<lparr>req_to_blocks := d\<rparr>) = mgr_core m" "mgr_core (m\<lparr>num_cached_block := n\<rparr>) = mgr_core m"
  "mgr_core (m\<lparr>new_block_ids := i\<rparr>) = mgr_core m" "mgr_core (m\<lparr>compact_prefix_tokens := n\<rparr>) = mgr_core m"
  "mgr_core (m\<lparr>compact_released_blocks := n\<rparr>) = mgr_core m" "mgr_core (m\<lparr>cached_blocks_this_step := h\<rparr>) = mgr_core m"
  "mgr_core (m\<lparr>last_state_block_idx := n\<rparr>) = mgr_core m" "mgr_core (m\<lparr>allocated_block_reqs := rs\<rparr>) = mgr_core m"
  "mgr_core (default_req rid m) = mgr_core m" "mgr_core (set_req_blocks rid bs m) = mgr_core m"
  "mgr_core (add_new_block_ids ops p bs m) = mgr_core m" "mgr_core (mark_compact rid k m) = mgr_core m"
  by (simp_all add: mgr_core_def default_req_def set_req_blocks_def add_new_block_ids_def mark_compact_def split: kv_cache_spec.splits)

lemma req_blocks_simps [simp]:
  "req_blocks (default_req rid m) = req_blocks m" "req_blocks (set_req_blocks rid bs m) = (req_blocks m)(rid := bs)"
  "req_blocks (m\<lparr>num_cached_block := n\<rparr>) = req_blocks m" "req_blocks (add_new_block_ids ops p bs m) = req_blocks m"
  "req_blocks (mark_compact rid k m) = req_blocks m" "req_blocks (m\<lparr>allocated_block_reqs := rs\<rparr>) = req_blocks m"
  "req_blocks (m\<lparr>last_state_block_idx := li\<rparr>) = req_blocks m" "req_blocks (m\<lparr>cached_blocks_this_step := cs\<rparr>) = req_blocks m"
  "req_blocks (m\<lparr>compact_released_blocks := n\<rparr>) = req_blocks m" "req_blocks (m\<lparr>compact_prefix_tokens := n\<rparr>) = req_blocks m"
  "req_blocks (m\<lparr>new_block_ids := ids\<rparr>) = req_blocks m"
  "req_blocks (m\<lparr>req_to_blocks := AList.delete rid (req_to_blocks m)\<rparr>) = (req_blocks m)(rid := [])"
  by (auto simp: fun_eq_iff req_blocks_def default_req_def dget_setdefault set_req_blocks_def dget_update dget_delete
      add_new_block_ids_def mark_compact_def split: kv_cache_spec.splits)

lemma allocated_simps [simp]:
  "allocated_block_reqs (default_req rid m) = allocated_block_reqs m"
  "allocated_block_reqs (set_req_blocks rid bs m) = allocated_block_reqs m"
  "allocated_block_reqs (add_new_block_ids ops p bs m) = allocated_block_reqs m"
  "allocated_block_reqs (mark_compact rid k m) = allocated_block_reqs m"
  by (simp_all add: default_req_def set_req_blocks_def add_new_block_ids_def mark_compact_def split: kv_cache_spec.splits)

lemma req_to_blocks_simps [simp]:
  "req_to_blocks (add_new_block_ids ops p bs m) = req_to_blocks m" "req_to_blocks (mark_compact rid k m) = req_to_blocks m"
  "req_to_blocks (set_req_blocks rid bs m) = AList.update rid bs (req_to_blocks m)"
  "req_to_blocks (default_req rid m) = dsetdefault rid [] (req_to_blocks m)"
  by (simp_all add: add_new_block_ids_def mark_compact_def set_req_blocks_def default_req_def split: kv_cache_spec.splits)

text \<open>Two managers with the same core, tables and allocated requests satisfy the invariant alike.\<close>

lemma mgr_inv_cong:
  assumes "mgr_inv I refs ext m p" and "mgr_core m' = mgr_core m" and "allocated_block_reqs m' = allocated_block_reqs m"
    and "req_to_blocks m' = req_to_blocks m \<or> req_to_blocks m' = dsetdefault rid [] (req_to_blocks m)"
  shows "mgr_inv I refs ext m' p"
proof -
  note core = mgr_coreD [OF assms(2)]
  have "req_blocks m' = req_blocks m" and "held m' = held m" and "distinct (map fst (req_to_blocks m'))"
    using assms(1,4) by (auto simp: fun_eq_iff req_blocks_def held_def dget_setdefault mgr_inv_def tables_ok_def
        intro!: distinct_setdefault)
  then show ?thesis using assms(1,3) core by (simp add: mgr_inv_def tables_ok_def)
qed

text \<open>A request's table is replaced and the counts change by the difference.\<close>

lemma mgr_inv_set:
  assumes inv: "mgr_inv I refs ext m p" and p': "I p'"
    and refs: "\<And>b. b \<noteq> Blk 0 \<Longrightarrow> refs p' b = refs p b + int (count_list bs b) - int (count_list (req_blocks m rid) b)"
    and dist: "distinct (real_blocks bs)" and len: "length (req_blocks m rid) \<le> length bs"
  shows "mgr_inv I refs ext (set_req_blocks rid bs m) p'"
proof -
  let ?m = "set_req_blocks rid bs m"
  have core: "mgr_core ?m = mgr_core m" by simp
  have eq: "int (held ?m b) + int (count_list (req_blocks m rid) b) = int (held m b) + int (count_list bs b)" for b
    using hsum_update [of rid bs "req_to_blocks m" b] by (simp add: held_def req_blocks_def)
  have "refs p' b = ext b + int (held ?m b)" if "b \<noteq> Blk 0" for b
    using refs [OF that] mgr_invD(4) [OF inv that] eq [of b] by linarith
  moreover have "mamba_spec_blocks m \<le> int (length (req_blocks ?m r))" if "r \<in> set (allocated_block_reqs m)" for r
  proof -
    have "mamba_spec_blocks m \<le> int (length (req_blocks m r))" using mgr_invD(2) [OF inv] that by (simp add: tables_ok_def)
    then show ?thesis using len by (cases "r = rid") auto
  qed
  then have "tables_ok ?m"
    using mgr_invD(2) [OF inv] dist unfolding tables_ok_def mgr_coreD [OF core]
    by (simp add: distinct_update)
  ultimately show ?thesis using p' inv by (simp add: mgr_inv_def)
qed

lemma skipped_le: "spec_ok (mgr_spec m) \<Longrightarrow> 0 \<le> n \<Longrightarrow> get_num_skipped_tokens m n \<le> n"
  by (auto simp: get_num_skipped_tokens_def spec_ok_def sliding_get_num_skipped_tokens_def chunked_get_num_skipped_tokens_def
      mamba_get_num_skipped_tokens_def minus_mod_eq_div_mult [symmetric] split: manager_class.splits kv_cache_spec.splits)

lemma table_fits:
  assumes "tables_ok m" and "0 \<le> n" and "int (length bs) * mgr_block_size m \<le> n"
  defines "k \<equiv> get_num_skipped_tokens m n div mgr_block_size m"
  shows "int (length (replicate (nat k) nb @ (if 0 < k then py_from bs k else bs))) \<le> cdiv n (mgr_block_size m)"
proof -
  have pos: "0 < mgr_block_size m" and s: "spec_ok (mgr_spec m)" using assms(1) by (simp_all add: tables_ok_def)
  have "int (length bs) * mgr_block_size m \<le> cdiv n (mgr_block_size m) * mgr_block_size m"
    using assms(3) cdiv_mult_ge [OF pos, of n] by linarith
  then have len: "int (length bs) \<le> cdiv n (mgr_block_size m)" using pos by simp
  have "k * mgr_block_size m \<le> get_num_skipped_tokens m n" unfolding k_def using int_le_div_iff [OF pos] by blast
  then have "k * mgr_block_size m \<le> cdiv n (mgr_block_size m) * mgr_block_size m"
    using skipped_le [OF s assms(2)] cdiv_mult_ge [OF pos, of n] by linarith
  then have "k \<le> cdiv n (mgr_block_size m)" using pos by simp
  then show ?thesis using len cdiv_nonneg [OF pos assms(2)] by (auto simp: py_from_nonneg)
qed

section \<open>Blocks leaving a table\<close>

lemma py_index_set:
  assumes "py_index xs i = Inr b" and "py_set xs i v = Inr ys"
  shows "\<exists>j<length xs. b = xs ! j \<and> ys = xs[j := v]"
proof -
  let ?j = "if 0 \<le> i then nat i else nat (int (length xs) + i)"
  have "?j < length xs" "b = xs ! ?j" "ys = xs[?j := v]"
    using assms by (auto simp: py_index_def py_set_def split: if_splits)
  then show ?thesis by blast
qed

lemma count_list_update:
  "i < length xs \<Longrightarrow> count_list (xs[i := v]) b + (if xs ! i = b then 1 else 0) = count_list xs b + (if v = b then 1 else 0)"
proof (induction xs arbitrary: i)
  case (Cons x xs)
  show ?case
  proof (cases i)
    case (Suc j)
    then show ?thesis using Cons.IH [of j] Cons.prems by (auto split: if_splits)
  qed simp
qed simp

lemma count_le_1_distinct: "distinct xs \<longleftrightarrow> (\<forall>b. count_list xs b \<le> 1)"
proof
  show "\<forall>b. count_list xs b \<le> 1" if "distinct xs" using count_distinct [OF that] by simp
  show "distinct xs" if "\<forall>b. count_list xs b \<le> 1"
    using that
  proof (induction xs)
    case (Cons x xs)
    have "count_list xs b \<le> 1" for b using Cons.prems [rule_format, of b] by (auto split: if_splits)
    moreover have "count_list xs x = 0" using Cons.prems [rule_format, of x] by simp
    ultimately show ?case using Cons.IH by (simp add: count_list_0_iff)
  qed simp
qed

lemma count_real: "b \<noteq> Blk 0 \<Longrightarrow> count_list (real_blocks xs) b = count_list xs b" "count_list (real_blocks xs) (Blk 0) = 0"
  by (induction xs) auto

lemma distinct_real: "distinct (real_blocks xs) \<longleftrightarrow> (\<forall>b. b \<noteq> Blk 0 \<longrightarrow> count_list xs b \<le> 1)"
  unfolding count_le_1_distinct using count_real by (metis le0)

text \<open>\<open>removed\<close> was taken out of \<open>bs\<close>, null blocks left in its places.\<close>

definition taken :: "blk list \<Rightarrow> blk list \<Rightarrow> blk list \<Rightarrow> bool" where
  "taken bs removed bs' \<longleftrightarrow> length bs' = length bs \<and>
     (\<forall>b. b \<noteq> Blk 0 \<longrightarrow> count_list bs' b + count_list removed b = count_list bs b) \<and> Blk 0 \<notin> set removed"

lemma taken_none: "taken bs [] bs"
  by (simp add: taken_def)

lemma taken_step:
  assumes "i < length bs" and "bs ! i \<noteq> Blk 0" and "taken (bs[i := Blk 0]) removed bs'"
  shows "taken bs (bs ! i # removed) bs'"
proof -
  have "count_list bs' b + count_list (bs ! i # removed) b = count_list bs b" if b: "b \<noteq> Blk 0" for b
  proof -
    have "count_list bs' b + count_list removed b = count_list (bs[i := Blk 0]) b" using assms(3) b by (simp add: taken_def)
    then show ?thesis using count_list_update [OF assms(1), of "Blk 0" b] b by (auto split: if_splits)
  qed
  then show ?thesis using assms by (simp add: taken_def)
qed

lemma taken_subset: "taken bs removed bs' \<Longrightarrow> set removed \<subseteq> set bs"
proof
  fix b assume t: "taken bs removed bs'" and b: "b \<in> set removed"
  then have nz: "b \<noteq> Blk 0" by (auto simp: taken_def)
  have "0 < count_list removed b" using b by (simp add: count_list_0_iff flip: neq0_conv)
  moreover have "count_list bs' b + count_list removed b = count_list bs b" using t nz by (simp add: taken_def)
  ultimately have "count_list bs b \<noteq> 0" by linarith
  then show "b \<in> set bs" by (simp add: count_list_0_iff)
qed

lemma skip_loop_taken: "n \<le> length bs \<Longrightarrow> skip_loop (Blk 0) bs n = (removed, bs') \<Longrightarrow> taken bs removed bs'"
proof (induction n arbitrary: bs removed)
  case (Suc n)
  show ?case
  proof (cases "bs ! n = Blk 0")
    case True
    then show ?thesis using Suc.prems by (simp add: taken_none)
  next
    case False
    obtain r where r: "skip_loop (Blk 0) (bs[n := Blk 0]) n = (r, bs')" "removed = bs ! n # r"
      using Suc.prems False by (auto split: prod.splits)
    then have "taken (bs[n := Blk 0]) r bs'" using Suc.IH [of "bs[n := Blk 0]" r] Suc.prems(1) by simp
    then show ?thesis unfolding r(2) by (rule taken_step [OF _ False, rotated]) (use Suc.prems(1) in simp)
  qed
qed (simp add: taken_none)

lemma release_loop_taken:
  "start + n \<le> length bs \<Longrightarrow> release_loop_from (Blk 0) start bs n = (removed, bs') \<Longrightarrow> taken bs removed bs'"
proof (induction n arbitrary: bs removed)
  case (Suc n)
  show ?case
  proof (cases "bs ! (start + n) = Blk 0")
    case True
    then show ?thesis using Suc by simp
  next
    case False
    obtain r where r: "release_loop_from (Blk 0) start (bs[start + n := Blk 0]) n = (r, bs')" "removed = bs ! (start + n) # r"
      using Suc.prems False by (auto split: prod.splits)
    then have "taken (bs[start + n := Blk 0]) r bs'" using Suc.IH [of "bs[start + n := Blk 0]" r] Suc.prems(1) by simp
    then show ?thesis unfolding r(2) by (rule taken_step [OF _ False, rotated]) (use Suc.prems(1) in simp)
  qed
qed (simp add: taken_none)

text \<open>What the loops return and leave.\<close>

lemma skip_loop_eq:
  assumes "j \<le> n" and "n \<le> length bs" and "\<forall>i<j. bs ! i = nb" and "\<forall>i. j \<le> i \<and> i < n \<longrightarrow> bs ! i \<noteq> nb"
  shows "skip_loop nb bs n = (rev (take (n - j) (drop j bs)), replicate n nb @ drop n bs)"
  using assms
proof (induction n arbitrary: bs)
  case (Suc n)
  show ?case
  proof (cases "j = Suc n")
    case True
    then have "bs ! n = nb" using Suc.prems(3) by simp
    moreover have "take (Suc n) bs = replicate (Suc n) nb"
      by (rule replicate_eqI) (use True Suc.prems(2,3) in \<open>auto simp: in_set_conv_nth\<close>)
    ultimately show ?thesis using True append_take_drop_id [of "Suc n" bs] by simp
  next
    case False
    then have j: "j \<le> n" using Suc.prems(1) by simp
    let ?bs = "bs[n := nb]"
    have "skip_loop nb ?bs n = (rev (take (n - j) (drop j ?bs)), replicate n nb @ drop n ?bs)"
      using Suc.prems j by (intro Suc.IH) auto
    moreover have "take (n - j) (drop j ?bs) = take (n - j) (drop j bs)" using j by (simp add: drop_update_swap)
    moreover have "drop n ?bs = nb # drop (Suc n) bs"
      using Suc.prems(2) by (simp add: drop_update_swap Cons_nth_drop_Suc [symmetric])
    moreover have "take (Suc n - j) (drop j bs) = take (n - j) (drop j bs) @ [bs ! n]"
      using j Suc.prems(2) by (simp add: Suc_diff_le take_Suc_conv_app_nth)
    moreover have "bs ! n \<noteq> nb" using Suc.prems(4) j by simp
    ultimately show ?thesis by (simp add: replicate_append_same [symmetric])
  qed
qed simp

lemma release_loop_eq:
  assumes "start + n \<le> length bs"
  shows "release_loop_from nb start bs n =
    (rev (filter (\<lambda>b. b \<noteq> nb) (take n (drop start bs))), take start bs @ replicate n nb @ drop (start + n) bs)"
  using assms
proof (induction n arbitrary: bs)
  case (Suc n)
  let ?i = "start + n" and ?bs = "bs[start + n := nb]"
  have tk: "take (Suc n) (drop start bs) = take n (drop start bs) @ [bs ! ?i]"
    using Suc.prems by (simp add: take_Suc_conv_app_nth)
  have "release_loop_from nb start ?bs n =
      (rev (filter (\<lambda>b. b \<noteq> nb) (take n (drop start ?bs))), take start ?bs @ replicate n nb @ drop ?i ?bs)"
    using Suc.prems by (intro Suc.IH) simp
  moreover have "take n (drop start ?bs) = take n (drop start bs)" "take start ?bs = take start bs"
    by (simp_all add: drop_update_swap)
  moreover have "drop ?i ?bs = nb # drop (Suc ?i) bs"
    using Suc.prems by (simp add: drop_update_swap Cons_nth_drop_Suc [symmetric])
  moreover have "?bs = bs" if "bs ! ?i = nb" using that by (metis list_update_id)
  ultimately show ?case by (cases "bs ! ?i = nb") (simp_all add: tk replicate_append_same [symmetric])
qed simp

section \<open>Blocks entering a table\<close>

lemma round_up_nonneg: "0 < bpb \<Longrightarrow> 0 \<le> n \<Longrightarrow> 0 \<le> round_up_to_bundle bpb n"
  by (simp add: round_up_to_bundle_def cdiv_nonneg)

lemma required_ok:
  assumes "0 < bpb" and "0 \<le> scratch_blocks m"
    and req_def: "req = compact_required_indices bpb m prefix n nm force released"
  shows "distinct req" and "i \<in> set req \<Longrightarrow> 0 \<le> i \<and> i \<le> last req"
proof -
  have last_upto: "last [a..b] = b" if "a \<le> b" for a b :: int using that by (simp add: upto_rec2)
  have two: "distinct ([0..a - 1] @ [max a t..b - 1]) \<and>
      (\<forall>i\<in>set ([0..a - 1] @ [max a t..b - 1]). 0 \<le> i \<and> i \<le> last ([0..a - 1] @ [max a t..b - 1]))" if "0 \<le> a" for a b t :: int
    using that last_upto [of 0 "a - 1"] last_upto [of "max a t" "b - 1"]
    by (cases "max a t \<le> b - 1"; cases "0 \<le> a - 1") (auto simp: last_append upto_empty)
  have one: "distinct [0..b - 1] \<and> (\<forall>i\<in>set [0..b - 1]. 0 \<le> i \<and> i \<le> last [0..b - 1])" for b :: int
    using last_upto [of 0 "b - 1"] by auto
  have "distinct req \<and> (\<forall>i\<in>set req. 0 \<le> i \<and> i \<le> last req)"
  proof (cases "\<not> force \<and> nm \<le> prefix")
    case True
    then have "req = [0..round_up_to_bundle bpb (cdiv n (mgr_block_size m)) - 1]"
      by (simp add: req_def compact_required_indices_def)
    then show ?thesis using one [of "round_up_to_bundle bpb (cdiv n (mgr_block_size m))"] by metis
  next
    case False
    then obtain t where "req = [0..round_up_to_bundle bpb (scratch_blocks m) - 1] @
        [max (round_up_to_bundle bpb (scratch_blocks m)) t..round_up_to_bundle bpb (cdiv n (mgr_block_size m)) - 1]"
      unfolding req_def compact_required_indices_def Let_def by auto
    then show ?thesis using two [OF round_up_nonneg [OF assms(1,2)]] by metis
  qed
  then show "distinct req" "i \<in> set req \<Longrightarrow> 0 \<le> i \<and> i \<le> last req" by blast+
qed

lemma fill_missing:
  assumes "distinct missing" and "\<forall>i\<in>set missing. 0 \<le> i \<and> i < int (length bs) \<and> bs ! nat i = Blk 0"
    and "length new = length missing"
  defines "bs' \<equiv> fold (\<lambda>(i, b) xs. xs[nat i := b]) (zip missing new) bs"
  shows "length bs' = length bs \<and> (\<forall>b. b \<noteq> Blk 0 \<longrightarrow> count_list bs' b = count_list bs b + count_list new b)"
  using assms(1-3) unfolding bs'_def
proof (induction missing arbitrary: bs new)
  case (Cons i js)
  obtain c cs where new: "new = c # cs" "length cs = length js" using Cons.prems(3) by (cases new) auto
  have i: "0 \<le> i" "nat i < length bs" "bs ! nat i = Blk 0" using Cons.prems(2) by (auto simp: nat_less_iff)
  let ?bs = "bs[nat i := c]"
  have "\<forall>j\<in>set js. 0 \<le> j \<and> j < int (length ?bs) \<and> ?bs ! nat j = Blk 0"
  proof
    fix j assume j: "j \<in> set js"
    then have "j \<noteq> i" "0 \<le> j" using Cons.prems(1,2) by auto
    then have "nat j \<noteq> nat i" using i(1) by simp
    then show "0 \<le> j \<and> j < int (length ?bs) \<and> ?bs ! nat j = Blk 0" using Cons.prems(2) j by simp
  qed
  then have IH: "length (fold (\<lambda>(i, b) xs. xs[nat i := b]) (zip js cs) ?bs) = length ?bs \<and>
      (\<forall>b. b \<noteq> Blk 0 \<longrightarrow> count_list (fold (\<lambda>(i, b) xs. xs[nat i := b]) (zip js cs) ?bs) b = count_list ?bs b + count_list cs b)"
    using Cons.IH [of ?bs cs] Cons.prems(1) new(2) by simp
  have "count_list ?bs b = count_list bs b + (if c = b then 1 else 0)" if "b \<noteq> Blk 0" for b
    using count_list_update [OF i(2), of c b] i(3) that by (auto split: if_splits)
  then show ?case using IH by (simp add: new(1))
qed simp

lemma reuse_loop_spec:
  assumes "reuse_loop (Blk 0) k [a..c - 1] bs = Inr bs'" and "0 \<le> a" and "c \<le> int (length bs)"
  shows "int (length bs') = int (length bs) + max 0 (min c k - a) \<and>
    (\<forall>b. b \<noteq> Blk 0 \<longrightarrow> count_list bs' b = count_list bs b)"
  using assms
proof (induction "nat (c - a)" arbitrary: a bs)
  case 0
  then show ?case by simp
next
  case (Suc n)
  then have ac: "a < c" by simp
  then have list: "[a..c - 1] = a # [a + 1..c - 1]" by (simp add: upto_rec1)
  show ?case
  proof (cases "a < k")
    case False
    then show ?thesis using Suc.prems(1) list by simp
  next
    case True
    have ix: "nat a < length bs" "a < int (length bs)" "0 \<le> a" using ac Suc.prems by auto
    let ?bs = "(bs @ [bs ! nat a])[nat a := Blk 0]"
    have "reuse_loop (Blk 0) k [a + 1..c - 1] ?bs = Inr bs'"
      using Suc.prems(1) True ix unfolding list by (simp add: py_index_nth py_set_def)
    then have IH: "int (length bs') = int (length ?bs) + max 0 (min c k - (a + 1)) \<and>
        (\<forall>b. b \<noteq> Blk 0 \<longrightarrow> count_list bs' b = count_list ?bs b)"
      using Suc.hyps(1) [of "a + 1" ?bs] Suc.hyps(2) Suc.prems(2,3) by simp
    have "count_list ?bs b = count_list bs b" if "b \<noteq> Blk 0" for b
      using count_list_update [of "nat a" "bs @ [bs ! nat a]" "Blk 0" b] ix that by (auto simp: nth_append split: if_splits)
    then show ?thesis using IH True ac by simp
  qed
qed

section \<open>The operations over any pool\<close>

context kv_pool
begin

lemma get_inv:
  assumes "mgr_inv inv refs ext m p" and "0 \<le> n" and "po_get_new_blocks ops n p = Inr (bs, p')"
  shows "inv p'" and "n \<le> int (length bs)" and "distinct bs" and "Blk 0 \<notin> set bs"
    and "\<forall>b\<in>set bs. refs p b = 0 \<and> b \<notin> set (req_blocks m rid)"
    and "b \<noteq> Blk 0 \<Longrightarrow> refs p' b = refs p b + int (count_list bs b)"
    and "po_get_num_free_blocks ops p' = po_get_num_free_blocks ops p - int (length bs)"
proof -
  have I: "inv p" by (rule mgr_invD(1) [OF assms(1)])
  have "n \<le> po_get_num_free_blocks ops p" using get_error [OF I, of n] assms(3) by fastforce
  from get_ok [OF I assms(2) this] show *: "inv p'" "n \<le> int (length bs)" "distinct bs" "Blk 0 \<notin> set bs"
    "po_get_num_free_blocks ops p' = po_get_num_free_blocks ops p - int (length bs)" using assms(3) by auto
  have z: "\<forall>b\<in>set bs. b \<noteq> Blk 0 \<and> refs p b = 0" and r: "refs p' = (\<lambda>b. if b \<in> set bs then 1 else refs p b)"
    using get_ok [OF I assms(2) \<open>n \<le> po_get_num_free_blocks ops p\<close>] assms(3) by auto
  show "refs p' b = refs p b + int (count_list bs b)"
    using z *(3) by (simp add: r count_distinct)
  show "\<forall>b\<in>set bs. refs p b = 0 \<and> b \<notin> set (req_blocks m rid)"
  proof (intro ballI conjI notI)
    fix b assume b: "b \<in> set bs"
    show "refs p b = 0" using z b by blast
    assume "b \<in> set (req_blocks m rid)"
    then have "0 < count_list (req_blocks m rid) b" by (simp add: count_list_0_iff flip: neq0_conv)
    then have "0 < held m b" using hsum_ge [of "req_to_blocks m" rid b] by (simp add: held_def req_blocks_def)
    then show False using mgr_invD(3,4) [OF assms(1), of b] z b by fastforce
  qed
qed

lemma referenced:
  assumes "mgr_inv inv refs ext m p" and "b \<in> set (req_blocks m rid)" and "b \<noteq> Blk 0"
  shows "0 < refs p b"
proof -
  have "0 < count_list (req_blocks m rid) b" using assms(2) by (simp add: count_list_0_iff flip: neq0_conv)
  then have "0 < held m b" using hsum_ge [of "req_to_blocks m" rid b] by (simp add: held_def req_blocks_def)
  then show ?thesis using mgr_invD(3,4) [OF assms(1), of b] assms(3) by fastforce
qed

text \<open>Blocks of a request's table can be returned to the pool.\<close>

lemma release:
  assumes inv: "mgr_inv inv refs ext m p" and sub: "set bs \<subseteq> set (req_blocks m rid)" and dist: "distinct (real_blocks bs)"
  shows "\<exists>p'. po_free_blocks ops bs p = Inr p' \<and> inv p' \<and> (\<forall>b. b \<noteq> Blk 0 \<longrightarrow> refs p' b = refs p b - int (count_list bs b))"
proof -
  have "0 < refs p b" if "b \<in> set bs" "b \<noteq> Blk 0" for b using referenced [OF inv] sub that by blast
  from free_ok [OF mgr_invD(1) [OF inv] this dist] show ?thesis
    using count_distinct_filter [OF dist] by fastforce
qed

text \<open>New blocks at the end of a table.\<close>

lemma extend_inv:
  assumes inv: "mgr_inv inv refs ext m p" and n: "0 \<le> n" and get: "po_get_new_blocks ops n p = Inr (bs, p')"
  shows "mgr_inv inv refs ext (set_req_blocks rid (req_blocks m rid @ bs) m) p'"
proof (rule mgr_inv_set [OF inv])
  note g = get_inv [OF inv n get]
  show "inv p'" by (rule g)
  show "refs p' b = refs p b + int (count_list (req_blocks m rid @ bs) b) - int (count_list (req_blocks m rid) b)" if "b \<noteq> Blk 0" for b
    using g(6) [OF that] by simp
  show "distinct (real_blocks (req_blocks m rid @ bs))"
    using g(3) g(5) [of rid] mgr_invD(7) [OF inv, of rid] by auto
qed simp

lemma pool_only:
  "mgr_inv inv refs ext m p \<Longrightarrow> inv p' \<Longrightarrow> refs p' = refs p \<Longrightarrow> mgr_inv inv refs ext m p'"
  by (simp add: mgr_inv_def)

lemma take_back:
  assumes inv: "mgr_inv inv refs ext m p" and t: "taken (req_blocks m rid) removed bs'"
  shows "\<exists>p'. po_free_blocks ops removed p = Inr p' \<and> mgr_inv inv refs ext (set_req_blocks rid bs' m) p'"
proof -
  have cnt: "count_list bs' b + count_list removed b = count_list (req_blocks m rid) b" if "b \<noteq> Blk 0" for b
    using t that by (simp add: taken_def)
  have one: "count_list (req_blocks m rid) b \<le> 1" if "b \<noteq> Blk 0" for b
    using mgr_invD(7) [OF inv, of rid] that by (simp add: distinct_real)
  have "count_list removed b \<le> 1" "count_list bs' b \<le> 1" if "b \<noteq> Blk 0" for b
    using cnt [OF that] one [OF that] by linarith+
  then have dist: "distinct (real_blocks removed)" "distinct (real_blocks bs')" by (simp_all add: distinct_real)
  obtain p' where p': "po_free_blocks ops removed p = Inr p'" "inv p'"
    "\<And>b. b \<noteq> Blk 0 \<Longrightarrow> refs p' b = refs p b - int (count_list removed b)"
    using release [OF inv taken_subset [OF t] dist(1)] by blast
  have "mgr_inv inv refs ext (set_req_blocks rid bs' m) p'"
  proof (rule mgr_inv_set [OF inv p'(2) _ dist(2)])
    show "refs p' b = refs p b + int (count_list bs' b) - int (count_list (req_blocks m rid) b)" if "b \<noteq> Blk 0" for b
      using p'(3) [OF that] cnt [OF that] by linarith
  qed (use t in \<open>simp add: taken_def\<close>)
  then show ?thesis using p'(1) by blast
qed

lemma default_inv: "mgr_inv inv refs ext m p \<Longrightarrow> mgr_inv inv refs ext (default_req rid m) p"
  by (rule mgr_inv_cong [where rid = rid]) (auto simp: default_req_def)

lemma base_remove_skipped_inv:
  assumes inv: "mgr_inv inv refs ext m p"
  shows "\<exists>m' p'. base_remove_skipped_blocks ops rid t (m, p) = Inr (m', p') \<and> mgr_inv inv refs ext m' p' \<and> mgr_core m' = mgr_core m \<and>
    last_state_block_idx m' = last_state_block_idx m"
proof (cases "get_num_skipped_tokens m t \<le> 0")
  case True
  then show ?thesis using inv by (simp add: base_remove_skipped_blocks_def)
next
  case False
  let ?bs = "req_blocks m rid"
  let ?n = "nat (min (get_num_skipped_tokens m t div mgr_block_size m) (int (length ?bs)))"
  obtain removed bs' where loop: "skip_loop (mgr_null m) ?bs ?n = (removed, bs')" by fastforce
  have "taken ?bs removed bs'" using skip_loop_taken [of ?n ?bs removed bs'] loop mgr_invD(5) [OF inv] by simp
  then obtain p' where "po_free_blocks ops removed p = Inr p'" "mgr_inv inv refs ext (set_req_blocks rid bs' (default_req rid m)) p'"
    using take_back [OF default_inv [OF inv, of rid], of rid removed bs'] by auto
  then show ?thesis using False loop by (simp add: base_remove_skipped_blocks_def set_req_blocks_def default_req_def)
qed

lemma base_allocate_new_blocks_inv:
  assumes inv: "mgr_inv inv refs ext m p" and ok: "base_allocate_new_blocks ops rid n (m, p) = Inr (bs, m', p')"
  shows "mgr_inv inv refs ext m' p'"
proof (cases "cdiv n (mgr_block_size m) - int (length (req_blocks m rid)) \<le> 0")
  case True
  then show ?thesis using ok default_inv [OF inv, of rid] by (simp add: base_allocate_new_blocks_def)
next
  case False
  then have get: "po_get_new_blocks ops (cdiv n (mgr_block_size m) - int (length (req_blocks m rid))) p = Inr (bs, p')"
    and m': "m' = add_new_block_ids ops p' bs (set_req_blocks rid (req_blocks m rid @ bs) (default_req rid m))"
    using ok by (auto simp: base_allocate_new_blocks_def Let_def rbind_eq_Inr_iff)
  have "mgr_inv inv refs ext (set_req_blocks rid (req_blocks (default_req rid m) rid @ bs) (default_req rid m)) p'"
    by (rule extend_inv [OF default_inv [OF inv] _ get]) (use False in simp)
  then show ?thesis unfolding m' by (rule mgr_inv_cong) auto
qed

lemma base_cache_blocks_inv:
  assumes inv: "mgr_inv inv refs ext m p" and ok: "base_cache_blocks ops r n (m, p) = Inr (m', p')"
  shows "mgr_inv inv refs ext m' p' \<and> mgr_core m' = mgr_core m"
proof (cases "n div mgr_block_size m \<le> dget (num_cached_block m) (request_id r) 0")
  case True
  then show ?thesis using ok inv by (simp add: base_cache_blocks_def)
next
  case False
  let ?rid = "request_id r"
  obtain c k where cache: "po_cache_full_blocks ops r (req_blocks m ?rid) c k (mgr_block_size m) (kv_cache_group_id m) p = Inr p'"
    and m': "m' = (default_req ?rid m)\<lparr>num_cached_block := AList.update ?rid k (num_cached_block m)\<rparr>"
    using ok False by (auto simp: base_cache_blocks_def Let_def rbind_eq_Inr_iff)
  have "inv p'" and "refs p' = refs p"
    using cache_inv [OF mgr_invD(1) [OF inv] _ cache] referenced [OF inv] by auto
  then have "mgr_inv inv refs ext (default_req ?rid m) p'" by (rule pool_only [OF default_inv [OF inv]])
  then have "mgr_inv inv refs ext m' p'" unfolding m' by (rule mgr_inv_cong) auto
  then show ?thesis by (simp add: m')
qed

lemma touched_inv:
  assumes inv: "mgr_inv inv refs ext m p" and none: "req_blocks m rid = []" and dist: "distinct (real_blocks bs)"
    and valid: "\<And>b. b \<in> set bs \<Longrightarrow> valid p b"
    and p1: "(if c then po_touch ops bs p else rassert (bs = []) (Inr p)) = Inr p1"
  shows "mgr_inv inv refs ext (set_req_blocks rid (replicate k (Blk 0) @ bs) m) p1"
proof (rule mgr_inv_set [OF inv])
  have "inv p1 \<and> (\<forall>b. b \<noteq> Blk 0 \<longrightarrow> refs p1 b = refs p b + int (count_list bs b))"
  proof (cases c)
    case True
    then show ?thesis using touch_inv [OF mgr_invD(1) [OF inv] valid, of bs p1] p1 by simp
  next
    case False
    then show ?thesis using p1 mgr_invD(1) [OF inv] by (auto simp: rassert_eq_Inr_iff)
  qed
  moreover have "count_list (replicate k (Blk 0)) b = 0" if "b \<noteq> Blk 0" for b using that by (simp add: count_list_0_iff)
  ultimately show "inv p1" "\<And>b. b \<noteq> Blk 0 \<Longrightarrow> refs p1 b = refs p b + int (count_list (replicate k (Blk 0) @ bs) b) - int (count_list (req_blocks m rid) b)"
    using none by auto
qed (use none dist in auto)

lemma base_allocate_new_computed_inv:
  assumes inv: "mgr_inv inv refs ext m p" and valid: "\<And>b. b \<in> set bs \<Longrightarrow> valid p b" and dist: "distinct (real_blocks bs)"
    and tok: "0 \<le> l + e" "int (length bs) * mgr_block_size m \<le> l + e"
    and ok: "base_allocate_new_computed_blocks ops rid bs l e (m, p) = Inr (m', p')"
  shows "mgr_inv inv refs ext m' p'"
proof (cases "dhas (num_cached_block m) rid")
  case True
  then show ?thesis using ok inv by (simp add: base_allocate_new_computed_blocks_def rassert_eq_Inr_iff)
next
  case False
  let ?k = "get_num_skipped_tokens m (l + e) div mgr_block_size m"
  let ?c = "if 0 < ?k then py_from bs ?k else bs"
  let ?rb = "replicate (nat ?k) (mgr_null m) @ ?c"
  let ?m0 = "set_req_blocks rid ?rb (default_req rid m)"
  let ?m1 = "?m0\<lparr>num_cached_block := AList.update rid (int (length ?rb)) (num_cached_block m)\<rparr>"
  have none: "req_blocks m rid = []" using ok False by (simp add: base_allocate_new_computed_blocks_def rassert_eq_Inr_iff)
  let ?ex = "if 0 < ?k then min (l + e - get_num_skipped_tokens m (l + e)) e else e"
  obtain p1 where p1: "(if mgr_enable_caching m then po_touch ops ?c p else rassert (?c = []) (Inr p)) = Inr p1"
    and rest: "(if 0 < ?ex then rbind (po_get_new_blocks ops (cdiv (l + e) (mgr_block_size m) - int (length ?rb)) p1)
                  (\<lambda>(allocated, p2). Inr (add_new_block_ids ops p2 allocated (set_req_blocks rid (?rb @ allocated) ?m1), p2))
                else Inr (?m1, p1)) = Inr (m', p')"
    using ok False unfolding base_allocate_new_computed_blocks_def Let_def by (auto simp: rassert_eq_Inr_iff rbind_eq_Inr_iff simp del: req_blocks_simps)
  have sub: "set ?c \<subseteq> set bs" "distinct (real_blocks ?c)"
    using dist set_drop_subset [of "nat ?k" bs] by (auto simp: py_from_nonneg distinct_real) (metis append_take_drop_id count_list_append le_add2 order_trans)
  have null: "mgr_null m = Blk 0" by (rule mgr_invD(5) [OF inv])
  have inv0: "mgr_inv inv refs ext ?m0 p1"
    unfolding null by (rule touched_inv [OF default_inv [OF inv, of rid] _ sub(2) _ p1]) (use none valid sub(1) in auto)
  have inv1: "mgr_inv inv refs ext ?m1 p1" by (rule mgr_inv_cong [OF inv0]) auto
  show ?thesis
  proof (cases "0 < ?ex")
    case True
    then obtain al p2 where get: "po_get_new_blocks ops (cdiv (l + e) (mgr_block_size m) - int (length ?rb)) p1 = Inr (al, p2)"
      and m': "m' = add_new_block_ids ops p2 al (set_req_blocks rid (?rb @ al) ?m1)" "p' = p2"
      using rest by (auto simp: rbind_eq_Inr_iff)
    have "0 \<le> cdiv (l + e) (mgr_block_size m) - int (length ?rb)" using table_fits [OF mgr_invD(2) [OF inv] tok] by simp
    then have "mgr_inv inv refs ext (set_req_blocks rid (req_blocks ?m1 rid @ al) ?m1) p2" by (rule extend_inv [OF inv1 _ get])
    then have "mgr_inv inv refs ext (set_req_blocks rid (?rb @ al) ?m1) p2" by simp
    then show ?thesis unfolding m' by (rule mgr_inv_cong) auto
  next
    case False
    then show ?thesis using rest inv1 by simp
  qed
qed

lemma base_free_spec:
  assumes inv: "mgr_inv inv refs ext m p" and clear: "rid \<notin> set (allocated_block_reqs m)"
  defines "m' \<equiv> m\<lparr>req_to_blocks := AList.delete rid (req_to_blocks m), num_cached_block := AList.delete rid (num_cached_block m)\<rparr>"
  shows "\<exists>p'. base_free ops rid (m, p) = Inr (m', p') \<and> mgr_inv inv refs ext m' p'"
proof -
  have dist: "distinct (real_blocks (rev (req_blocks m rid)))" using mgr_invD(7) [OF inv, of rid] by (simp flip: rev_filter)
  obtain p' where p': "po_free_blocks ops (rev (req_blocks m rid)) p = Inr p'" "inv p'"
    "\<And>b. b \<noteq> Blk 0 \<Longrightarrow> refs p' b = refs p b - int (count_list (req_blocks m rid) b)"
    using release [OF inv _ dist, of rid] by (auto simp: count_list_rev)
  have keys: "distinct (map fst (req_to_blocks m))" using inv by (simp add: mgr_inv_def tables_ok_def)
  have "refs p' b = ext b + int (held m' b)" if "b \<noteq> Blk 0" for b
    using p'(3) [OF that] mgr_invD(4) [OF inv that] hsum_delete [OF keys, of rid b] by (simp add: held_def m'_def req_blocks_def)
  moreover have core: "mgr_core m' = mgr_core m" by (simp add: m'_def)
  have "req_blocks m' = (req_blocks m)(rid := [])" "allocated_block_reqs m' = allocated_block_reqs m"
    "req_to_blocks m' = AList.delete rid (req_to_blocks m)" by (simp_all add: m'_def)
  then have "tables_ok m'"
    using mgr_invD(2) [OF inv] clear unfolding tables_ok_def mgr_coreD [OF core] by (auto simp: distinct_delete)
  ultimately show ?thesis using p'(1,2) inv by (auto simp: base_free_def m'_def mgr_inv_def)
qed

lemma grow_null:
  assumes "mgr_inv inv refs ext m p"
  shows "mgr_inv inv refs ext (set_req_blocks rid (req_blocks m rid @ replicate k (Blk 0)) m) p"
proof (rule mgr_inv_set [OF assms mgr_invD(1) [OF assms]])
  show "refs p b = refs p b + int (count_list (req_blocks m rid @ replicate k (Blk 0)) b) - int (count_list (req_blocks m rid) b)"
    if "b \<noteq> Blk 0" for b using that by (simp add: count_list_0_iff)
qed (use mgr_invD(7) [OF assms, of rid] in simp_all)

text \<open>New blocks put anywhere into a table that otherwise keeps its blocks.\<close>

lemma place_inv:
  assumes inv: "mgr_inv inv refs ext m p" and n: "0 \<le> n" and get: "po_get_new_blocks ops n p = Inr (new, p')"
    and cnt: "\<And>b. b \<noteq> Blk 0 \<Longrightarrow> count_list bs b = count_list (req_blocks m rid) b + count_list new b"
    and len: "length (req_blocks m rid) \<le> length bs"
  shows "mgr_inv inv refs ext (set_req_blocks rid bs m) p'"
proof (rule mgr_inv_set [OF inv _ _ _ len])
  note g = get_inv [OF inv n get]
  show "inv p'" by (rule g)
  show "refs p' b = refs p b + int (count_list bs b) - int (count_list (req_blocks m rid) b)" if "b \<noteq> Blk 0" for b
    using g(6) [OF that] cnt [OF that] by simp
  have "count_list bs b \<le> 1" if b: "b \<noteq> Blk 0" for b
  proof (cases "b \<in> set new")
    case True
    then have "count_list (req_blocks m rid) b = 0" "count_list new b = 1"
      using g(3) g(5) [of rid] by (auto simp: count_list_0_iff count_distinct)
    then show ?thesis using cnt [OF b] by simp
  next
    case False
    then have "count_list new b = 0" by (simp add: count_list_0_iff)
    moreover have "count_list (req_blocks m rid) b \<le> 1" using mgr_invD(7) [OF inv, of rid] b by (simp add: distinct_real)
    ultimately show ?thesis using cnt [OF b] by simp
  qed
  then show "distinct (real_blocks bs)" by (simp add: distinct_real)
qed

lemma compact_request_inv:
  assumes inv: "mgr_inv inv refs ext m p" and ok: "allocate_compact_request_blocks ops rid n nm force (m, p) = Inr (new, m', p')"
  shows "mgr_inv inv refs ext m' p' \<and> mgr_core m' = mgr_core m"
proof -
  obtain prefix where prefix: "map_of (compact_prefix_tokens m) rid = Some prefix"
    using ok by (auto simp: allocate_compact_request_blocks_def split: option.splits)
  define req where "req = compact_required_indices (po_blocks_per_bundle ops p) m prefix n nm force (dget (compact_released_blocks m) rid 0)"
  define k where "k = (if req = [] then 0 else nat (last req + 1) - length (req_blocks m rid))"
  let ?bs = "req_blocks m rid @ replicate k (Blk 0)"
  let ?m1 = "set_req_blocks rid ?bs (default_req rid m)"
  let ?miss = "filter (\<lambda>i. ?bs ! nat i = Blk 0) req"
  have null: "mgr_null m = Blk 0" by (rule mgr_invD(5) [OF inv])
  have body: "(if ?miss = [] then Inr ([], ?m1, p)
      else rbind (po_get_new_blocks ops (int (length ?miss)) p) (\<lambda>(new_blocks, p1).
        rassert (length new_blocks = length ?miss)
          (Inr (new_blocks, set_req_blocks rid (fold (\<lambda>(i, b) xs. xs[nat i := b]) (zip ?miss new_blocks) ?bs) ?m1, p1)))) = Inr (new, m', p')"
    using ok unfolding allocate_compact_request_blocks_def k_def by (auto simp: prefix null req_def [symmetric] Let_def cong: if_cong)
  have inv1: "mgr_inv inv refs ext ?m1 p" using grow_null [OF default_inv [OF inv], of rid rid k] by simp
  show ?thesis
  proof (cases "?miss = []")
    case True
    then show ?thesis using body inv1 by auto
  next
    case False
    then have get: "po_get_new_blocks ops (int (length ?miss)) p = Inr (new, p')" and len: "length new = length ?miss"
      and m': "m' = set_req_blocks rid (fold (\<lambda>(i, b) xs. xs[nat i := b]) (zip ?miss new) ?bs) ?m1"
      using body by (auto simp: rbind_eq_Inr_iff rassert_eq_Inr_iff)
    have "0 < po_blocks_per_bundle ops p" "0 \<le> scratch_blocks m"
      using bundle_pos [OF mgr_invD(1) [OF inv]] mgr_invD(2) [OF inv] by (simp_all add: tables_ok_def)
    note req = required_ok [OF this req_def]
    have miss: "\<forall>i\<in>set ?miss. 0 \<le> i \<and> i < int (length ?bs) \<and> ?bs ! nat i = Blk 0"
    proof
      fix i assume "i \<in> set ?miss"
      then have i: "i \<in> set req" "req \<noteq> []" "?bs ! nat i = Blk 0" by auto
      have "last req + 1 \<le> int (length ?bs)" using i(2) by (simp add: k_def)
      then show "0 \<le> i \<and> i < int (length ?bs) \<and> ?bs ! nat i = Blk 0" using req(2) [OF i(1)] i(3) by linarith
    qed
    have dist: "distinct ?miss" using req(1) by (rule distinct_filter)
    note fill = fill_missing [OF dist miss len]
    have "mgr_inv inv refs ext m' p'"
      unfolding m' by (rule place_inv [OF inv1 _ get]) (use fill in simp_all)
    then show ?thesis by (simp add: m')
  qed
qed

lemma latent_allocate_new_blocks_inv:
  assumes inv: "mgr_inv inv refs ext m p" and ok: "latent_allocate_new_blocks ops rid n nm (m, p) = Inr (bs, m', p')"
  shows "mgr_inv inv refs ext m' p'"
  using ok base_allocate_new_blocks_inv [OF inv] compact_request_inv [OF inv]
  by (auto simp: latent_allocate_new_blocks_def split: if_splits)

lemma compact_computed_inv:
  assumes inv: "mgr_inv inv refs ext m p"
    and ok: "allocate_new_computed_blocks_compact_external ops rid bs l e (m, p) = Inr (m', p')"
  shows "mgr_inv inv refs ext m' p'"
proof (cases "dhas (num_cached_block m) rid")
  case True
  then show ?thesis using ok inv by (simp add: allocate_new_computed_blocks_compact_external_def rassert_eq_Inr_iff)
next
  case False
  let ?s = "round_up_to_bundle (po_blocks_per_bundle ops p) (scratch_blocks m)"
  have null: "mgr_null m = Blk 0" by (rule mgr_invD(5) [OF inv])
  obtain al k c where get: "po_get_new_blocks ops ?s p = Inr (al, p')" and none: "req_blocks m rid = []"
    and m': "m' = (set_req_blocks rid (al @ replicate k (Blk 0)) (default_req rid (mark_compact rid (l + e) m)))\<lparr>num_cached_block := c\<rparr>"
    using ok False unfolding allocate_new_computed_blocks_compact_external_def
    by (auto simp: rassert_eq_Inr_iff rbind_eq_Inr_iff Let_def null)
  have n: "0 \<le> ?s"
    using bundle_pos [OF mgr_invD(1) [OF inv]] mgr_invD(2) [OF inv] by (intro round_up_nonneg) (simp_all add: tables_ok_def)
  have inv1: "mgr_inv inv refs ext (mark_compact rid (l + e) m) p" by (rule mgr_inv_cong [OF inv]) auto
  have "mgr_inv inv refs ext (set_req_blocks rid (al @ replicate k (Blk 0)) (default_req rid (mark_compact rid (l + e) m))) p'"
    by (rule place_inv [OF default_inv [OF inv1] n get]) (simp_all add: none count_list_0_iff)
  then show ?thesis unfolding m' by (rule mgr_inv_cong) auto
qed

lemma remove_saved_inv:
  assumes inv: "mgr_inv inv refs ext m p" and ok: "remove_saved_decode_window_blocks ops rid e (m, p) = Inr (k, m', p')"
  shows "mgr_inv inv refs ext m' p'"
proof (cases "map_of (req_to_blocks m) rid")
  case None
  then show ?thesis using ok inv by (auto simp: remove_saved_decode_window_blocks_def split: if_splits)
next
  case (Some bs)
  define m1 where "m1 = (if dhas (compact_prefix_tokens m) rid
      then m\<lparr>compact_released_blocks := AList.update rid (max (dget (compact_released_blocks m) rid 0) (min (e div mgr_block_size m) (int (length bs))))
              (compact_released_blocks m)\<rparr> else m)"
  let ?stop = "min (e div mgr_block_size m) (int (length bs))"
  obtain removed bs' where loop: "release_loop_from (mgr_null m) (nat (scratch_blocks m)) bs (nat ?stop - nat (scratch_blocks m)) = (removed, bs')"
    by fastforce
  have bs: "req_blocks m rid = bs" using Some by (simp add: req_blocks_def dget_def)
  have inv1: "mgr_inv inv refs ext m1 p" by (rule mgr_inv_cong [OF inv]) (auto simp: m1_def)
  have "(m', p') = (m, p) \<or> (m', p') = (m1, p) \<or>
      scratch_blocks m < ?stop \<and> (\<exists>p1. po_free_blocks ops removed p = Inr p1 \<and> (m', p') = (set_req_blocks rid bs' m1, p1))"
    using ok Some unfolding remove_saved_decode_window_blocks_def
    by (auto simp: Let_def loop m1_def rbind_eq_Inr_iff split: if_splits)
  moreover have "mgr_inv inv refs ext (set_req_blocks rid bs' m1) p1"
    if "scratch_blocks m < ?stop" "po_free_blocks ops removed p = Inr p1" for p1
  proof -
    have "nat (scratch_blocks m) + (nat ?stop - nat (scratch_blocks m)) \<le> length bs"
      using that(1) mgr_invD(2) [OF inv] by (auto simp: tables_ok_def)
    then have "taken bs removed bs'" using release_loop_taken loop mgr_invD(5) [OF inv] by metis
    then have "taken (req_blocks m1 rid) removed bs'" using bs by (simp add: m1_def)
    then show ?thesis using take_back [OF inv1] that(2) by fastforce
  qed
  ultimately show ?thesis using inv inv1 by auto
qed

lemma mamba_remove_skipped_inv:
  assumes inv: "mgr_inv inv refs ext m p" and ok: "mamba_remove_skipped_blocks ops rid n (m, p) = Inr (m', p')"
  shows "mgr_inv inv refs ext m' p'"
proof -
  let ?n = "max 0 (n - mamba_spec_blocks m)"
  obtain m1 p1 where base: "base_remove_skipped_blocks ops rid ?n (m, p) = Inr (m1, p1)" "mgr_inv inv refs ext m1 p1"
    using base_remove_skipped_inv [OF inv] by blast
  let ?bs = "req_blocks m1 rid"
  have null: "mgr_null m1 = Blk 0" by (rule mgr_invD(5) [OF base(2)])
  have "m' = m1 \<and> p' = p1 \<or> m' = default_req rid m1 \<and> p' = p1 \<or>
      (\<exists>i b bs'. py_index ?bs i = Inr b \<and> b \<noteq> Blk 0 \<and> py_set ?bs i (Blk 0) = Inr bs' \<and> po_free_blocks ops [b] p1 = Inr p' \<and>
        m' = set_req_blocks rid bs' (default_req rid m1))"
    using ok base(1) by (auto simp: mamba_remove_skipped_blocks_def Let_def null rbind_eq_Inr_iff split: if_splits option.splits)
  moreover have "mgr_inv inv refs ext (set_req_blocks rid bs' (default_req rid m1)) p'"
    if i: "py_index ?bs i = Inr b" "py_set ?bs i (Blk 0) = Inr bs'" and b: "b \<noteq> Blk 0" "po_free_blocks ops [b] p1 = Inr p'" for i b bs'
  proof -
    obtain j where "j < length ?bs" "b = ?bs ! j" "bs' = ?bs[j := Blk 0]"
      using py_index_set [OF i] by blast
    then have "taken ?bs [b] bs'" using taken_step [of j ?bs "[]" bs'] b(1) by (simp add: taken_none)
    then show ?thesis using take_back [OF default_inv [OF base(2), of rid], of rid "[b]" bs'] b(2) by auto
  qed
  ultimately show ?thesis using base(2) default_inv by blast
qed

lemma mark_allocated:
  assumes inv: "mgr_inv inv refs ext m p" and "mgr_class m = MambaManager" "mamba_mode m = ''align''"
    and "mamba_spec_blocks m \<le> int (length (req_blocks m rid))"
  shows "mgr_inv inv refs ext (m\<lparr>allocated_block_reqs := set_add rid (allocated_block_reqs m)\<rparr>) p"
proof -
  let ?m = "m\<lparr>allocated_block_reqs := set_add rid (allocated_block_reqs m)\<rparr>"
  have core: "mgr_core ?m = mgr_core m" by simp
  have "tables_ok ?m"
    using mgr_invD(2) [OF inv] assms(2-4) unfolding tables_ok_def mgr_coreD [OF core] by simp
  then show ?thesis using inv by (simp add: mgr_inv_def held_def)
qed

lemma mamba_allocate_new_blocks_inv:
  assumes inv: "mgr_inv inv refs ext m p" and cl: "mgr_class m = MambaManager" and nm: "0 \<le> nm"
    and ok: "mamba_allocate_new_blocks ops rid n nm (m, p) = Inr (bs, m', p')"
  shows "mgr_inv inv refs ext m' p'"
proof (cases "mamba_mode m = ''align'' \<and> cdiv nm (mgr_block_size m) + mamba_spec_blocks m \<noteq> int (length (req_blocks m rid))")
  case False
  then show ?thesis using ok base_allocate_new_blocks_inv [OF inv] default_inv [OF inv, of rid]
    by (auto simp: mamba_allocate_new_blocks_def Let_def split: if_splits)
next
  case True
  define ns rb where "ns = mamba_spec_blocks m" and "rb = req_blocks m rid"
  define req where "req = cdiv nm (mgr_block_size m) + ns"
  define rb1 where "rb1 = rb @ replicate (nat (req - ns - 1 - int (length rb))) (Blk 0)"
  have null: "mgr_null m = Blk 0" by (rule mgr_invD(5) [OF inv])
  have al: "rid \<in> set (allocated_block_reqs m) \<Longrightarrow> ns \<le> int (length rb)" and ns: "0 \<le> ns"
    using mgr_invD(2) [OF inv] by (auto simp: tables_ok_def ns_def rb_def)
  have neq: "req \<noteq> int (length rb)" using True by (simp add: req_def ns_def rb_def)
  obtain li where body: "rassert (int (length rb) < req)
      (rbind (if rid \<in> set (allocated_block_reqs m)
              then reuse_loop (Blk 0) (req - ns - 1) [int (length rb) - ns..int (length rb) - 1] rb1 else Inr rb1) (\<lambda>rb2.
       rassert (if rid \<in> set (allocated_block_reqs m) then req - int (length rb2) \<le> 1 else req - int (length rb2) \<le> ns + 1)
        (rbind (po_get_new_blocks ops (req - int (length rb2)) p) (\<lambda>(new, p1).
          Inr (drop (length rb) (rb2 @ new),
               (set_req_blocks rid (rb2 @ new) ((default_req rid m)\<lparr>last_state_block_idx := li\<rparr>))
                 \<lparr>allocated_block_reqs := set_add rid (allocated_block_reqs m)\<rparr>, p1))))) = Inr (bs, m', p')"
  proof -
    let ?li = "if rid \<in> set (allocated_block_reqs m) then AList.update rid (int (length rb) - 1 - ns) (last_state_block_idx m)
      else if 0 < int (length rb) then AList.update rid (int (length rb) - 1) (last_state_block_idx m) else last_state_block_idx m"
    have upd: "(if rid \<in> set (allocated_block_reqs m) then (default_req rid m)\<lparr>last_state_block_idx := AList.update rid (int (length rb) - 1 - ns) (last_state_block_idx m)\<rparr>
      else if 0 < int (length rb) then (default_req rid m)\<lparr>last_state_block_idx := AList.update rid (int (length rb) - 1) (last_state_block_idx m)\<rparr>
      else default_req rid m) = (default_req rid m)\<lparr>last_state_block_idx := ?li\<rparr>"
      by (simp add: default_req_def)
    have mode: "(mamba_mode m \<noteq> ''align'') = False" using True by simp
    show thesis
      by (rule that [of ?li])
        (use ok neq in \<open>simp only: mamba_allocate_new_blocks_def Let_def prod.case mode if_False ns_def [symmetric] rb_def [symmetric]
           req_def [symmetric] null rb1_def [symmetric] upd\<close>)
  qed
  obtain rb2 new where gt: "int (length rb) < req"
    and rb2: "(if rid \<in> set (allocated_block_reqs m) then reuse_loop (Blk 0) (req - ns - 1) [int (length rb) - ns..int (length rb) - 1] rb1
            else Inr rb1) = Inr rb2"
    and get: "po_get_new_blocks ops (req - int (length rb2)) p = Inr (new, p')"
    and m': "m' = (set_req_blocks rid (rb2 @ new) ((default_req rid m)\<lparr>last_state_block_idx := li\<rparr>))
                  \<lparr>allocated_block_reqs := set_add rid (allocated_block_reqs m)\<rparr>"
    using body unfolding rassert_eq_Inr_iff rbind_eq_Inr_iff by auto
  let ?m0 = "(default_req rid m)\<lparr>last_state_block_idx := li\<rparr>"
  have inv0: "mgr_inv inv refs ext ?m0 p" by (rule mgr_inv_cong [OF default_inv [OF inv, of rid]]) auto
  have rb1: "count_list rb1 b = count_list rb b" if "b \<noteq> Blk 0" for b using that by (simp add: rb1_def count_list_0_iff)
  have len1: "int (length rb1) = max (int (length rb)) (req - ns - 1)" by (simp add: rb1_def)
  have two: "int (length rb2) < req \<and> length rb \<le> length rb2 \<and> (\<forall>b. b \<noteq> Blk 0 \<longrightarrow> count_list rb2 b = count_list rb b)"
  proof (cases "rid \<in> set (allocated_block_reqs m)")
    case True
    then have "int (length rb2) = int (length rb1) + max 0 (min (int (length rb)) (req - ns - 1) - (int (length rb) - ns)) \<and>
        (\<forall>b. b \<noteq> Blk 0 \<longrightarrow> count_list rb2 b = count_list rb1 b)"
      using rb2 al len1 by (intro reuse_loop_spec) auto
    then show ?thesis using len1 gt ns al True rb1 by auto
  next
    case False
    then show ?thesis using rb2 len1 gt ns rb1 by auto
  qed
  have inv1: "mgr_inv inv refs ext (set_req_blocks rid (rb2 @ new) ?m0) p'"
    by (rule place_inv [OF inv0 _ get]) (use two in \<open>auto simp: rb_def\<close>)
  have "ns \<le> req" using nm mgr_invD(6) [OF inv] by (simp add: req_def ns_def cdiv_nonneg)
  moreover have "req - int (length rb2) \<le> int (length new)" by (rule get_inv(2) [OF inv0 _ get]) (use two in simp)
  ultimately have "ns \<le> int (length (rb2 @ new))" by simp
  then show ?thesis unfolding m' using mark_allocated [OF inv1, of rid] cl True mgr_coreD [of "set_req_blocks rid (rb2 @ new) ?m0" m]
    by (simp add: ns_def)
qed

lemma mamba_cache_blocks_inv:
  assumes inv: "mgr_inv inv refs ext m p" and ok: "mamba_cache_blocks ops r n (m, p) = Inr (m', p')"
  shows "mgr_inv inv refs ext m' p'"
proof -
  obtain m1 p1 where base: "base_cache_blocks ops r n (m, p) = Inr (m1, p1)" and "p' = p1"
    and m': "m' = m1 \<or> (\<exists>hs. m' = (default_req (request_id r) m1)\<lparr>cached_blocks_this_step := hs\<rparr>)"
    using ok by (auto simp: mamba_cache_blocks_def Let_def rbind_eq_Inr_iff split: if_splits)
  have inv1: "mgr_inv inv refs ext m1 p1" using base_cache_blocks_inv [OF inv base] by blast
  show ?thesis using m' \<open>p' = p1\<close> inv1 mgr_inv_cong [OF default_inv [OF inv1, of "request_id r"]] by auto
qed

lemma unmark_allocated:
  assumes inv: "mgr_inv inv refs ext m p"
  shows "mgr_inv inv refs ext (m\<lparr>allocated_block_reqs := removeAll rid (allocated_block_reqs m), last_state_block_idx := li\<rparr>) p"
proof -
  let ?m = "m\<lparr>allocated_block_reqs := removeAll rid (allocated_block_reqs m), last_state_block_idx := li\<rparr>"
  have core: "mgr_core ?m = mgr_core m" by (simp add: mgr_core_def)
  have rb: "req_blocks ?m = req_blocks m" by (simp add: req_blocks_def fun_eq_iff)
  have "tables_ok ?m"
    using mgr_invD(2) [OF inv] unfolding tables_ok_def mgr_coreD [OF core] rb by auto
  then show ?thesis using inv by (simp add: mgr_inv_def held_def)
qed

text \<open>\<^verbatim>\<open>free\<close> of every manager class succeeds, and leaves the request without blocks and the others alone.\<close>

lemma free_spec:
  assumes inv: "mgr_inv inv refs ext m p"
  shows "\<exists>m' p'. free ops rid (m, p) = Inr (m', p') \<and> mgr_inv inv refs ext m' p' \<and> mgr_core m' = mgr_core m \<and>
    req_to_blocks m' = AList.delete rid (req_to_blocks m)"
proof -
  have core: "\<exists>m' p'. base_free ops rid (n, p) = Inr (m', p') \<and> mgr_inv inv refs ext m' p' \<and> mgr_core m' = mgr_core m \<and>
      req_to_blocks m' = AList.delete rid (req_to_blocks m)"
    if "mgr_inv inv refs ext n p" "rid \<notin> set (allocated_block_reqs n)" "mgr_core n = mgr_core m" "req_to_blocks n = req_to_blocks m" for n
    using base_free_spec [OF that(1,2)] that(3,4) by auto
  have idle: "rid \<notin> set (allocated_block_reqs m)" if "\<not> (mgr_class m = MambaManager \<and> mamba_mode m = ''align'')"
    using mgr_invD(2) [OF inv] that by (auto simp: tables_ok_def)
  show ?thesis
  proof (cases "mgr_class m")
    case DSALatentManager
    let ?n = "m\<lparr>compact_prefix_tokens := AList.delete rid (compact_prefix_tokens m), compact_released_blocks := AList.delete rid (compact_released_blocks m)\<rparr>"
    have "mgr_inv inv refs ext ?n p" by (rule mgr_inv_cong [OF inv]) (auto simp: mgr_core_def)
    then show ?thesis using core [of ?n] idle DSALatentManager by (simp add: free_def latent_free_def mgr_core_def)
  next
    case MambaManager
    show ?thesis
    proof (cases "mamba_mode m = ''align''")
      case True
      then show ?thesis using core [OF unmark_allocated [OF inv]] MambaManager
        by (simp add: free_def mamba_free_def mgr_core_def)
    next
      case False
      then show ?thesis using core [OF inv] idle MambaManager by (simp add: free_def mamba_free_def)
    qed
  qed (use core [OF inv] idle in \<open>simp_all add: free_def\<close>)
qed

end

section \<open>Histories of a manager\<close>

text \<open>The calls a scheduler makes on a manager. Computed blocks come from the cache search: they are
  blocks of the pool, no block twice, and cover no more than the computed tokens. The compact calls
  exist on the latent manager only.\<close>

inductive mgr_step :: "'p pool_ops \<Rightarrow> ('p \<Rightarrow> blk \<Rightarrow> bool) \<Rightarrow> manager \<times> 'p \<Rightarrow> manager \<times> 'p \<Rightarrow> bool"
  for ops :: "'p pool_ops" and valid :: "'p \<Rightarrow> blk \<Rightarrow> bool" where
  Computed: "\<forall>b\<in>set bs. valid p b \<Longrightarrow> distinct (real_blocks bs) \<Longrightarrow> 0 \<le> l + e \<Longrightarrow>
    int (length bs) * mgr_block_size m \<le> l + e \<Longrightarrow>
    allocate_new_computed_blocks ops rid bs l e (m, p) = Inr s' \<Longrightarrow> mgr_step ops valid (m, p) s'"
| New: "0 \<le> nm \<Longrightarrow> allocate_new_blocks ops rid n nm (m, p) = Inr (bs, s') \<Longrightarrow> mgr_step ops valid (m, p) s'"
| Compact_Computed: "mgr_class m = DSALatentManager \<Longrightarrow>
    allocate_new_computed_blocks_compact_external ops rid bs l e (m, p) = Inr s' \<Longrightarrow> mgr_step ops valid (m, p) s'"
| Compact_New: "mgr_class m = DSALatentManager \<Longrightarrow>
    allocate_new_blocks_compact_external ops rid n nm (m, p) = Inr (bs, s') \<Longrightarrow> mgr_step ops valid (m, p) s'"
| Release: "mgr_class m = DSALatentManager \<Longrightarrow>
    remove_saved_decode_window_blocks ops rid e (m, p) = Inr (k, s') \<Longrightarrow> mgr_step ops valid (m, p) s'"
| Compact_Count: "mgr_class m = DSALatentManager \<Longrightarrow>
    get_num_blocks_to_allocate_compact_external ops m p rid n bs t nm = (k, m') \<Longrightarrow> mgr_step ops valid (m, p) (m', p)"
| Count: "get_num_blocks_to_allocate ops m p rid n bs t nm = Inr (k, m') \<Longrightarrow> mgr_step ops valid (m, p) (m', p)"
| Cache: "cache_blocks ops r n (m, p) = Inr s' \<Longrightarrow> mgr_step ops valid (m, p) s'"
| Skip: "remove_skipped_blocks ops rid t (m, p) = Inr s' \<Longrightarrow> mgr_step ops valid (m, p) s'"
| Free: "free ops rid (m, p) = Inr s' \<Longrightarrow> mgr_step ops valid (m, p) s'"
| Prefix: "get_num_common_prefix_blocks ops p rid m = (k, m') \<Longrightarrow> mgr_step ops valid (m, p) (m', p)"
| Take_Ids: "take_new_block_ids m = (ids, m') \<Longrightarrow> mgr_step ops valid (m, p) (m', p)"
| Step_Start: "mgr_step ops valid (m, p) (new_step_starts m, p)"

context kv_pool
begin

lemma mgr_step_inv:
  assumes "mgr_step ops valid s s'" and "mgr_inv inv refs ext (fst s) (snd s)"
  shows "mgr_inv inv refs ext (fst s') (snd s')"
  using assms
proof cases
  case (Computed bs p l e m rid)
  have inv: "mgr_inv inv refs ext m p" using assms(2) Computed(1) by simp
  show ?thesis
  proof (cases "mgr_class m = CrossAttentionManager")
    case True
    then show ?thesis using Computed inv
      by (auto simp: allocate_new_computed_blocks_def cross_allocate_new_computed_blocks_def rassert_eq_Inr_iff)
  next
    case False
    then have "base_allocate_new_computed_blocks ops rid bs l e (m, p) = Inr (fst s', snd s')"
      using Computed by (simp add: allocate_new_computed_blocks_def split: manager_class.splits)
    then show ?thesis using base_allocate_new_computed_inv [OF inv] Computed by blast
  qed
next
  case (New nm rid n m p bs)
  have inv: "mgr_inv inv refs ext m p" using assms(2) New(1) by simp
  have eq: "Inr (bs, s') = Inr (bs, fst s', snd s')" by simp
  show ?thesis
    using New(3) base_allocate_new_blocks_inv [OF inv] latent_allocate_new_blocks_inv [OF inv] mamba_allocate_new_blocks_inv [OF inv _ New(2)]
    unfolding allocate_new_blocks_def eq by (cases "mgr_class m") fastforce+
next
  case (Compact_Computed m rid bs l e p)
  then show ?thesis using compact_computed_inv [of ext m p rid bs l e "fst s'" "snd s'"] assms(2) by simp
next
  case (Compact_New m rid n nm p bs)
  then show ?thesis using compact_request_inv [of ext m p rid n nm True bs "fst s'" "snd s'"] assms(2)
    by (simp add: allocate_new_blocks_compact_external_def)
next
  case (Release m rid e p k)
  then show ?thesis using remove_saved_inv [of ext m p rid e k "fst s'" "snd s'"] assms(2) by simp
next
  case (Compact_Count m p rid n bs t nm k m')
  then show ?thesis using mgr_inv_cong [of inv refs ext m p m'] assms(2)
    by (auto simp: get_num_blocks_to_allocate_compact_external_def Let_def)
next
  case (Count m p rid n bs t nm k m')
  have inv: "mgr_inv inv refs ext m p" using assms(2) Count(1) by simp
  have "m' = m \<or> m' = default_req rid m"
    using Count(3) by (auto simp: get_num_blocks_to_allocate_def mamba_get_num_blocks_to_allocate_def Let_def rbind_eq_Inr_iff
        split: manager_class.splits if_splits)
  then show ?thesis using inv default_inv [OF inv, of rid] Count(2) by auto
next
  case (Cache r n m p)
  have inv: "mgr_inv inv refs ext m p" using assms(2) Cache(1) by simp
  have eq: "Inr s' = Inr (fst s', snd s')" by simp
  show ?thesis using Cache(2) base_cache_blocks_inv [OF inv] mamba_cache_blocks_inv [OF inv]
    unfolding cache_blocks_def cross_cache_blocks_def eq by (cases "mgr_class m") fastforce+
next
  case (Skip rid t m p)
  have inv: "mgr_inv inv refs ext m p" using assms(2) Skip(1) by simp
  have base: "mgr_inv inv refs ext m' p'" if "base_remove_skipped_blocks ops rid t (m, p) = Inr (m', p')" for m' p'
    using base_remove_skipped_inv [OF inv, of rid t] that by auto
  have eq: "Inr s' = Inr (fst s', snd s')" by simp
  show ?thesis using Skip(2) base mamba_remove_skipped_inv [OF inv] inv
    unfolding remove_skipped_blocks_def latent_remove_skipped_blocks_def eq by (cases "mgr_class m") fastforce+
next
  case (Free rid m p)
  then show ?thesis using free_spec [of ext m p rid] assms(2) by auto
next
  case (Prefix p rid m k m')
  have inv: "mgr_inv inv refs ext m p" using assms(2) Prefix(1) by simp
  have "m' = m \<or> m' = default_req rid m"
    using Prefix(3) by (auto simp: get_num_common_prefix_blocks_def full_get_num_common_prefix_blocks_def Let_def split: if_splits)
  then show ?thesis using inv default_inv [OF inv, of rid] Prefix(2) by auto
next
  case (Take_Ids m ids m' p)
  then show ?thesis using mgr_inv_cong [of inv refs ext m p m'] assms(2) by (auto simp: take_new_block_ids_def)
next
  case (Step_Start m p)
  then show ?thesis using mgr_inv_cong [of inv refs ext m p "new_step_starts m"] assms(2) by (auto simp: new_step_starts_def)
qed

lemma mgr_steps_inv:
  assumes "(mgr_step ops valid)\<^sup>*\<^sup>* s s'" and "mgr_inv inv refs ext (fst s) (snd s)"
  shows "mgr_inv inv refs ext (fst s') (snd s')"
  using assms(1)
proof (induction rule: rtranclp_induct)
  case base
  show ?case by (rule assms(2))
next
  case (step s1 s2)
  then show ?case using mgr_step_inv by blast
qed

end

end
