(* ===== verification/Manager_Properties.thy ===== *)
theory Manager_Properties
  imports Manager_Invariants Cache_Hits
begin

text \<open>
  The properties of the cache managers: reference counts over whole histories, on the block pool
  and on the shared logical pools; the admission test covers the allocation it admits; and what
  the two sliding releases give back.
\<close>

section \<open>Construction\<close>

definition manager_config_ok :: "kv_cache_spec \<Rightarrow> int \<Rightarrow> int \<Rightarrow> bool" where
  "manager_config_ok spec dcp pcp \<longleftrightarrow> 0 < block_size spec \<and> 0 < dcp \<and> 0 < pcp \<and> spec_ok spec \<and>
     (case spec of SinkFullAttentionSpec _ _ _ \<Rightarrow> False | MambaSpec s \<Rightarrow> 0 \<le> num_speculative_blocks s | _ \<Rightarrow> True)"

lemma new_manager_ok:
  assumes "get_manager_for_kv_cache_spec ops env spec caching gid dcp pcp p = Inr (m, p')" and "manager_config_ok spec dcp pcp"
    and "po_null_block ops p = Blk 0"
  shows "p' = p \<and> tables_ok m \<and> req_to_blocks m = []"
proof -
  have sink: "\<And>a f l. spec \<noteq> SinkFullAttentionSpec a f l" using assms(2) by (auto simp: manager_config_ok_def)
  have plain: "(case spec of SinkFullAttentionSpec _ _ l \<Rightarrow> f l | _ \<Rightarrow> y) = y" for f and y :: "(manager \<times> 'a) res"
    using sink by (cases spec) auto
  obtain cl where m: "m = SingleTypeKVCacheManager cl spec (Blk 0) caching gid dcp pcp" and p': "p' = p"
    using assms(1,3) unfolding get_manager_for_kv_cache_spec_def Let_def plain by (auto simp: rbind_eq_Inr_iff split: if_splits)
  have "0 \<le> mamba_spec_blocks m" and size: "0 < mgr_block_size m"
    using assms(2) unfolding m SingleTypeKVCacheManager_def mamba_spec_blocks_def manager_config_ok_def
    by (cases spec; simp; fail) (use assms(2) in \<open>simp add: manager_config_ok_def\<close>)
  then show ?thesis using assms(2) p'
    by (simp add: m SingleTypeKVCacheManager_def tables_ok_def req_blocks_def dget_def manager_config_ok_def mamba_spec_blocks_def)
qed

section \<open>Admission\<close>

context caching_pool
begin

lemma evictable_bound:
  assumes "inv p" and "\<And>b. b \<in> set bs \<Longrightarrow> valid p b"
  shows "int (card {b \<in> set bs. b \<noteq> Blk 0 \<and> refs p b = 0}) \<le> get_num_evictable_blocks ops p bs"
proof -
  let ?E = "filter (\<lambda>b. ref_cnt (po_block ops p b) = 0 \<and> \<not> is_null (po_block ops p b)) bs"
  have "{b \<in> set bs. b \<noteq> Blk 0 \<and> refs p b = 0} \<subseteq> set ?E"
    using assms block_refs block_null by auto
  then have "card {b \<in> set bs. b \<noteq> Blk 0 \<and> refs p b = 0} \<le> length ?E"
    by (meson card_length card_mono List.finite_set order_trans)
  then show ?thesis by (simp add: get_num_evictable_blocks_def)
qed

lemma get_exactly:
  assumes "inv p" and "0 \<le> n" and "n \<le> po_get_num_free_blocks ops p"
  obtains bs p' where "po_get_new_blocks ops n p = Inr (bs, p')" and "int (length bs) = n"
    and "inv p'" and "po_get_num_free_blocks ops p' = po_get_num_free_blocks ops p - n"
proof -
  obtain bs p' where g: "po_get_new_blocks ops n p = Inr (bs, p')" "inv p'"
    "po_get_num_free_blocks ops p' = po_get_num_free_blocks ops p - int (length bs)"
    using get_ok [OF assms] by blast
  moreover have "int (length bs) = n" by (rule get_exact [OF assms(1,2) g(1)])
  ultimately show ?thesis using that by simp
qed

lemma allocate_new_succeeds:
  assumes inv: "mgr_inv inv refs ext m p" and enough: "cdiv n (mgr_block_size m) - int (length (req_blocks m rid)) \<le> po_get_num_free_blocks ops p"
  shows "\<exists>new m' p'. base_allocate_new_blocks ops rid n (m, p) = Inr (new, m', p') \<and>
    req_blocks m' rid = req_blocks m rid @ new \<and> int (length new) = max 0 (cdiv n (mgr_block_size m) - int (length (req_blocks m rid))) \<and>
    po_get_num_free_blocks ops p' = po_get_num_free_blocks ops p - int (length new)"
proof (cases "cdiv n (mgr_block_size m) - int (length (req_blocks m rid)) \<le> 0")
  case True
  then show ?thesis by (simp add: base_allocate_new_blocks_def)
next
  case False
  then have pos: "0 \<le> cdiv n (mgr_block_size m) - int (length (req_blocks m rid))" by simp
  obtain bs p' where "po_get_new_blocks ops (cdiv n (mgr_block_size m) - int (length (req_blocks m rid))) p = Inr (bs, p')"
    "int (length bs) = cdiv n (mgr_block_size m) - int (length (req_blocks m rid))" "inv p'"
    "po_get_num_free_blocks ops p' = po_get_num_free_blocks ops p - (cdiv n (mgr_block_size m) - int (length (req_blocks m rid)))"
    by (rule get_exactly [OF mgr_invD(1) [OF inv] pos enough])
  then show ?thesis using False by (simp add: base_allocate_new_blocks_def Let_def)
qed

lemma computed_succeeds:
  assumes inv: "mgr_inv inv refs ext m p" and fresh: "req_blocks m rid = []" "\<not> dhas (num_cached_block m) rid"
    and valid: "\<And>b. b \<in> set bs \<Longrightarrow> valid p b" and caching: "mgr_enable_caching m \<or> bs = []"
    and tok: "0 \<le> l + e" "int (length bs) * mgr_block_size m \<le> l + e" "l + e \<le> n"
    and need: "base_get_num_blocks_to_allocate ops m p rid n bs (l + e) = Inr k" and enough: "k \<le> po_get_num_free_blocks ops p"
  shows "\<exists>m' p'. base_allocate_new_computed_blocks ops rid bs l e (m, p) = Inr (m', p') \<and> mgr_core m' = mgr_core m \<and>
    max 0 (cdiv n (mgr_block_size m) - int (length (req_blocks m' rid))) \<le> k - (po_get_num_free_blocks ops p - po_get_num_free_blocks ops p') \<and>
    int (length (req_blocks m' rid)) \<le> cdiv n (mgr_block_size m)"
proof -
  let ?B = "mgr_block_size m" and ?f = "po_get_num_free_blocks ops"
  let ?k = "get_num_skipped_tokens m (l + e) div ?B"
  let ?c = "if 0 < ?k then py_from bs ?k else bs"
  let ?rb = "replicate (nat ?k) (mgr_null m) @ ?c"
  let ?ex = "if 0 < ?k then min (l + e - get_num_skipped_tokens m (l + e)) e else e"
  let ?m1 = "(set_req_blocks rid ?rb (default_req rid m))\<lparr>num_cached_block := AList.update rid (int (length ?rb)) (num_cached_block m)\<rparr>"
  have pos: "0 < ?B" by (rule mgr_invD(6) [OF inv])
  have fits: "int (length ?rb) \<le> cdiv (l + e) ?B" by (rule table_fits [OF mgr_invD(2) [OF inv] tok(1,2)])
  have grow: "cdiv (l + e) ?B \<le> cdiv n ?B" by (rule cdiv_mono [OF pos tok(3)])
  have len: "int (length ?rb) = max ?k (int (length bs))" by (auto simp: py_from_nonneg)
  have sub: "set ?c \<subseteq> set bs" using set_drop_subset [of "nat ?k" bs] by (auto simp: py_from_nonneg)
  have c0: "py_from bs (max 0 ?k) = ?c" by (simp add: py_from_nonneg)
  have "k = max (cdiv n ?B - max ?k (int (length bs))) 0 + get_num_evictable_blocks ops p (py_from bs (max 0 ?k))"
    using need fresh by (simp add: base_get_num_blocks_to_allocate_def Let_def)
  then have k: "k = cdiv n ?B - int (length ?rb) + get_num_evictable_blocks ops p ?c"
    unfolding c0 len [symmetric] using fits grow by linarith
  have I: "inv p" by (rule mgr_invD(1) [OF inv])
  obtain p1 where p1: "(if mgr_enable_caching m then po_touch ops ?c p else rassert (?c = []) (Inr p)) = Inr p1" "inv p1"
    and free1: "?f p - get_num_evictable_blocks ops p ?c \<le> ?f p1"
  proof (cases "mgr_enable_caching m")
    case True
    obtain q where q: "po_touch ops ?c p = Inr q" "?f q = ?f p - int (card {b \<in> set ?c. b \<noteq> Blk 0 \<and> refs p b = 0})"
      using touch_ok [OF I, of ?c] valid sub by blast
    moreover have "inv q" using touch_inv [OF I _ q(1)] valid sub by blast
    moreover have "int (card {b \<in> set ?c. b \<noteq> Blk 0 \<and> refs p b = 0}) \<le> get_num_evictable_blocks ops p ?c"
      by (rule evictable_bound [OF I]) (use valid sub in blast)
    ultimately show ?thesis using that [of q] True by simp
  next
    case False
    then have "?c = []" using caching by (auto simp: py_from_nonneg)
    then show ?thesis using that [of p] False I by (simp add: get_num_evictable_blocks_def)
  qed
  have run: "base_allocate_new_computed_blocks ops rid bs l e (m, p) =
      (if 0 < ?ex then rbind (po_get_new_blocks ops (cdiv (l + e) ?B - int (length ?rb)) p1)
         (\<lambda>(allocated, p2). Inr (add_new_block_ids ops p2 allocated (set_req_blocks rid (?rb @ allocated) ?m1), p2))
       else Inr (?m1, p1))"
    using fresh p1(1) unfolding base_allocate_new_computed_blocks_def Let_def by simp
  show ?thesis
  proof (cases "0 < ?ex")
    case False
    then show ?thesis unfolding run using k free1 fits grow by simp
  next
    case True
    obtain al p2 where g: "po_get_new_blocks ops (cdiv (l + e) ?B - int (length ?rb)) p1 = Inr (al, p2)"
      "int (length al) = cdiv (l + e) ?B - int (length ?rb)" "?f p2 = ?f p1 - (cdiv (l + e) ?B - int (length ?rb))"
      by (rule get_exactly [OF p1(2), of "cdiv (l + e) ?B - int (length ?rb)"]) (use fits grow k enough free1 in auto)
    let ?m2 = "add_new_block_ids ops p2 al (set_req_blocks rid (?rb @ al) ?m1)"
    have "base_allocate_new_computed_blocks ops rid bs l e (m, p) = Inr (?m2, p2)" using run True g(1) by simp
    moreover have "int (length (req_blocks ?m2 rid)) = cdiv (l + e) ?B" using g(2) by simp
    moreover have "mgr_core ?m2 = mgr_core m" by simp
    ultimately show ?thesis using k free1 g(3) grow by (intro exI [of _ ?m2] exI [of _ p2]) simp
  qed
qed

lemma admission:
  assumes inv: "mgr_inv inv refs ext m p" and fresh: "req_blocks m rid = []" "\<not> dhas (num_cached_block m) rid"
    and valid: "\<And>b. b \<in> set bs \<Longrightarrow> valid p b" and dist: "distinct (real_blocks bs)" and caching: "mgr_enable_caching m \<or> bs = []"
    and tok: "0 \<le> l + e" "int (length bs) * mgr_block_size m \<le> l + e" "l + e \<le> n"
    and need: "base_get_num_blocks_to_allocate ops m p rid n bs (l + e) = Inr k" and enough: "k \<le> po_get_num_free_blocks ops p"
  shows "\<exists>m1 p1 new m2 p2. base_allocate_new_computed_blocks ops rid bs l e (m, p) = Inr (m1, p1) \<and>
    base_allocate_new_blocks ops rid n (m1, p1) = Inr (new, m2, p2) \<and> mgr_core m1 = mgr_core m \<and> mgr_inv inv refs ext m2 p2 \<and>
    int (length (req_blocks m2 rid)) = cdiv n (mgr_block_size m) \<and> po_get_num_free_blocks ops p - k \<le> po_get_num_free_blocks ops p2"
proof -
  obtain m1 p1 where c: "base_allocate_new_computed_blocks ops rid bs l e (m, p) = Inr (m1, p1)" "mgr_core m1 = mgr_core m"
    "max 0 (cdiv n (mgr_block_size m) - int (length (req_blocks m1 rid))) \<le> k - (po_get_num_free_blocks ops p - po_get_num_free_blocks ops p1)"
    "int (length (req_blocks m1 rid)) \<le> cdiv n (mgr_block_size m)"
    using computed_succeeds [OF inv fresh valid caching tok need enough] by blast
  have inv1: "mgr_inv inv refs ext m1 p1" by (rule base_allocate_new_computed_inv [OF inv valid dist tok(1,2) c(1)])
  have B: "mgr_block_size m1 = mgr_block_size m" by (rule mgr_coreD [OF c(2)])
  obtain new m2 p2 where a: "base_allocate_new_blocks ops rid n (m1, p1) = Inr (new, m2, p2)" "req_blocks m2 rid = req_blocks m1 rid @ new"
    "int (length new) = max 0 (cdiv n (mgr_block_size m1) - int (length (req_blocks m1 rid)))"
    "po_get_num_free_blocks ops p2 = po_get_num_free_blocks ops p1 - int (length new)"
    using allocate_new_succeeds [OF inv1, of n rid] c(3) enough unfolding B by auto
  have "mgr_inv inv refs ext m2 p2" by (rule base_allocate_new_blocks_inv [OF inv1 a(1)])
  moreover have "int (length (req_blocks m2 rid)) = cdiv n (mgr_block_size m)" using a(2,3) c(4) by (simp add: B)
  ultimately show ?thesis using c a by (intro exI conjI) (assumption | (use c(3) a(3,4) in \<open>simp add: B\<close>))+
qed

end

section \<open>Releases\<close>

context kv_pool
begin

lemma counts_after_free:
  assumes inv: "mgr_inv inv refs ext m p"
  shows "\<exists>m' p'. free ops rid (m, p) = Inr (m', p') \<and> req_blocks m' rid = [] \<and> (\<forall>r. r \<noteq> rid \<longrightarrow> req_blocks m' r = req_blocks m r) \<and>
    (\<forall>b. b \<noteq> Blk 0 \<longrightarrow> refs p' b = refs p b - int (count_list (req_blocks m rid) b))"
proof -
  obtain m' p' where f: "free ops rid (m, p) = Inr (m', p')" "mgr_inv inv refs ext m' p'"
    "req_to_blocks m' = AList.delete rid (req_to_blocks m)" using free_spec [OF inv] by blast
  have keys: "distinct (map fst (req_to_blocks m))" using inv by (simp add: mgr_inv_def tables_ok_def)
  have "refs p' b = refs p b - int (count_list (req_blocks m rid) b)" if "b \<noteq> Blk 0" for b
    using mgr_invD(4) [OF inv that] mgr_invD(4) [OF f(2) that] hsum_delete [OF keys, of rid b] f(3) by (simp add: held_def req_blocks_def)
  moreover have "req_blocks m' = (req_blocks m)(rid := [])" using f(3) by (auto simp: req_blocks_def dget_delete fun_eq_iff)
  ultimately show ?thesis using f(1) by auto
qed

lemma skipped_released:
  assumes inv: "mgr_inv inv refs ext m p" and t: "0 < get_num_skipped_tokens m t"
    and k: "k = nat (min (get_num_skipped_tokens m t div mgr_block_size m) (int (length (req_blocks m rid))))"
    and j: "j \<le> k" "\<forall>i<j. req_blocks m rid ! i = Blk 0" "\<forall>i. j \<le> i \<and> i < k \<longrightarrow> req_blocks m rid ! i \<noteq> Blk 0"
  shows "\<exists>m' p'. base_remove_skipped_blocks ops rid t (m, p) = Inr (m', p') \<and> mgr_inv inv refs ext m' p' \<and>
    req_blocks m' = (req_blocks m)(rid := replicate k (Blk 0) @ drop k (req_blocks m rid)) \<and>
    (\<forall>b. refs p' b = refs p b - (if b \<in> set (take (k - j) (drop j (req_blocks m rid))) then 1 else 0))"
proof -
  let ?bs = "req_blocks m rid" and ?rem = "rev (take (k - j) (drop j (req_blocks m rid)))"
  have null: "mgr_null m = Blk 0" by (rule mgr_invD(5) [OF inv])
  have kl: "k \<le> length ?bs" by (simp add: k)
  have loop: "skip_loop (Blk 0) ?bs k = (?rem, replicate k (Blk 0) @ drop k ?bs)" by (rule skip_loop_eq [OF j(1) kl j(2,3)])
  let ?m' = "set_req_blocks rid (replicate k (Blk 0) @ drop k ?bs) (default_req rid m)"
  have tk: "taken (req_blocks (default_req rid m) rid) ?rem (replicate k (Blk 0) @ drop k ?bs)" using skip_loop_taken [OF kl loop] by simp
  obtain p' where p': "po_free_blocks ops ?rem p = Inr p'" "mgr_inv inv refs ext ?m' p'"
    using take_back [OF default_inv [OF inv] tk] by blast
  have run: "base_remove_skipped_blocks ops rid t (m, p) = Inr (?m', p')"
    using t loop p'(1) by (simp add: base_remove_skipped_blocks_def null k [symmetric])
  have "refs p' b = refs p b - (if b \<in> set ?rem then 1 else 0)" for b
  proof (cases "b = Blk 0")
    case True
    then show ?thesis using tk refs_null mgr_invD(1) [OF inv] mgr_invD(1) [OF p'(2)] by (simp add: taken_def)
  next
    case False
    have one: "count_list ?bs b \<le> 1" using mgr_invD(7) [OF inv, of rid] False by (simp add: distinct_real)
    have eq: "count_list (replicate k (Blk 0) @ drop k ?bs) b + count_list ?rem b = count_list ?bs b"
      using tk False by (auto simp: taken_def)
    have "int (held ?m' b) + int (count_list ?bs b) = int (held m b) + int (count_list (replicate k (Blk 0) @ drop k ?bs) b)"
      using hsum_update [of rid "replicate k (Blk 0) @ drop k ?bs" "req_to_blocks (default_req rid m)" b]
      by (simp add: held_def req_blocks_def dget_setdefault)
    then have "refs p' b = refs p b - int (count_list ?rem b)"
      using mgr_invD(4) [OF inv False] mgr_invD(4) [OF p'(2) False] eq by linarith
    moreover have "count_list ?rem b \<le> 1" using one eq by linarith
    then have "count_list ?rem b = (if b \<in> set ?rem then 1 else 0)"
      using count_list_0_iff [of ?rem b] by (cases "count_list ?rem b") auto
    ultimately show ?thesis by simp
  qed
  then show ?thesis using run p'(2) by (intro exI [of _ ?m'] exI [of _ p']) simp
qed

lemma saved_window_released:
  assumes inv: "mgr_inv inv refs ext m p" and bs: "map_of (req_to_blocks m) rid = Some bs"
    and e: "0 < e" "e mod mgr_block_size m = 0"
    and st: "st = nat (scratch_blocks m)" and en: "en = nat (min (e div mgr_block_size m) (int (length bs)))" and gt: "st < en"
  shows "\<exists>m' p'. remove_saved_decode_window_blocks ops rid e (m, p) = Inr (int (length (real_blocks (take (en - st) (drop st bs)))), m', p') \<and>
    mgr_inv inv refs ext m' p' \<and> req_blocks m' = (req_blocks m)(rid := take st bs @ replicate (en - st) (Blk 0) @ drop en bs)"
proof -
  let ?rem = "rev (real_blocks (take (en - st) (drop st bs)))" and ?bs' = "take st bs @ replicate (en - st) (Blk 0) @ drop en bs"
  let ?r = "AList.update rid (max (dget (compact_released_blocks m) rid 0) (int en)) (compact_released_blocks m)"
  let ?m1 = "if dhas (compact_prefix_tokens m) rid then m\<lparr>compact_released_blocks := ?r\<rparr> else m"
  have null: "mgr_null m = Blk 0" by (rule mgr_invD(5) [OF inv])
  have sc: "0 \<le> scratch_blocks m" using mgr_invD(2) [OF inv] by (simp add: tables_ok_def)
  have "0 \<le> e div mgr_block_size m" using e(1) mgr_invD(6) [OF inv] by (simp add: pos_imp_zdiv_nonneg_iff)
  then have enI: "min (e div mgr_block_size m) (int (length bs)) = int en" by (simp add: en)
  have enl: "st + (en - st) \<le> length bs" using gt enI by linarith
  have loop: "release_loop_from (Blk 0) st bs (en - st) = (?rem, ?bs')" using release_loop_eq [OF enl, of "Blk 0"] gt by simp
  have inv1: "mgr_inv inv refs ext ?m1 p" by (rule mgr_inv_cong [OF inv]) auto
  have rb: "req_blocks ?m1 rid = bs" using bs by (simp add: req_blocks_def dget_def)
  obtain p' where p': "po_free_blocks ops ?rem p = Inr p'" "mgr_inv inv refs ext (set_req_blocks rid ?bs' ?m1) p'"
    using take_back [OF inv1, of rid ?rem ?bs'] release_loop_taken [OF enl loop] unfolding rb by blast
  have "bs \<noteq> []" using gt enI by auto
  then have "remove_saved_decode_window_blocks ops rid e (m, p) = Inr (int (length ?rem), set_req_blocks rid ?bs' ?m1, p')"
    using bs e gt sc p'(1) loop by (simp add: remove_saved_decode_window_blocks_def Let_def enI null st cong: if_cong)
  moreover have "req_blocks (set_req_blocks rid ?bs' ?m1) = (req_blocks m)(rid := ?bs')" by simp
  ultimately show ?thesis using p'(2) by (metis length_rev)
qed

end

section \<open>Windows\<close>

text \<open>Which positions a token attends to, and the managers whose class and specification are a sliding
  window or a chunk of positive size.\<close>

definition attends :: "kv_cache_spec \<Rightarrow> int \<Rightarrow> int \<Rightarrow> bool" where
  "attends spec x y \<longleftrightarrow> 0 \<le> y \<and> y \<le> x \<and>
     (case spec of SlidingWindowSpec _ w \<Rightarrow> x - w < y | ChunkedLocalAttentionSpec _ c \<Rightarrow> y div c = x div c | _ \<Rightarrow> True)"

definition windowed :: "manager \<Rightarrow> bool" where
  "windowed m \<longleftrightarrow>
     (case (mgr_class m, mgr_spec m) of
        (SlidingWindowManager, SlidingWindowSpec _ w) \<Rightarrow> 0 < w
      | (ChunkedLocalAttentionManager, ChunkedLocalAttentionSpec _ c) \<Rightarrow> 0 < c
      | _ \<Rightarrow> False)"

definition null_prefix :: "blk list \<Rightarrow> bool" where
  "null_prefix bs \<longleftrightarrow> (\<forall>i j. i < j \<and> j < length bs \<and> bs ! j = Blk 0 \<longrightarrow> bs ! i = Blk 0)"

lemma windowedE:
  assumes "windowed m"
  obtains a w where "mgr_spec m = SlidingWindowSpec a w" "0 < w" "\<And>t. get_num_skipped_tokens m t = max 0 (t - w + 1)"
  | a c where "mgr_spec m = ChunkedLocalAttentionSpec a c" "0 < c" "\<And>t. get_num_skipped_tokens m t = t div c * c"
  using assms by (auto simp: windowed_def get_num_skipped_tokens_def sliding_get_num_skipped_tokens_def
      chunked_get_num_skipped_tokens_def split: manager_class.splits kv_cache_spec.splits)

text \<open>The first token not skipped is the first one visible from \<open>t\<close> on.\<close>

lemma skipped_visible:
  assumes "windowed m" and "0 \<le> t"
  shows "attends (mgr_spec m) t (get_num_skipped_tokens m t)"
    and "t \<le> x \<Longrightarrow> attends (mgr_spec m) x y \<Longrightarrow> get_num_skipped_tokens m t \<le> y"
proof -
  show "attends (mgr_spec m) t (get_num_skipped_tokens m t)"
    using assms(1)
  proof (cases rule: windowedE)
    case (1 a w)
    then show ?thesis using assms(2) by (simp add: attends_def)
  next
    case (2 a c)
    then have "0 \<le> t div c * c" "t div c * c \<le> t" using assms(2) int_le_div_iff [of c "t div c" t]
      by (simp_all add: pos_imp_zdiv_nonneg_iff)
    then show ?thesis using 2 by (simp add: attends_def)
  qed
  show "get_num_skipped_tokens m t \<le> y" if le: "t \<le> x" and at: "attends (mgr_spec m) x y"
    using assms(1)
  proof (cases rule: windowedE)
    case (1 a w)
    then show ?thesis using le at by (simp add: attends_def)
  next
    case (2 a c)
    then have "t div c \<le> y div c" using le at zdiv_mono1 [of t x c] by (simp add: attends_def)
    then show ?thesis using 2 int_le_div_iff [of c "t div c" y] by simp
  qed
qed

lemma skipped_window:
  fixes n :: nat
  assumes "windowed m" and "0 \<le> t" and pos: "0 < B"
  defines "k \<equiv> nat (min (get_num_skipped_tokens m t div B) (int n))"
  shows "0 \<le> get_num_skipped_tokens m t" and "k \<le> n"
    and "\<forall>x y. t \<le> x \<and> attends (mgr_spec m) x y \<longrightarrow> int k \<le> y div B"
    and "k < n \<longrightarrow> (\<exists>y. attends (mgr_spec m) t y \<and> y div B = int k)"
proof -
  note vis = skipped_visible [OF assms(1,2)]
  show nn: "0 \<le> get_num_skipped_tokens m t" using vis(1) by (simp add: attends_def)
  then have k: "int k = min (get_num_skipped_tokens m t div B) (int n)" using pos by (simp add: k_def pos_imp_zdiv_nonneg_iff)
  then show "k \<le> n" by simp
  show "\<forall>x y. t \<le> x \<and> attends (mgr_spec m) x y \<longrightarrow> int k \<le> y div B"
  proof (intro allI impI)
    fix x y assume "t \<le> x \<and> attends (mgr_spec m) x y"
    then have "get_num_skipped_tokens m t div B \<le> y div B" using vis(2) pos by (intro zdiv_mono1) auto
    then show "int k \<le> y div B" using k by simp
  qed
  show "k < n \<longrightarrow> (\<exists>y. attends (mgr_spec m) t y \<and> y div B = int k)" using vis(1) k by (auto simp: min_def split: if_splits)
qed

lemma null_prefix_split:
  assumes "null_prefix bs" and "k \<le> length bs"
  shows "\<exists>j\<le>k. (\<forall>i<j. bs ! i = Blk 0) \<and> (\<forall>i. j \<le> i \<and> i < k \<longrightarrow> bs ! i \<noteq> Blk 0) \<and>
    set (take (k - j) (drop j bs)) = set (take k bs) - {Blk 0}"
proof -
  let ?t = "takeWhile (\<lambda>b. b = Blk 0) (take k bs)"
  define j where "j = length ?t"
  have jk: "j \<le> k" using length_takeWhile_le [of "\<lambda>b. b = Blk 0" "take k bs"] assms(2) by (simp add: j_def)
  have low: "bs ! i = Blk 0" if "i < j" for i
    using takeWhile_nth [of i "\<lambda>b. b = Blk 0" "take k bs"] nth_mem [of i ?t] that jk by (auto simp: j_def dest: set_takeWhileD)
  have high: "bs ! i \<noteq> Blk 0" if "j \<le> i" "i < k" for i
  proof
    assume "bs ! i = Blk 0"
    then have "bs ! j = Blk 0" using assms(1) [unfolded null_prefix_def, rule_format, of j i] assms(2) that by (cases "j = i") auto
    moreover have "take k bs ! j \<noteq> Blk 0" unfolding j_def by (rule nth_length_takeWhile) (use that assms(2) in \<open>simp add: j_def\<close>)
    ultimately show False using that by simp
  qed
  have part: "take (k - j) (drop j bs) = dropWhile (\<lambda>b. b = Blk 0) (take k bs)"
    by (simp add: j_def dropWhile_eq_drop drop_take)
  have "Blk 0 \<notin> set (drop j (take k bs))" using high assms(2) by (auto simp: in_set_conv_nth)
  then have "Blk 0 \<notin> set (dropWhile (\<lambda>b. b = Blk 0) (take k bs))" by (simp add: j_def dropWhile_eq_drop)
  moreover have "set (take k bs) = set ?t \<union> set (dropWhile (\<lambda>b. b = Blk 0) (take k bs))"
    by (metis set_append takeWhile_dropWhile_id)
  ultimately have "set (take (k - j) (drop j bs)) = set (take k bs) - {Blk 0}"
    unfolding part by (auto dest: set_takeWhileD)
  then show ?thesis using jk low high by blast
qed

section \<open>Properties\<close>

text \<open>C8. Reference counting of a manager, of any class but the sink one, over every history of calls on a
  block pool: the count of a block is what it was before the manager existed plus the number of
  entries of request tables that name it, the pool invariant holds throughout, and freeing any
  request in any reachable state succeeds, empties its table, keeps the other tables and gives
  back exactly the references the table held. Nothing leaks and nothing is freed twice.\<close>

theorem manager_reference_counts:
  assumes "gpu_inv p0" and "manager_config_ok spec dcp pcp"
    and "get_manager_for_kv_cache_spec (gpu_ops digest) env spec caching gid dcp pcp p0 = Inr (m0, p1)"
    and "(mgr_step (gpu_ops digest) valid_blk)\<^sup>*\<^sup>* (m0, p1) (m, p)"
  shows "gpu_inv p \<and> (\<forall>b. b \<noteq> Blk 0 \<longrightarrow> gpu_refs p b = gpu_refs p0 b + int (held m b)) \<and>
    (\<forall>rid. \<exists>m' p'. free (gpu_ops digest) rid (m, p) = Inr (m', p') \<and> req_blocks m' rid = [] \<and>
       (\<forall>r. r \<noteq> rid \<longrightarrow> req_blocks m' r = req_blocks m r) \<and>
       (\<forall>b. b \<noteq> Blk 0 \<longrightarrow> gpu_refs p' b = gpu_refs p b - int (count_list (req_blocks m rid) b)))"
proof -
  have null: "po_null_block (gpu_ops digest) p0 = Blk 0" using assms(1) by (auto simp: gpu_inv_def pool_ok_def gpu_ops_def)
  note new = new_manager_ok [OF assms(3,2) null]
  then have "mgr_inv gpu_inv gpu_refs (gpu_refs p0) (fst (m0, p1)) (snd (m0, p1))"
    using assms(1) gpu_refs_nonneg by (simp add: mgr_inv_def held_def)
  then have inv: "mgr_inv gpu_inv gpu_refs (gpu_refs p0) m p" using gpu.mgr_steps_inv [OF assms(4)] by fastforce
  show ?thesis using mgr_invD(1,4) [OF inv] gpu.counts_after_free [OF inv, of digest] by blast
qed

text \<open>C9. The admission test of the attention managers is sufficient. When the number of blocks a new
  request needs, as \<^verbatim>\<open>get_num_blocks_to_allocate\<close> counts them, does not exceed the free blocks, then
  taking over the computed blocks and allocating the rest both succeed, the request ends with a
  table of exactly \<open>cdiv n B\<close> entries, no more than the counted blocks leave the free list, and the
  invariant holds again.\<close>

theorem admission_suffices:
  assumes "mgr_inv gpu_inv gpu_refs ext m p" and "mgr_class m \<in> {FullAttentionManager, SlidingWindowManager, ChunkedLocalAttentionManager}"
    and "req_blocks m rid = []" and "\<not> dhas (num_cached_block m) rid"
    and "\<And>b. b \<in> set bs \<Longrightarrow> valid_blk p b" and "distinct (real_blocks bs)" and "mgr_enable_caching m \<or> bs = []"
    and "0 \<le> l + e" and "int (length bs) * mgr_block_size m \<le> l + e" and "l + e \<le> n"
    and "get_num_blocks_to_allocate (gpu_ops digest) m p rid n bs (l + e) nm = Inr (k, m0)"
    and "k \<le> get_num_free_blocks p"
  shows "\<exists>m1 p1 new m2 p2. allocate_new_computed_blocks (gpu_ops digest) rid bs l e (m, p) = Inr (m1, p1) \<and>
    allocate_new_blocks (gpu_ops digest) rid n nm (m1, p1) = Inr (new, m2, p2) \<and> mgr_inv gpu_inv gpu_refs ext m2 p2 \<and>
    int (length (req_blocks m2 rid)) = cdiv n (mgr_block_size m) \<and> get_num_free_blocks p - k \<le> get_num_free_blocks p2"
proof -
  have need: "base_get_num_blocks_to_allocate (gpu_ops digest) m p rid n bs (l + e) = Inr k"
    using assms(2,11) by (auto simp: get_num_blocks_to_allocate_def rbind_eq_Inr_iff)
  have free: "po_get_num_free_blocks (gpu_ops digest) = get_num_free_blocks" by (simp add: gpu_ops_def)
  obtain m1 p1 new m2 p2 where r: "base_allocate_new_computed_blocks (gpu_ops digest) rid bs l e (m, p) = Inr (m1, p1)"
    "base_allocate_new_blocks (gpu_ops digest) rid n (m1, p1) = Inr (new, m2, p2)" "mgr_core m1 = mgr_core m" "mgr_inv gpu_inv gpu_refs ext m2 p2"
    "int (length (req_blocks m2 rid)) = cdiv n (mgr_block_size m)" "get_num_free_blocks p - k \<le> get_num_free_blocks p2"
    using gpu.admission [OF assms(1,3,4,5,6,7,8,9,10) need] assms(12) unfolding free by blast
  have "mgr_class m1 = mgr_class m" by (rule mgr_coreD [OF r(3)])
  then have "allocate_new_computed_blocks (gpu_ops digest) rid bs l e (m, p) = Inr (m1, p1)"
    "allocate_new_blocks (gpu_ops digest) rid n nm (m1, p1) = Inr (new, m2, p2)"
    using r(1,2) assms(2) by (auto simp: allocate_new_computed_blocks_def allocate_new_blocks_def)
  then show ?thesis using r(4-6) by blast
qed

text \<open>C18. The sliding release of the window and chunk managers, for a request with \<open>t\<close> computed tokens whose
  null entries form a prefix of its table. A token at position \<open>q\<close> is visible from position \<open>p\<close>
  when \<open>q\<close> is not after \<open>p\<close> and lies among the last \<open>w\<close> positions (sliding window \<open>w\<close>) or in the
  chunk of \<open>p\<close> (chunk size \<open>c\<close>). The release turns the first \<open>k\<close> entries into null blocks, exactly
  the blocks that stood there and were not null yet lose one reference, and all other tables and
  entries stay. No token visible from position \<open>t\<close> or a later one lies in a released entry, and
  \<open>k\<close> is as large as that allows: the first entry kept, if there is one, holds a token that is
  visible from \<open>t\<close>.\<close>

theorem skipped_blocks_are_released:
  assumes "mgr_inv gpu_inv gpu_refs ext m p" and "windowed m" and "0 \<le> t" and "null_prefix (req_blocks m rid)"
  shows "\<exists>k m' p'. remove_skipped_blocks (gpu_ops digest) rid t (m, p) = Inr (m', p') \<and> mgr_inv gpu_inv gpu_refs ext m' p' \<and>
    k \<le> length (req_blocks m rid) \<and>
    req_blocks m' = (req_blocks m)(rid := replicate k (Blk 0) @ drop k (req_blocks m rid)) \<and>
    (\<forall>b. gpu_refs p' b = gpu_refs p b - (if b \<in> set (take k (req_blocks m rid)) \<and> b \<noteq> Blk 0 then 1 else 0)) \<and>
    (\<forall>x y. t \<le> x \<and> attends (mgr_spec m) x y \<longrightarrow> int k \<le> y div mgr_block_size m) \<and>
    (k < length (req_blocks m rid) \<longrightarrow> (\<exists>y. attends (mgr_spec m) t y \<and> y div mgr_block_size m = int k))"
proof -
  let ?T = "req_blocks m rid" and ?B = "mgr_block_size m"
  define k where "k = nat (min (get_num_skipped_tokens m t div ?B) (int (length ?T)))"
  have pos: "0 < ?B" by (rule mgr_invD(6) [OF assms(1)])
  note win = skipped_window(2-4) [OF assms(2,3) pos, of "length ?T", folded k_def]
  obtain j where j: "j \<le> k" "\<forall>i<j. ?T ! i = Blk 0" "\<forall>i. j \<le> i \<and> i < k \<longrightarrow> ?T ! i \<noteq> Blk 0"
    "set (take (k - j) (drop j ?T)) = set (take k ?T) - {Blk 0}"
    using null_prefix_split [OF assms(4) win(1)] by blast
  have base: "remove_skipped_blocks (gpu_ops digest) rid t (m, p) = base_remove_skipped_blocks (gpu_ops digest) rid t (m, p)"
    using assms(2) by (auto simp: remove_skipped_blocks_def windowed_def split: manager_class.splits kv_cache_spec.splits)
  obtain m' p' where rel: "base_remove_skipped_blocks (gpu_ops digest) rid t (m, p) = Inr (m', p') \<and> mgr_inv gpu_inv gpu_refs ext m' p' \<and>
      req_blocks m' = (req_blocks m)(rid := replicate k (Blk 0) @ drop k ?T) \<and>
      (\<forall>b. gpu_refs p' b = gpu_refs p b - (if b \<in> set (take k ?T) - {Blk 0} then 1 else 0))"
  proof (cases "0 < get_num_skipped_tokens m t")
    case True
    then show ?thesis using gpu.skipped_released [OF assms(1) True k_def j(1-3), of digest] that unfolding j(4) by blast
  next
    case False
    then have "get_num_skipped_tokens m t = 0" using skipped_window(1) [OF assms(2,3) pos] by simp
    then show ?thesis using assms(1) by (intro that [of m p]) (simp add: base_remove_skipped_blocks_def k_def)
  qed
  then have "\<forall>b. gpu_refs p' b = gpu_refs p b - (if b \<in> set (take k ?T) \<and> b \<noteq> Blk 0 then 1 else 0)" by simp
  with rel win show ?thesis unfolding base by (intro exI [of _ k] exI [of _ m'] exI [of _ p']) blast
qed

text \<open>C39. The release of saved decode windows by the latent manager on the shared pool. A commit point
  that is not a multiple of the block size raises \<open>ValueError\<close>. Otherwise the table entries from
  the scratch blocks up to the commit point become null blocks, the number of blocks given back is
  returned, the scratch blocks and everything after the commit point stay, no entry is released
  that reaches past the commit point, and the invariant holds again; when the commit point lies in
  the scratch blocks nothing is released.\<close>

theorem decode_window_release_contract:
  assumes "mgr_inv shared_inv shared_refs ext m s" and "map_of (req_to_blocks m) rid = Some bs" and "bs \<noteq> []" and "0 < e"
    and "st = nat (scratch_blocks m)" and "en = nat (min (e div mgr_block_size m) (int (length bs)))"
  shows "(e mod mgr_block_size m \<noteq> 0 \<longrightarrow> remove_saved_decode_window_blocks shared_ops rid e (m, s) = Inl ValueError) \<and>
    (e mod mgr_block_size m = 0 \<and> st < en \<longrightarrow>
       (\<exists>m' s'. remove_saved_decode_window_blocks shared_ops rid e (m, s) =
            Inr (int (length (real_blocks (take (en - st) (drop st bs)))), m', s') \<and> mgr_inv shared_inv shared_refs ext m' s' \<and>
          req_blocks m' = (req_blocks m)(rid := take st bs @ replicate (en - st) (Blk 0) @ drop en bs))) \<and>
    (e mod mgr_block_size m = 0 \<and> en \<le> st \<longrightarrow>
       (\<exists>m'. remove_saved_decode_window_blocks shared_ops rid e (m, s) = Inr (0, m', s) \<and> req_blocks m' = req_blocks m)) \<and>
    int en * mgr_block_size m \<le> e"
proof (intro conjI impI)
  have pos: "0 < mgr_block_size m" by (rule mgr_invD(6) [OF assms(1)])
  have sc: "0 \<le> scratch_blocks m" using mgr_invD(2) [OF assms(1)] by (simp add: tables_ok_def)
  have "0 \<le> e div mgr_block_size m" using assms(4) pos by (simp add: pos_imp_zdiv_nonneg_iff)
  then have enI: "min (e div mgr_block_size m) (int (length bs)) = int en" by (simp add: assms(6))
  show "int en * mgr_block_size m \<le> e" using enI int_le_div_iff [OF pos, of "int en" e] by linarith
  show "remove_saved_decode_window_blocks shared_ops rid e (m, s) = Inl ValueError" if "e mod mgr_block_size m \<noteq> 0"
    using assms(2-4) that by (simp add: remove_saved_decode_window_blocks_def)
  show "\<exists>m' s'. remove_saved_decode_window_blocks shared_ops rid e (m, s) =
            Inr (int (length (real_blocks (take (en - st) (drop st bs)))), m', s') \<and> mgr_inv shared_inv shared_refs ext m' s' \<and>
          req_blocks m' = (req_blocks m)(rid := take st bs @ replicate (en - st) (Blk 0) @ drop en bs)"
    if "e mod mgr_block_size m = 0 \<and> st < en"
    by (rule shared.saved_window_released [OF assms(1,2,4) _ assms(5,6)]) (use that in simp_all)
  show "\<exists>m'. remove_saved_decode_window_blocks shared_ops rid e (m, s) = Inr (0, m', s) \<and> req_blocks m' = req_blocks m"
    if "e mod mgr_block_size m = 0 \<and> en \<le> st"
  proof -
    have "int en \<le> scratch_blocks m" using that assms(5) sc by linarith
    then show ?thesis using assms(2-4) that by (simp add: remove_saved_decode_window_blocks_def Let_def enI)
  qed
qed

section \<open>Witnesses\<close>

lemma four_pool_refs: "gpu_inv four_pool" "gpu_refs four_pool b = 0"
  using four_pool(2,5) by (auto simp: gpu_inv_def gpu_refs_def four_pool_valid KVCacheBlock_def)

definition small_manager :: manager where
  "small_manager = SingleTypeKVCacheManager FullAttentionManager small_full (Blk 0) True 0 1 1"

lemma small_manager:
  "get_manager_for_kv_cache_spec (gpu_ops digest) Map.empty small_full True 0 1 1 four_pool = Inr (small_manager, four_pool)"
  "manager_config_ok small_full 1 1" "mgr_block_size small_manager = 2"
  by (simp_all add: get_manager_for_kv_cache_spec_def small_manager_def small_full_def is_dsa_latent_def gpu_ops_def four_pool_valid
      manager_config_ok_def spec_ok_def demo_attn_def SingleTypeKVCacheManager_def)

abbreviation no_digest :: embeds_digest where
  "no_digest \<equiv> \<lambda>_ _ _. []"

lemma small_manager_inv:
  assumes "m = SingleTypeKVCacheManager cl spec (Blk 0) True 0 1 1" and "manager_config_ok spec 1 1" and "I p" and "\<And>b. 0 \<le> refs p b"
  shows "mgr_inv I refs (refs p) m p" and "req_blocks m rid = []" and "mgr_class m = cl"
proof -
  have "0 \<le> mamba_spec_blocks m"
    using assms(2) by (cases spec) (simp_all add: assms(1) SingleTypeKVCacheManager_def manager_config_ok_def mamba_spec_blocks_def)
  then show "mgr_inv I refs (refs p) m p" "req_blocks m rid = []" "mgr_class m = cl"
    using assms(2-4) by (auto simp: assms(1) mgr_inv_def SingleTypeKVCacheManager_def manager_config_ok_def held_def tables_ok_def
        req_blocks_def dget_def)
qed

lemma small_inv: "mgr_inv gpu_inv gpu_refs (gpu_refs four_pool) small_manager four_pool" "req_blocks small_manager rid = []"
  using small_manager_inv [OF small_manager_def small_manager(2), of gpu_inv four_pool gpu_refs] four_pool_refs by auto

lemma four_pool_free: "get_num_free_blocks four_pool = 3"
  using pool_okD(7) [OF four_pool(2)] by simp

theorem manager_reference_counts_witness:
  "\<exists>bs m p. allocate_new_blocks (gpu_ops no_digest) ''r'' 3 3 (small_manager, four_pool) = Inr (bs, m, p) \<and> length bs = 2 \<and>
     gpu_refs p (Blk 1) = int (held m (Blk 1)) \<and> (\<exists>m' p'. free (gpu_ops no_digest) ''r'' (m, p) = Inr (m', p') \<and> req_blocks m' ''r'' = [])"
proof -
  have free: "po_get_num_free_blocks (gpu_ops no_digest) four_pool = 3" by (simp add: gpu_ops_def four_pool_free)
  obtain bs m p where a: "base_allocate_new_blocks (gpu_ops no_digest) ''r'' 3 (small_manager, four_pool) = Inr (bs, m, p)" "int (length bs) = 2"
    using gpu.allocate_new_succeeds [OF small_inv(1), of 3 "''r''" no_digest] unfolding free
    by (auto simp: small_inv(2) small_manager(3) cdiv_def)
  then have new: "allocate_new_blocks (gpu_ops no_digest) ''r'' 3 3 (small_manager, four_pool) = Inr (bs, m, p)"
    by (simp add: allocate_new_blocks_def small_manager_def SingleTypeKVCacheManager_def)
  have "(mgr_step (gpu_ops no_digest) valid_blk)\<^sup>*\<^sup>* (small_manager, four_pool) (m, p)"
    by (rule r_into_rtranclp, rule mgr_step.New [OF _ new]) simp
  note counts = manager_reference_counts [OF four_pool_refs(1) small_manager(2,1) this]
  have "gpu_refs p (Blk 1) = int (held m (Blk 1))" using counts four_pool_refs(2) by simp
  moreover obtain m' p' where "free (gpu_ops no_digest) ''r'' (m, p) = Inr (m', p')" "req_blocks m' ''r'' = []" using counts by blast
  ultimately show ?thesis using new a(2) by (intro exI [of _ bs] exI [of _ m] exI [of _ p]) auto
qed

theorem admission_suffices_witness:
  "\<exists>m1 p1 new m2 p2. allocate_new_computed_blocks (gpu_ops no_digest) ''r'' [] 0 0 (small_manager, four_pool) = Inr (m1, p1) \<and>
     allocate_new_blocks (gpu_ops no_digest) ''r'' 3 3 (m1, p1) = Inr (new, m2, p2) \<and> length (req_blocks m2 ''r'') = 2"
proof -
  have "get_num_blocks_to_allocate (gpu_ops no_digest) small_manager four_pool ''r'' 3 [] (0 + 0) 3 = Inr (2, small_manager)"
    by (simp add: get_num_blocks_to_allocate_def base_get_num_blocks_to_allocate_def small_manager_def SingleTypeKVCacheManager_def dhas_def
        get_num_skipped_tokens_def get_num_evictable_blocks_def py_from_def req_blocks_def dget_def small_full_def demo_attn_def cdiv_def)
  moreover have "mgr_class small_manager = FullAttentionManager" "\<not> dhas (num_cached_block small_manager) ''r''"
    by (simp_all add: small_manager_def SingleTypeKVCacheManager_def dhas_def)
  ultimately obtain m1 p1 new m2 p2 where "allocate_new_computed_blocks (gpu_ops no_digest) ''r'' [] 0 0 (small_manager, four_pool) = Inr (m1, p1)"
    "allocate_new_blocks (gpu_ops no_digest) ''r'' 3 3 (m1, p1) = Inr (new, m2, p2)" "int (length (req_blocks m2 ''r'')) = cdiv 3 2"
    using admission_suffices [OF small_inv(1) _ small_inv(2), of "''r''" "[]" 0 0 3 no_digest 3 2 small_manager]
    by (auto simp: four_pool_free small_manager(3))
  then show ?thesis by (intro exI [of _ m1] exI [of _ p1] exI [of _ new] exI [of _ m2] exI [of _ p2]) (simp add: cdiv_def)
qed

definition window_spec :: kv_cache_spec where
  "window_spec = SlidingWindowSpec (demo_attn\<lparr>attn_block_size := 2\<rparr>) 1"

theorem skipped_blocks_are_released_witness:
  "\<exists>m p m' p'. length (req_blocks m ''r'') = 2 \<and> remove_skipped_blocks (gpu_ops no_digest) ''r'' 3 (m, p) = Inr (m', p') \<and>
     req_blocks m' ''r'' = [Blk 0, req_blocks m ''r'' ! 1]"
proof -
  let ?m = "SingleTypeKVCacheManager SlidingWindowManager window_spec (Blk 0) True 0 1 1"
  have cfg: "manager_config_ok window_spec 1 1" by (simp add: manager_config_ok_def window_spec_def demo_attn_def spec_ok_def)
  have inv: "mgr_inv gpu_inv gpu_refs (gpu_refs four_pool) ?m four_pool" and none: "req_blocks ?m ''r'' = []"
    using small_manager_inv [OF refl cfg, of gpu_inv four_pool gpu_refs] four_pool_refs by auto
  have size: "mgr_block_size ?m = 2" by (simp add: SingleTypeKVCacheManager_def window_spec_def demo_attn_def)
  have free: "po_get_num_free_blocks (gpu_ops no_digest) four_pool = 3" by (simp add: gpu_ops_def four_pool_free)
  obtain bs m p where a: "base_allocate_new_blocks (gpu_ops no_digest) ''r'' 3 (?m, four_pool) = Inr (bs, m, p)" "req_blocks m ''r'' = bs"
    "int (length bs) = 2"
    using gpu.allocate_new_succeeds [OF inv, of 3 "''r''" no_digest] unfolding free by (auto simp: none size cdiv_def)
  have inv1: "mgr_inv gpu_inv gpu_refs (gpu_refs four_pool) m p" by (rule gpu.base_allocate_new_blocks_inv [OF inv a(1)])
  have core: "mgr_core m = mgr_core ?m"
    using a(1) by (auto simp: base_allocate_new_blocks_def Let_def rbind_eq_Inr_iff split: if_splits)
  have m: "windowed m" "mgr_block_size m = 2" "mgr_spec m = window_spec"
    using mgr_coreD [OF core] by (simp_all add: SingleTypeKVCacheManager_def window_spec_def demo_attn_def windowed_def)
  have len: "length bs = 2" using a(3) by simp
  have new: "po_get_new_blocks (gpu_ops no_digest) 2 four_pool = Inr (bs, p)"
    using a(1) by (auto simp: base_allocate_new_blocks_def Let_def rbind_eq_Inr_iff none size cdiv_def split: if_splits)
  have "Blk 0 \<notin> set bs" by (rule gpu.get_inv(4) [OF inv _ new]) simp
  then have np: "null_prefix bs" by (auto simp: null_prefix_def) (metis nth_mem)
  obtain k m' p' where r: "remove_skipped_blocks (gpu_ops no_digest) ''r'' 3 (m, p) = Inr (m', p')" "k \<le> 2"
    "req_blocks m' = (req_blocks m)(''r'' := replicate k (Blk 0) @ drop k bs)"
    "\<forall>x y. 3 \<le> x \<and> attends window_spec x y \<longrightarrow> int k \<le> y div 2"
    "k < 2 \<longrightarrow> (\<exists>y. attends window_spec 3 y \<and> y div 2 = int k)"
    using skipped_blocks_are_released [OF inv1 m(1), of 3 "''r''" no_digest] np unfolding a(2) len m(2,3) by auto
  have vis: "attends window_spec 3 y \<longleftrightarrow> y = 3" for y by (auto simp: attends_def window_spec_def)
  have "k = 1" using r(4) [rule_format, of 3 3] r(5) by (auto simp: vis)
  moreover have "drop 1 bs = [bs ! 1]" using len by (cases bs; cases "tl bs") auto
  ultimately show ?thesis using r(1,3) a(2) len by (intro exI [of _ m] exI [of _ p] exI [of _ m'] exI [of _ p']) simp
qed

definition latent_spec :: kv_cache_spec where
  "latent_spec = MLAAttentionSpec (demo_attn\<lparr>attn_block_size := 2, head_size := 576\<rparr>)
     \<lparr>head_size_v = 576, full_sliding_window = None, full_attention_chunk_size = None\<rparr>
     \<lparr>cache_dtype_str = None, sparse_head_dim = None, cache_sparse_c8 = False, c8_k_cache_dtype = ''int8'', c8_k_scale_cache_dtype = ''float16''\<rparr>"

theorem decode_window_release_contract_witness:
  "\<exists>m s k m' s'. 3 \<le> length (req_blocks m ''r'') \<and> remove_saved_decode_window_blocks shared_ops ''r'' 4 (m, s) = Inr (k, m', s') \<and>
     req_blocks m' ''r'' = replicate 2 (Blk 0) @ drop 2 (req_blocks m ''r'') \<and>
     remove_saved_decode_window_blocks shared_ops ''r'' 3 (m, s) = Inl ValueError"
proof -
  let ?m = "SingleTypeKVCacheManager DSALatentManager latent_spec (Blk 0) True 0 1 1"
  let ?s = "(DSASharedBundleAllocator small_layout, small_pool LATENT)"
  have cfg: "manager_config_ok latent_spec 1 1" by (simp add: manager_config_ok_def latent_spec_def demo_attn_def spec_ok_def)
  have lp: "shared_inv ?s" using small_pool_inv by (simp add: shared_inv_def)
  have inv: "mgr_inv shared_inv shared_refs (shared_refs ?s) ?m ?s" and none: "req_blocks ?m ''r'' = []"
    using small_manager_inv [OF refl cfg, of shared_inv ?s shared_refs] lp shared.refs_nonneg [OF lp] by auto
  have "3 \<le> po_get_num_free_blocks shared_ops ?s" using small_pool_free by (simp add: shared_ops_def)
  then obtain ret s where get: "po_get_new_blocks shared_ops 3 ?s = Inr (ret, s)" "3 \<le> length ret"
    using shared.get_ok [OF lp, of 3] by fastforce
  let ?m1 = "set_req_blocks ''r'' ret ?m"
  have inv1: "mgr_inv shared_inv shared_refs (shared_refs ?s) ?m1 s" using shared.extend_inv [OF inv _ get(1), of "''r''"] none by simp
  have tab: "map_of (req_to_blocks ?m1) ''r'' = Some ret" "mgr_block_size ?m1 = 2" "scratch_blocks ?m1 = 0" "req_blocks ?m1 ''r'' = ret"
    by (simp_all add: set_req_blocks_def SingleTypeKVCacheManager_def latent_spec_def demo_attn_def update_conv' req_blocks_def dget_def)
  have "ret \<noteq> []" using get(2) by auto
  note contract = decode_window_release_contract [OF inv1 tab(1) this]
  have two: "0 = nat (scratch_blocks ?m1)" "2 = nat (min (4 div mgr_block_size ?m1) (int (length ret)))" using get(2) unfolding tab(2,3) by simp_all
  have "4 mod mgr_block_size ?m1 = 0 \<and> (0::nat) < 2" unfolding tab(2) by simp
  then obtain k m' s' where "remove_saved_decode_window_blocks shared_ops ''r'' 4 (?m1, s) = Inr (k, m', s')"
    "req_blocks m' = (req_blocks ?m1)(''r'' := take 0 ret @ replicate (2 - 0) (Blk 0) @ drop 2 ret)"
    using contract [OF _ two] by (metis zero_less_numeral)
  moreover have "3 mod mgr_block_size ?m1 \<noteq> 0" unfolding tab(2) by simp
  then have "remove_saved_decode_window_blocks shared_ops ''r'' 3 (?m1, s) = Inl ValueError"
    using contract [OF _ refl refl, of 3] by simp
  ultimately show ?thesis using get(2) tab(4)
    by (intro exI [of _ ?m1] exI [of _ s] exI [of _ k] exI [of _ m'] exI [of _ s']) simp
qed

end
