(* ===== verification/Coordinator.thy ===== *)
theory Coordinator
  imports Single_Type_Managers Cache_Hits
begin

text \<open>
  \<^verbatim>\<open>vllm/v1/core/kv_cache_coordinator.py\<close>: one manager per cache group over one or more block pools.
  The pools of a coordinator are either real block pools (one, or one per group) or logical pools
  over one shared bundle allocator. A manager holds its pool by index, and a manager method runs on
  the pool at that index. Log lines and the usage report, which change nothing a caller can see,
  are left out.
\<close>

section \<open>The pools of a coordinator\<close>

datatype pools =
    Pools "block_pool list"
  | SharedPools dsa_allocator "logical_pool list"

definition read_pool :: "nat \<Rightarrow> (block_pool \<Rightarrow> 'a) \<Rightarrow> (dsa_allocator \<times> logical_pool \<Rightarrow> 'a) \<Rightarrow> pools \<Rightarrow> 'a" where
  "read_pool ix f g ps = (case ps of Pools l \<Rightarrow> f (l ! ix) | SharedPools a l \<Rightarrow> g (a, l ! ix))"

definition set_pool :: "nat \<Rightarrow> (block_pool \<Rightarrow> ('a \<times> block_pool) res) \<Rightarrow>
    (dsa_allocator \<times> logical_pool \<Rightarrow> ('a \<times> dsa_allocator \<times> logical_pool) res) \<Rightarrow> pools \<Rightarrow> ('a \<times> pools) res" where
  "set_pool ix f g ps =
     (case ps of
        Pools l \<Rightarrow> rbind (f (l ! ix)) (\<lambda>(x, p). Inr (x, Pools (l[ix := p])))
      | SharedPools a l \<Rightarrow> rbind (g (a, l ! ix)) (\<lambda>(x, a', p). Inr (x, SharedPools a' (l[ix := p]))))"

definition upd_pool :: "nat \<Rightarrow> (block_pool \<Rightarrow> block_pool res) \<Rightarrow>
    (dsa_allocator \<times> logical_pool \<Rightarrow> (dsa_allocator \<times> logical_pool) res) \<Rightarrow> pools \<Rightarrow> pools res" where
  "upd_pool ix f g ps =
     rbind (set_pool ix (\<lambda>p. rbind (f p) (\<lambda>p'. Inr ((), p'))) (\<lambda>s. rbind (g s) (\<lambda>s'. Inr ((), s'))) ps) (\<lambda>(_, ps'). Inr ps')"

definition pools_ops :: "embeds_digest \<Rightarrow> nat \<Rightarrow> pools pool_ops" where
  "pools_ops digest ix =
     (let G = gpu_ops digest; S = shared_ops
      in \<lparr>po_get_new_blocks = (\<lambda>n. set_pool ix (po_get_new_blocks G n) (po_get_new_blocks S n)),
          po_free_blocks = (\<lambda>bs. upd_pool ix (po_free_blocks G bs) (po_free_blocks S bs)),
          po_touch = (\<lambda>bs. upd_pool ix (po_touch G bs) (po_touch S bs)),
          po_cache_full_blocks = (\<lambda>r bs c n z gid. upd_pool ix (po_cache_full_blocks G r bs c n z gid) (po_cache_full_blocks S r bs c n z gid)),
          po_get_num_free_blocks = read_pool ix (po_get_num_free_blocks G) (po_get_num_free_blocks S),
          po_num_gpu_blocks = read_pool ix (po_num_gpu_blocks G) (po_num_gpu_blocks S),
          po_blocks_per_bundle = read_pool ix (po_blocks_per_bundle G) (po_blocks_per_bundle S),
          po_null_block = read_pool ix (po_null_block G) (po_null_block S),
          po_block = read_pool ix (po_block G) (po_block S),
          po_queue_popleft_n = (\<lambda>n. set_pool ix (po_queue_popleft_n G n) (po_queue_popleft_n S n))\<rparr>)"

section \<open>The coordinator\<close>

datatype coordinator_class =
    KVCacheCoordinatorNoPrefixCache
  | UnitaryKVCacheCoordinator
  | HybridKVCacheCoordinator

record coordinator =
  co_class :: coordinator_class
  co_config :: kv_cache_config
  co_max_model_len :: int
  co_enable_caching :: bool
  use_dsa_shared_block_pool :: bool
  use_per_group_block_pools :: bool
  co_pools :: pools
  co_use_eagle :: bool
  single_type_managers :: "manager list"
  dsa_last_starve :: "(string \<times> int \<times> int \<times> int list) option"
  co_block_size :: int
  co_dcp_world_size :: int
  co_pcp_world_size :: int
  co_hash_block_size :: int
  attention_groups :: "(kv_cache_spec \<times> nat list \<times> manager_class) list"
  lcm_block_size :: int

definition co_pool_index :: "coordinator \<Rightarrow> nat \<Rightarrow> nat" where
  "co_pool_index c i = dsa_block_pool_index i (use_per_group_block_pools c) (use_dsa_shared_block_pool c)"

text \<open>A loop over the managers: the body sees the manager, its index and the pools.\<close>

fun run_managers :: "(nat \<Rightarrow> manager \<times> pools \<Rightarrow> ('a \<times> manager \<times> pools) res) \<Rightarrow> nat \<Rightarrow> manager list \<Rightarrow> pools \<Rightarrow>
    ('a list \<times> manager list \<times> pools) res" where
  "run_managers f i [] ps = Inr ([], [], ps)"
| "run_managers f i (m # ms) ps =
     rbind (f i (m, ps)) (\<lambda>(x, m', ps1).
     rbind (run_managers f (Suc i) ms ps1) (\<lambda>(xs, ms', ps2). Inr (x # xs, m' # ms', ps2)))"

definition for_managers :: "(nat \<Rightarrow> manager \<times> pools \<Rightarrow> ('a \<times> manager \<times> pools) res) \<Rightarrow> coordinator \<Rightarrow> ('a list \<times> coordinator) res" where
  "for_managers f c =
     rbind (run_managers f 0 (single_type_managers c) (co_pools c)) (\<lambda>(xs, ms, ps).
       Inr (xs, c\<lparr>single_type_managers := ms, co_pools := ps\<rparr>))"

definition void :: "(manager \<times> pools) res \<Rightarrow> (unit \<times> manager \<times> pools) res" where
  "void r = rbind r (\<lambda>s. Inr ((), s))"

section \<open>Allocation\<close>

definition co_num_blocks :: "embeds_digest \<Rightarrow> coordinator \<Rightarrow> string \<Rightarrow> int \<Rightarrow> blk list list \<Rightarrow> int \<Rightarrow> int \<Rightarrow> int \<Rightarrow> bool \<Rightarrow>
    nat \<Rightarrow> manager \<times> pools \<Rightarrow> (int \<times> manager \<times> pools) res" where
  "co_num_blocks digest c rid ntok ncb nenc ntotal nmain compact i s =
     (let (m, ps) = s; ops = pools_ops digest (co_pool_index c i)
      in if mgr_class m = CrossAttentionManager
         then rbind (get_num_blocks_to_allocate ops m ps rid nenc [] 0 nenc) (\<lambda>(k, m'). Inr (k, m', ps))
         else rbind (py_index ncb (int i)) (\<lambda>bs.
           if compact \<and> mgr_class m = DSALatentManager
           then (let (k, m') = get_num_blocks_to_allocate_compact_external ops m ps rid ntok bs ntotal nmain in Inr (k, m', ps))
           else rbind (get_num_blocks_to_allocate ops m ps rid ntok bs ntotal nmain) (\<lambda>(k, m'). Inr (k, m', ps))))"

definition get_num_blocks_to_allocate_per_group ::
  "embeds_digest \<Rightarrow> string \<Rightarrow> int \<Rightarrow> blk list list \<Rightarrow> int \<Rightarrow> int \<Rightarrow> int \<Rightarrow> bool \<Rightarrow> coordinator \<Rightarrow> (int list \<times> coordinator) res" where
  "get_num_blocks_to_allocate_per_group digest rid ntok ncb nenc ntotal nmain compact c =
     for_managers (co_num_blocks digest c rid ntok ncb nenc ntotal nmain compact) c"

definition co_get_num_blocks_to_allocate ::
  "embeds_digest \<Rightarrow> string \<Rightarrow> int \<Rightarrow> blk list list \<Rightarrow> int \<Rightarrow> int \<Rightarrow> int \<Rightarrow> bool \<Rightarrow> coordinator \<Rightarrow> (int \<times> coordinator) res" where
  "co_get_num_blocks_to_allocate digest rid ntok ncb nenc ntotal nmain compact c =
     rbind (get_num_blocks_to_allocate_per_group digest rid ntok ncb nenc ntotal nmain compact c) (\<lambda>(ks, c'). Inr (sum_list ks, c'))"

text \<open>The bundles group \<open>i\<close> asks for; the method exists on logical pools only.\<close>

definition bundles_needed :: "pools \<Rightarrow> nat \<times> int \<Rightarrow> int res" where
  "bundles_needed ps ik =
     (case ps of
        Pools _ \<Rightarrow> Inl AttributeError
      | SharedPools a l \<Rightarrow> Inr (lp_get_num_bundles_to_allocate a (l ! fst ik) (snd ik)))"

definition co_free_blocks_at :: "coordinator \<Rightarrow> nat \<Rightarrow> int" where
  "co_free_blocks_at c ix = read_pool ix get_num_free_blocks (\<lambda>(a, p). lp_get_num_free_blocks a p) (co_pools c)"

definition shared_free_bundles :: "pools \<Rightarrow> int" where
  "shared_free_bundles ps = (case ps of Pools _ \<Rightarrow> 0 | SharedPools a _ \<Rightarrow> free_bundle_count a)"

definition has_enough_free_blocks ::
  "embeds_digest \<Rightarrow> string \<Rightarrow> int \<Rightarrow> blk list list \<Rightarrow> int \<Rightarrow> int \<Rightarrow> int \<Rightarrow> bool \<Rightarrow> coordinator \<Rightarrow> (bool \<times> coordinator) res" where
  "has_enough_free_blocks digest rid ntok ncb nenc ntotal nmain compact c =
     rbind (get_num_blocks_to_allocate_per_group digest rid ntok ncb nenc ntotal nmain compact c) (\<lambda>(per_group, c1).
       if use_per_group_block_pools c1
       then Inr (\<forall>(i, needed)\<in>set (enumerate 0 per_group). needed \<le> co_free_blocks_at c1 (co_pool_index c1 i), c1)
       else if use_dsa_shared_block_pool c1
       then rbind (rmap (bundles_needed (co_pools c1)) (enumerate 0 per_group)) (\<lambda>bundles.
              let needed = sum_list bundles; free = shared_free_bundles (co_pools c1)
              in if needed \<le> free then Inr (True, c1)
                 else Inr (False, c1\<lparr>dsa_last_starve := Some (rid, needed, free, per_group)\<rparr>))
       else Inr (sum_list per_group \<le> co_free_blocks_at c1 0, c1))"

definition co_computed :: "embeds_digest \<Rightarrow> coordinator \<Rightarrow> string \<Rightarrow> blk list list \<Rightarrow> int \<Rightarrow> int \<Rightarrow> bool \<Rightarrow>
    nat \<Rightarrow> manager \<times> pools \<Rightarrow> (unit \<times> manager \<times> pools) res" where
  "co_computed digest c rid ncb num_local num_external compact i s =
     (let ops = pools_ops digest (co_pool_index c i)
      in rbind (py_index ncb (int i)) (\<lambda>bs.
           void (if compact \<and> mgr_class (fst s) = DSALatentManager
                 then allocate_new_computed_blocks_compact_external ops rid bs num_local num_external s
                 else allocate_new_computed_blocks ops rid bs num_local num_external s)))"

definition co_allocate_new_computed_blocks ::
  "embeds_digest \<Rightarrow> string \<Rightarrow> blk list list \<Rightarrow> int \<Rightarrow> int \<Rightarrow> bool \<Rightarrow> coordinator \<Rightarrow> coordinator res" where
  "co_allocate_new_computed_blocks digest rid ncb num_local num_external compact c =
     rbind (for_managers (co_computed digest c rid ncb num_local num_external compact) c) (\<lambda>(_, c'). Inr c')"

definition co_new :: "embeds_digest \<Rightarrow> coordinator \<Rightarrow> string \<Rightarrow> int \<Rightarrow> int \<Rightarrow> int \<Rightarrow> bool \<Rightarrow>
    nat \<Rightarrow> manager \<times> pools \<Rightarrow> (blk list \<times> manager \<times> pools) res" where
  "co_new digest c rid ntok nmain nenc compact i s =
     (let ops = pools_ops digest (co_pool_index c i)
      in if compact \<and> mgr_class (fst s) = DSALatentManager
         then allocate_new_blocks_compact_external ops rid ntok nmain s
         else allocate_new_blocks ops rid (if mgr_class (fst s) = CrossAttentionManager then nenc else ntok) nmain s)"

definition co_allocate_new_blocks ::
  "embeds_digest \<Rightarrow> string \<Rightarrow> int \<Rightarrow> int \<Rightarrow> int \<Rightarrow> bool \<Rightarrow> coordinator \<Rightarrow> (blk list list \<times> coordinator) res" where
  "co_allocate_new_blocks digest rid ntok nmain nenc compact c =
     for_managers (co_new digest c rid ntok nmain nenc compact) c"

definition co_cache_blocks :: "embeds_digest \<Rightarrow> request \<Rightarrow> int \<Rightarrow> coordinator \<Rightarrow> coordinator res" where
  "co_cache_blocks digest r n c =
     rbind (for_managers (\<lambda>i s. void (cache_blocks (pools_ops digest (co_pool_index c i)) r n s)) c) (\<lambda>(_, c'). Inr c')"

definition co_free :: "embeds_digest \<Rightarrow> string \<Rightarrow> coordinator \<Rightarrow> coordinator res" where
  "co_free digest rid c =
     rbind (for_managers (\<lambda>i s. void (free (pools_ops digest (co_pool_index c i)) rid s)) c) (\<lambda>(_, c'). Inr c')"

definition co_get_num_common_prefix_blocks :: "embeds_digest \<Rightarrow> string \<Rightarrow> coordinator \<Rightarrow> (int list \<times> coordinator) res" where
  "co_get_num_common_prefix_blocks digest rid c =
     (if co_class c = KVCacheCoordinatorNoPrefixCache then Inr (replicate (length (single_type_managers c)) 0, c)
      else for_managers (\<lambda>i (m, ps). let (k, m') = get_num_common_prefix_blocks (pools_ops digest (co_pool_index c i)) ps rid m
                                     in Inr (k, m', ps)) c)"

definition co_remove_skipped_blocks :: "embeds_digest \<Rightarrow> string \<Rightarrow> int \<Rightarrow> coordinator \<Rightarrow> coordinator res" where
  "co_remove_skipped_blocks digest rid ntotal c =
     rbind (for_managers (\<lambda>i s. void (remove_skipped_blocks (pools_ops digest (co_pool_index c i)) rid ntotal s)) c) (\<lambda>(_, c'). Inr c')"

definition co_remove_saved_decode_window_blocks :: "embeds_digest \<Rightarrow> string \<Rightarrow> int \<Rightarrow> coordinator \<Rightarrow> (int \<times> coordinator) res" where
  "co_remove_saved_decode_window_blocks digest rid committed_end c =
     rbind (for_managers (\<lambda>i s. if mgr_class (fst s) = DSALatentManager
              then remove_saved_decode_window_blocks (pools_ops digest (co_pool_index c i)) rid committed_end s
              else Inr (0, s)) c) (\<lambda>(ks, c'). Inr (sum_list ks, c'))"

definition co_get_blocks :: "coordinator \<Rightarrow> string \<Rightarrow> blk list list" where
  "co_get_blocks c rid = map (\<lambda>m. dget (req_to_blocks m) rid []) (single_type_managers c)"

definition co_block :: "coordinator \<Rightarrow> nat \<Rightarrow> blk \<Rightarrow> kv_block" where
  "co_block c i b = read_pool (co_pool_index c i) (\<lambda>p. bstore p b) (\<lambda>(a, p). lp_store p b) (co_pools c)"

text \<open>\<^verbatim>\<open>(blocks,) = self.get_blocks(request_id)\<close> raises unless there is exactly one group.\<close>

definition get_external_load_validation_block_ids :: "coordinator \<Rightarrow> string \<Rightarrow> int list res" where
  "get_external_load_validation_block_ids c rid =
     (let ms = enumerate 0 (single_type_managers c);
          compact = (\<exists>(i, m)\<in>set ms. mgr_class m = DSALatentManager \<and> is_compact_external m rid);
          plain = filter (\<lambda>(i, m). mgr_class m \<noteq> DSALatentManager) ms
      in case (compact, plain) of
           (True, (i, m) # _) \<Rightarrow>
             Inr (map (\<lambda>b. block_id (co_block c i b)) (filter (\<lambda>b. \<not> is_null (co_block c i b)) (dget (req_to_blocks m) rid [])))
         | _ \<Rightarrow> (case co_get_blocks c rid of
                   [bs] \<Rightarrow> Inr (map (\<lambda>b. block_id (co_block c 0 b)) bs)
                 | _ \<Rightarrow> Inl ValueError))"

definition co_new_step_starts :: "coordinator \<Rightarrow> coordinator" where
  "co_new_step_starts c = c\<lparr>single_type_managers := map new_step_starts (single_type_managers c)\<rparr>"

section \<open>Cache hits\<close>

text \<open>\<^verbatim>\<open>self.block_pool\<close> as the cache searches use it; a logical pool has no cache.\<close>

definition co_block_pool :: "coordinator \<Rightarrow> block_pool res" where
  "co_block_pool c = (case co_pools c of Pools (p # _) \<Rightarrow> Inr p | _ \<Rightarrow> Inl AttributeError)"

definition unitary_find_longest_cache_hit :: "coordinator \<Rightarrow> bytes list \<Rightarrow> int \<Rightarrow> (blk list list \<times> int) res" where
  "unitary_find_longest_cache_hit c hashes max_length =
     rbind (py_index (single_type_managers c) 0) (\<lambda>m.
     rbind (py_index (kv_cache_groups (co_config c)) 0) (\<lambda>g.
     rbind (co_block_pool c) (\<lambda>p.
     rbind (find_longest_cache_hit (mgr_class m) p (Plain hashes) max_length [0] (kv_cache_spec g) (co_use_eagle c)
              (co_block_size c) (co_dcp_world_size c) (co_pcp_world_size c)) (\<lambda>hit.
     rbind (py_index hit 0) (\<lambda>h. Inr (hit, int (length h) * co_block_size c))))))"

definition get_block_hashes :: "int \<Rightarrow> bytes list \<Rightarrow> kv_cache_spec \<Rightarrow> hash_list res" where
  "get_block_hashes hbs hashes spec =
     (if block_size spec = hbs then Inr (Plain hashes)
      else rbind (BlockHashListWithBlockSize hashes hbs (block_size spec)) (\<lambda>v. Inr (View v)))"

text \<open>The body of the loop over the attention groups: the candidate length and the blocks found so far.\<close>

definition hybrid_step :: "block_pool \<Rightarrow> int \<Rightarrow> bytes list \<Rightarrow> bool \<Rightarrow> int \<Rightarrow> kv_cache_spec \<times> nat list \<times> manager_class \<Rightarrow>
    int \<times> blk list option list \<Rightarrow> (int \<times> blk list option list) res" where
  "hybrid_step p hbs hashes use_eagle al grp s =
     (let (spec, gids, cl) = grp; (cur, by_group) = s
      in rbind (py_index gids 0) (\<lambda>g0. rbind (py_index by_group (int g0)) (\<lambda>cached.
           if is_full_attention spec \<and> cached \<noteq> None
           then (if block_size spec = 0 then Inl ZeroDivisionError
                 else Inr (cur div block_size spec * block_size spec, by_group))
           else rbind (get_block_hashes hbs hashes spec) (\<lambda>hl.
                rbind (find_longest_cache_hit cl p hl cur (map int gids) spec use_eagle al 1 1) (\<lambda>hit.
                rbind (py_index hit 0) (\<lambda>h.
                  Inr (int (length h) * block_size spec,
                       fold (\<lambda>(g, bs) xs. xs[g := Some bs]) (zip gids hit) by_group)))))))"

text \<open>\<^verbatim>\<open>while True\<close>: not returning is \<open>None\<close>.\<close>

partial_function (option) hybrid_loop ::
  "(int \<times> blk list option list \<Rightarrow> (int \<times> blk list option list) res) \<Rightarrow> bool \<Rightarrow> int \<Rightarrow> blk list option list \<Rightarrow>
    (int \<times> blk list option list) res option" where
  "hybrid_loop pass simple hit_length by_group =
     (case pass (hit_length, by_group) of
        Inl e \<Rightarrow> Some (Inl e)
      | Inr (cur, by_group1) \<Rightarrow>
          if cur \<ge> hit_length then Some (Inr (hit_length, by_group1))
          else if simple then Some (Inr (cur, by_group1))
          else hybrid_loop pass simple cur by_group1)"

definition truncate_group :: "int \<Rightarrow> nat \<Rightarrow> blk list option list \<Rightarrow> blk list option list" where
  "truncate_group n g xs = xs[g := map_option (\<lambda>bs. py_slice bs 0 n) (xs ! g)]"

definition hybrid_find_longest_cache_hit :: "coordinator \<Rightarrow> bytes list \<Rightarrow> int \<Rightarrow> (blk list list \<times> int) res option" where
  "hybrid_find_longest_cache_hit c hashes max_length =
     (case (co_block_pool c, attention_groups c) of
        (Inl e, _) \<Rightarrow> Some (Inl e)
      | (_, []) \<Rightarrow> Some (Inl IndexError)
      | (Inr p, (spec0, gids0, cl0) # _) \<Rightarrow>
          (let num_groups = length (kv_cache_groups (co_config c));
               simple = (length (attention_groups c) = 2 \<and> is_full_attention spec0);
               pass = rfold (hybrid_step p (co_hash_block_size c) hashes (co_use_eagle c) (lcm_block_size c)) (attention_groups c)
           in case hybrid_loop pass simple max_length (replicate num_groups None) of
                None \<Rightarrow> None
              | Some (Inl e) \<Rightarrow> Some (Inl e)
              | Some (Inr (hit_length, by_group)) \<Rightarrow>
                  let by_group1 = (if is_full_attention spec0
                                   then fold (truncate_group (hit_length div block_size spec0)) gids0 by_group else by_group)
                  in Some (Inr (map (\<lambda>bs. case bs of None \<Rightarrow> [] | Some bs \<Rightarrow> bs) by_group1, hit_length))))"

definition no_prefix_find_longest_cache_hit :: "coordinator \<Rightarrow> bytes list \<Rightarrow> int \<Rightarrow> (blk list list \<times> int) res" where
  "no_prefix_find_longest_cache_hit c hashes max_length = Inr (replicate (length (single_type_managers c)) [], 0)"

text \<open>The abstract method: each class of coordinator has its own.\<close>

definition co_find_longest_cache_hit :: "coordinator \<Rightarrow> bytes list \<Rightarrow> int \<Rightarrow> (blk list list \<times> int) res option" where
  "co_find_longest_cache_hit c hashes max_length =
     (case co_class c of
        KVCacheCoordinatorNoPrefixCache \<Rightarrow> Some (no_prefix_find_longest_cache_hit c hashes max_length)
      | UnitaryKVCacheCoordinator \<Rightarrow> Some (unitary_find_longest_cache_hit c hashes max_length)
      | HybridKVCacheCoordinator \<Rightarrow> hybrid_find_longest_cache_hit c hashes max_length)"

section \<open>Construction\<close>

definition pool_flags :: "environ \<Rightarrow> int \<Rightarrow> int list \<Rightarrow> bool \<times> bool" where
  "pool_flags env num_groups page_sizes =
     (let shared = (dsa_shared_pool_enabled env \<and> dsa_two_groups_enabled env \<and> num_groups = 2 \<and> length (remdups page_sizes) > 1)
      in (shared, dsa_two_groups_enabled env \<and> \<not> shared \<and> num_groups > 1 \<and> length (remdups page_sizes) > 1))"

text \<open>\<^verbatim>\<open>max\<close> and \<^verbatim>\<open>min\<close> with a key return the first extremal element.\<close>

fun first_max :: "(kv_cache_group \<times> int) list \<Rightarrow> kv_cache_group \<times> int \<Rightarrow> kv_cache_group \<times> int" where
  "first_max [] best = best"
| "first_max (x # xs) best = first_max xs (if snd x > snd best then x else best)"

fun first_min :: "(kv_cache_group \<times> int) list \<Rightarrow> kv_cache_group \<times> int \<Rightarrow> kv_cache_group \<times> int" where
  "first_min [] best = best"
| "first_min (x # xs) best = first_min xs (if snd x < snd best then x else best)"

definition shared_pools :: "kv_cache_config \<Rightarrow> int list \<Rightarrow> pools res" where
  "shared_pools kvc page_sizes =
     (case zip (kv_cache_groups kvc) page_sizes of
        [] \<Rightarrow> Inl ValueError
      | x # xs \<Rightarrow>
          (let latent = first_max xs x; indexer = first_min xs x
           in rassert (is_mla (kv_cache_spec (fst latent)) \<and> is_mla (kv_cache_spec (fst indexer)))
             (rbind (DSASharedBlockLayout (snd latent) (snd indexer) (num_blocks kvc) 512 64 128) (\<lambda>l.
                let a = DSASharedBundleAllocator l
                in rbind (rmap (\<lambda>z. DSASharedLogicalBlockPool (if z = snd latent then LATENT else INDEXER) a) page_sizes) (\<lambda>ps.
                   Inr (SharedPools a ps))))))"

definition block_pools :: "kv_cache_config \<Rightarrow> bool \<Rightarrow> bool \<Rightarrow> bool \<Rightarrow> int \<Rightarrow> bool \<Rightarrow> pools res" where
  "block_pools kvc per_group caching events hbs use_int =
     (let num_pools = (if per_group then length (kv_cache_groups kvc) else 1);
          sizes = (case (per_group, num_blocks_per_group kvc) of
                     (True, Some zs) \<Rightarrow> zs
                   | _ \<Rightarrow> replicate num_pools (num_blocks kvc))
      in rbind (rmap (\<lambda>i. rbind (py_index sizes (int i)) (\<lambda>n. BlockPool n caching hbs events use_int)) [0..<num_pools]) (\<lambda>ps.
         Inr (Pools ps)))"

fun build_managers :: "embeds_digest \<Rightarrow> environ \<Rightarrow> (nat \<Rightarrow> nat) \<Rightarrow> bool \<Rightarrow> int \<Rightarrow> int \<Rightarrow> nat \<Rightarrow> kv_cache_group list \<Rightarrow> pools \<Rightarrow>
    (manager list \<times> pools) res" where
  "build_managers digest env ix caching dcp pcp i [] ps = Inr ([], ps)"
| "build_managers digest env ix caching dcp pcp i (g # gs) ps =
     rbind (get_manager_for_kv_cache_spec (pools_ops digest (ix i)) env (kv_cache_spec g) caching (int i) dcp pcp ps) (\<lambda>(m, ps1).
     rbind (build_managers digest env ix caching dcp pcp (Suc i) gs ps1) (\<lambda>(ms, ps2). Inr (m # ms, ps2)))"

definition set_scratch :: "kv_cache_config \<Rightarrow> int \<Rightarrow> manager \<Rightarrow> manager res" where
  "set_scratch kvc topk m =
     (if mgr_class m = DSALatentManager
      then rbind (dsa_scratch_blocks_for_topk topk (mgr_block_size m) (dsa_num_speculative_tokens kvc + 1)) (\<lambda>n.
             Inr (m\<lparr>scratch_blocks := n\<rparr>))
      else Inr m)"

definition KVCacheCoordinator ::
  "(dtype \<Rightarrow> int) \<Rightarrow> embeds_digest \<Rightarrow> environ \<Rightarrow> bool \<Rightarrow> coordinator_class \<Rightarrow> kv_cache_config \<Rightarrow> int \<Rightarrow> bool \<Rightarrow> bool \<Rightarrow> bool \<Rightarrow>
    int \<Rightarrow> int \<Rightarrow> int \<Rightarrow> coordinator res" where
  "KVCacheCoordinator dsize digest env use_int cl kvc max_len use_eagle caching events dcp pcp hbs =
     rbind (rmap (\<lambda>g. page_size_bytes dsize (kv_cache_spec g)) (kv_cache_groups kvc)) (\<lambda>page_sizes.
       let (shared, per_group) = pool_flags env (int (length (kv_cache_groups kvc))) page_sizes
       in rassert (\<not> ((per_group \<or> shared) \<and> caching))
         (rbind (if shared then shared_pools kvc page_sizes else block_pools kvc per_group caching events hbs use_int) (\<lambda>ps.
          rbind (build_managers digest env (\<lambda>i. dsa_block_pool_index i per_group shared) caching dcp pcp 0 (kv_cache_groups kvc) ps) (\<lambda>(ms, ps1).
          rbind (case (per_group \<or> shared, dsa_index_topk kvc) of
                   (True, Some topk) \<Rightarrow> rmap (set_scratch kvc topk) ms
                 | _ \<Rightarrow> Inr ms) (\<lambda>ms1.
            Inr \<lparr>co_class = cl, co_config = kvc, co_max_model_len = max_len, co_enable_caching = caching,
                 use_dsa_shared_block_pool = shared, use_per_group_block_pools = per_group, co_pools = ps1,
                 co_use_eagle = use_eagle, single_type_managers = ms1, dsa_last_starve = None, co_block_size = 0,
                 co_dcp_world_size = dcp, co_pcp_world_size = pcp, co_hash_block_size = hbs, attention_groups = [],
                 lcm_block_size = 0\<rparr>)))))"

definition unitary_init :: "coordinator \<Rightarrow> coordinator res" where
  "unitary_init c =
     rbind (py_index (kv_cache_groups (co_config c)) 0) (\<lambda>g.
       let b = block_size (kv_cache_spec g);
           b1 = (if co_dcp_world_size c > 1 then b * co_dcp_world_size c else b);
           b2 = (if co_pcp_world_size c > 1 then b1 * co_pcp_world_size c else b1)
       in rassert (\<not> co_enable_caching c \<or> co_hash_block_size c = b2)
         (rassert (length (kv_cache_groups (co_config c)) = 1) (Inr (c\<lparr>co_block_size := b2\<rparr>))))"

text \<open>The search for an attention group with the same specification.\<close>

fun add_to_groups :: "kv_cache_spec \<Rightarrow> nat \<Rightarrow> manager_class \<Rightarrow> (kv_cache_spec \<times> nat list \<times> manager_class) list \<Rightarrow>
    (kv_cache_spec \<times> nat list \<times> manager_class) list res" where
  "add_to_groups spec i cl [] = Inr [(spec, [i], cl)]"
| "add_to_groups spec i cl ((s, ids, cl') # gs) =
     (if s = spec then rassert (cl = cl') (Inr ((s, ids @ [i], cl') # gs))
      else rbind (add_to_groups spec i cl gs) (\<lambda>gs'. Inr ((s, ids, cl') # gs')))"

definition verify_and_split_kv_cache_groups :: "coordinator \<Rightarrow> coordinator res" where
  "verify_and_split_kv_cache_groups c =
     rbind (rfold (\<lambda>(i, g) gs. rbind (py_index (single_type_managers c) (int i)) (\<lambda>m.
              add_to_groups (kv_cache_spec g) i (mgr_class m) gs)) (enumerate 0 (kv_cache_groups (co_config c))) []) (\<lambda>groups.
     rassert (length groups > 1)
       (Inr (c\<lparr>attention_groups := filter (\<lambda>(s, _). is_full_attention s) groups @ filter (\<lambda>(s, _). \<not> is_full_attention s) groups,
               lcm_block_size := foldr (\<lambda>(s, _). lcm (block_size s)) groups 1\<rparr>)))"

definition hybrid_init :: "coordinator \<Rightarrow> coordinator res" where
  "hybrid_init c =
     (if co_hash_block_size c = 0 \<and> kv_cache_groups (co_config c) \<noteq> [] then Inl ZeroDivisionError
      else rassert (\<forall>g\<in>set (kv_cache_groups (co_config c)). block_size (kv_cache_spec g) mod co_hash_block_size c = 0)
        (rassert (co_dcp_world_size c = 1) (rassert (co_pcp_world_size c = 1) (verify_and_split_kv_cache_groups c))))"

definition get_kv_cache_coordinator ::
  "(dtype \<Rightarrow> int) \<Rightarrow> embeds_digest \<Rightarrow> environ \<Rightarrow> bool \<Rightarrow> kv_cache_config \<Rightarrow> int \<Rightarrow> bool \<Rightarrow> bool \<Rightarrow> bool \<Rightarrow>
    int \<Rightarrow> int \<Rightarrow> int \<Rightarrow> coordinator res" where
  "get_kv_cache_coordinator dsize digest env use_int kvc max_len use_eagle caching events dcp pcp hbs =
     (if \<not> caching
      then KVCacheCoordinator dsize digest env use_int KVCacheCoordinatorNoPrefixCache kvc max_len use_eagle False events dcp pcp hbs
      else if length (kv_cache_groups kvc) = 1
      then rbind (KVCacheCoordinator dsize digest env use_int UnitaryKVCacheCoordinator kvc max_len use_eagle caching events dcp pcp hbs) unitary_init
      else rbind (KVCacheCoordinator dsize digest env use_int HybridKVCacheCoordinator kvc max_len use_eagle caching events dcp pcp hbs) hybrid_init)"

end
