(* ===== verification/Coordinator_Invariants.thy ===== *)
theory Coordinator_Invariants
  imports Coordinator Manager_Invariants
begin

text \<open>
  The pools of a coordinator satisfy the pool interface at every index, with the other pools as a
  frame, so that the lemmas on managers apply to every manager of a coordinator. The reference
  counts of a coordinator: in each pool, the count of a block is the number of table entries of the
  managers on that pool that name it.
\<close>

section \<open>The pools as an instance of the pool interface\<close>

definition npools :: "pools \<Rightarrow> nat" where
  "npools ps = (case ps of Pools l \<Rightarrow> length l | SharedPools a l \<Rightarrow> length l)"

definition pool_refs :: "nat \<Rightarrow> pools \<Rightarrow> blk \<Rightarrow> int" where
  "pool_refs ix ps = read_pool ix gpu_refs shared_refs ps"

definition pool_valid :: "nat \<Rightarrow> pools \<Rightarrow> blk \<Rightarrow> bool" where
  "pool_valid ix ps = read_pool ix valid_blk (\<lambda>_ _. True) ps"

definition pools_ok :: "pools \<Rightarrow> bool" where
  "pools_ok ps \<longleftrightarrow>
     (case ps of
        Pools l \<Rightarrow> (\<forall>p\<in>set l. gpu_inv p)
      | SharedPools a l \<Rightarrow> (\<forall>p\<in>set l. lp_inv a p) \<and> distinct (map lp_owner l))"

text \<open>What no operation changes: the sizes of the block pools, or the layout and the owners.\<close>

type_synonym pool_signature = "int list + dsa_layout \<times> dsa_owner list"

definition pool_sig :: "pools \<Rightarrow> pool_signature" where
  "pool_sig ps = (case ps of Pools l \<Rightarrow> Inl (map num_gpu_blocks l) | SharedPools a l \<Rightarrow> Inr (layout a, map lp_owner l))"

definition framed :: "pool_signature \<Rightarrow> (nat \<Rightarrow> blk \<Rightarrow> int) \<Rightarrow> nat \<Rightarrow> pools \<Rightarrow> bool" where
  "framed N R ix ps \<longleftrightarrow> pools_ok ps \<and> ix < npools ps \<and> pool_sig ps = N \<and> (\<forall>j<npools ps. j \<noteq> ix \<longrightarrow> pool_refs j ps = R j)"

lemma pools_simps [simp]:
  "npools (Pools l) = length l" "npools (SharedPools a ls) = length ls"
  "pool_refs ix (Pools l) = gpu_refs (l ! ix)" "pool_refs ix (SharedPools a ls) = shared_refs (a, ls ! ix)"
  "pool_valid ix (Pools l) = valid_blk (l ! ix)" "pool_valid ix (SharedPools a ls) b = True"
  "pools_ok (Pools l) = (\<forall>p\<in>set l. gpu_inv p)"
  "pools_ok (SharedPools a ls) = ((\<forall>p\<in>set ls. lp_inv a p) \<and> distinct (map lp_owner ls))"
  by (simp_all add: npools_def pool_refs_def pool_valid_def pools_ok_def read_pool_def)

lemma npools_sig: "pool_sig ps' = pool_sig ps \<Longrightarrow> npools ps' = npools ps"
  by (cases ps; cases ps') (auto simp: pool_sig_def dest: map_eq_imp_length_eq)

lemma valid_sig:
  assumes "pool_sig ps' = pool_sig ps" and "ix < npools ps"
  shows "pool_valid ix ps' = pool_valid ix ps"
proof (cases ps)
  case (Pools l)
  then obtain l' where l': "ps' = Pools l'" "map num_gpu_blocks l' = map num_gpu_blocks l"
    using assms(1) by (cases ps') (auto simp: pool_sig_def)
  then have "num_gpu_blocks (l' ! ix) = num_gpu_blocks (l ! ix)" using assms(2) Pools by (metis length_map nth_map pools_simps(1))
  then show ?thesis using Pools l'(1) by (auto simp: fun_eq_iff valid_blk_def)
next
  case (SharedPools a l)
  then show ?thesis using assms(1) by (cases ps') (auto simp: pool_sig_def fun_eq_iff)
qed

lemma shared_refs_store: "shared_refs (a, p) = shared_refs (a', p)"
  by (simp add: shared_refs_def fun_eq_iff split: blk.split)

lemma framed_gpu:
  assumes "framed N R ix (Pools l)" and "gpu_inv p'" and "cfg p' = cfg (l ! ix)"
  shows "framed N R ix (Pools (l[ix := p'])) \<and> pool_refs ix (Pools (l[ix := p'])) = gpu_refs p'"
proof -
  have ix: "ix < length l" and ok: "\<forall>p\<in>set l. gpu_inv p" using assms(1) by (simp_all add: framed_def)
  have "num_gpu_blocks p' = num_gpu_blocks (l ! ix)" using assms(3) by (simp add: cfg_def)
  then have "map num_gpu_blocks (l[ix := p']) = map num_gpu_blocks l" by (simp add: map_update) (metis ix length_map list_update_id nth_map)
  then show ?thesis using assms ix ok
    by (auto simp: framed_def pool_sig_def nth_list_update dest!: set_update_subset_insert [THEN subsetD])
qed

lemma framed_shared:
  assumes "framed N R ix (SharedPools a l)" and "lp_inv a' p'" and "lp_owner p' = lp_owner (l ! ix)" and "layout a' = layout a"
    and other: "\<And>q. lp_inv a q \<Longrightarrow> lp_owner q \<noteq> lp_owner (l ! ix) \<Longrightarrow> lp_inv a' q"
  shows "framed N R ix (SharedPools a' (l[ix := p'])) \<and> pool_refs ix (SharedPools a' (l[ix := p'])) = shared_refs (a', p')"
proof -
  have ix: "ix < length l" and ok: "\<forall>p\<in>set l. lp_inv a p" and dist: "distinct (map lp_owner l)" using assms(1) by (simp_all add: framed_def)
  have own: "map lp_owner (l[ix := p']) = map lp_owner l" using assms(3) ix by (metis length_map list_update_id map_update nth_map)
  have "lp_inv a' q" if q: "q \<in> set (l[ix := p'])" for q
  proof -
    obtain j where j: "j < length l" "q = l[ix := p'] ! j" using q by (auto simp: in_set_conv_nth simp del: nth_list_update)
    show ?thesis
    proof (cases "j = ix")
      case True
      then show ?thesis using j ix assms(2) by simp
    next
      case False
      then have "lp_owner q \<noteq> lp_owner (l ! ix)" using dist j ix by (simp add: distinct_conv_nth)
      then show ?thesis using other ok j False by simp
    qed
  qed
  moreover have "shared_refs (a', l[ix := p'] ! j) = shared_refs (a, l ! j)" if "j \<noteq> ix" for j
    using that shared_refs_store by simp
  ultimately show ?thesis using assms(1,4) ix own dist by (auto simp: framed_def pool_sig_def)
qed

lemma framed_get_shared:
  assumes fr: "framed N R ix (SharedPools a l)" and get: "lp_get_new_blocks n a (l ! ix) = Inr (bs, a', p')"
  shows "framed N R ix (SharedPools a' (l[ix := p'])) \<and> pool_refs ix (SharedPools a' (l[ix := p'])) = shared_refs (a', p')"
proof -
  have lp: "lp_inv a (l ! ix)" using fr by (simp add: framed_def)
  obtain bundles where b: "allocate (lp_owner (l ! ix)) (bundle_count_for_blocks a (lp_owner (l ! ix)) n) a = Inr (bundles, a')"
    "lp_owner p' = lp_owner (l ! ix)" using get_new_blocks_alloc [OF get] by auto
  show ?thesis
    by (rule framed_shared [OF fr get_new_blocks_inv [OF lp get] b(2) allocate_layout [OF b(1)] lp_inv_other_alloc [OF _ b(1)]])
qed

lemma framed_free_shared:
  assumes fr: "framed N R ix (SharedPools a l)" and blk: "\<forall>b\<in>set bs. \<exists>i. b = Blk i" and free: "lp_free_blocks bs a (l ! ix) = Inr (a', p')"
  shows "framed N R ix (SharedPools a' (l[ix := p'])) \<and> pool_refs ix (SharedPools a' (l[ix := p'])) = shared_refs (a', p')"
proof -
  have lp: "lp_inv a (l ! ix)" using fr by (simp add: framed_def)
  obtain ids where b: "free_bundles (lp_owner (l ! ix)) ids a = Inr a'" "lp_owner p' = lp_owner (l ! ix)"
    using free_blocks_free [OF free] by auto
  show ?thesis
    by (rule framed_shared [OF fr free_blocks_inv [OF lp blk free] b(2) free_bundles_layout [OF b(1)] lp_inv_other_free [OF _ b(1)]])
qed

lemma framed_parts:
  "framed N R ix (Pools l) \<Longrightarrow> ix < length l \<and> gpu_inv (l ! ix)"
  "framed N R ix (SharedPools a ls) \<Longrightarrow> ix < length ls \<and> shared_inv (a, ls ! ix)"
  by (simp_all add: framed_def shared_inv_def)

lemma pools_ops_gpu [simp]:
  "po_get_new_blocks (pools_ops digest ix) n (Pools l) = rbind (get_new_blocks n (l ! ix)) (\<lambda>(bs, p). Inr (bs, Pools (l[ix := p])))"
  "po_free_blocks (pools_ops digest ix) bs (Pools l) = rbind (free_blocks bs (l ! ix)) (\<lambda>p. Inr (Pools (l[ix := p])))"
  "po_touch (pools_ops digest ix) bs (Pools l) = rbind (touch bs (l ! ix)) (\<lambda>p. Inr (Pools (l[ix := p])))"
  "po_cache_full_blocks (pools_ops digest ix) r bs c n bsz gid (Pools l) =
     rbind (cache_full_blocks digest r bs c n bsz gid (l ! ix)) (\<lambda>p. Inr (Pools (l[ix := p])))"
  "po_get_num_free_blocks (pools_ops digest ix) (Pools l) = get_num_free_blocks (l ! ix)"
  "po_blocks_per_bundle (pools_ops digest ix) (Pools l) = 1"
  by (auto simp: pools_ops_def gpu_ops_def set_pool_def upd_pool_def read_pool_def rbind_assoc case_prod_unfold split: sum.splits)

lemma pools_ops_shared [simp]:
  "po_get_new_blocks (pools_ops digest ix) n (SharedPools a ls) =
     rbind (lp_get_new_blocks n a (ls ! ix)) (\<lambda>(bs, a', p). Inr (bs, SharedPools a' (ls[ix := p])))"
  "po_free_blocks (pools_ops digest ix) bs (SharedPools a ls) =
     rbind (lp_free_blocks bs a (ls ! ix)) (\<lambda>(a', p). Inr (SharedPools a' (ls[ix := p])))"
  "po_touch (pools_ops digest ix) bs (SharedPools a ls) = rbind (lp_touch bs (ls ! ix)) (\<lambda>p. Inr (SharedPools a (ls[ix := p])))"
  "po_cache_full_blocks (pools_ops digest ix) r bs c n bsz gid (SharedPools a ls) =
     rbind (lp_cache_full_blocks (ls ! ix)) (\<lambda>p. Inr (SharedPools a (ls[ix := p])))"
  "po_get_num_free_blocks (pools_ops digest ix) (SharedPools a ls) = lp_get_num_free_blocks a (ls ! ix)"
  "po_blocks_per_bundle (pools_ops digest ix) (SharedPools a ls) = blocks_per_bundle (layout a) (lp_owner (ls ! ix))"
  by (auto simp: pools_ops_def Let_def shared_ops_def set_pool_def upd_pool_def read_pool_def rbind_assoc case_prod_unfold split: sum.splits)

lemma pools_get_ok:
  assumes fr: "framed N R ix ps" and n: "0 \<le> n" "n \<le> po_get_num_free_blocks (pools_ops digest ix) ps"
  shows "\<exists>bs ps'. po_get_new_blocks (pools_ops digest ix) n ps = Inr (bs, ps') \<and> framed N R ix ps' \<and> n \<le> int (length bs) \<and>
    distinct bs \<and> (\<forall>b\<in>set bs. b \<noteq> Blk 0 \<and> pool_refs ix ps b = 0) \<and>
    pool_refs ix ps' = (\<lambda>b. if b \<in> set bs then 1 else pool_refs ix ps b) \<and>
    po_get_num_free_blocks (pools_ops digest ix) ps' = po_get_num_free_blocks (pools_ops digest ix) ps - int (length bs)"
proof (cases ps)
  case (Pools l)
  have ix: "ix < length l" "gpu_inv (l ! ix)" using framed_parts(1) fr unfolding Pools by blast+
  obtain bs p' where get: "get_new_blocks n (l ! ix) = Inr (bs, p')" "gpu_inv p'" "cfg p' = cfg (l ! ix)" "int (length bs) = n" "distinct bs"
    "\<forall>b\<in>set bs. b \<noteq> Blk 0 \<and> gpu_refs (l ! ix) b = 0" "gpu_refs p' = (\<lambda>b. if b \<in> set bs then 1 else gpu_refs (l ! ix) b)"
    "get_num_free_blocks p' = get_num_free_blocks (l ! ix) - int (length bs)"
    using gpu_get_ok [OF ix(2) n(1)] n(2) Pools by auto
  show ?thesis unfolding Pools using framed_gpu [OF fr [unfolded Pools] get(2,3)] get ix by (simp cong: if_cong)
next
  case (SharedPools a ls)
  have ix: "ix < length ls" "shared_inv (a, ls ! ix)" using framed_parts(2) fr unfolding SharedPools by blast+
  obtain bs a' p' where get: "lp_get_new_blocks n a (ls ! ix) = Inr (bs, a', p')" "n \<le> int (length bs)" "distinct bs"
    "\<forall>b\<in>set bs. b \<noteq> Blk 0 \<and> shared_refs (a, ls ! ix) b = 0"
    "shared_refs (a', p') = (\<lambda>b. if b \<in> set bs then 1 else shared_refs (a, ls ! ix) b)"
    "lp_get_num_free_blocks a' p' = lp_get_num_free_blocks a (ls ! ix) - int (length bs)"
    using shared_get_ok [OF ix(2), of n] n(2) SharedPools by (auto simp: shared_ops_def rbind_eq_Inr_iff)
  show ?thesis unfolding SharedPools using framed_get_shared [OF fr [unfolded SharedPools] get(1)] get ix by (simp cong: if_cong)
qed

lemma pools_free_ok:
  assumes fr: "framed N R ix ps" and held: "\<And>b. b \<in> set bs \<Longrightarrow> b \<noteq> Blk 0 \<Longrightarrow> 0 < pool_refs ix ps b"
    and dist: "distinct (filter (\<lambda>b. b \<noteq> Blk 0) bs)"
  shows "\<exists>ps'. po_free_blocks (pools_ops digest ix) bs ps = Inr ps' \<and> framed N R ix ps' \<and>
    pool_refs ix ps' = (\<lambda>b. if b \<in> set bs \<and> b \<noteq> Blk 0 then pool_refs ix ps b - 1 else pool_refs ix ps b)"
proof (cases ps)
  case (Pools l)
  have ix: "ix < length l" "gpu_inv (l ! ix)" using framed_parts(1) fr unfolding Pools by blast+
  obtain p' where free: "free_blocks bs (l ! ix) = Inr p'" "gpu_inv p'" "cfg p' = cfg (l ! ix)"
    "gpu_refs p' = (\<lambda>b. if b \<in> set bs \<and> b \<noteq> Blk 0 then gpu_refs (l ! ix) b - 1 else gpu_refs (l ! ix) b)"
    using gpu_free_ok [OF ix(2) held [unfolded Pools pools_simps] dist] by blast
  show ?thesis unfolding Pools using framed_gpu [OF fr [unfolded Pools] free(2,3)] free ix by (simp cong: if_cong)
next
  case (SharedPools a ls)
  have ix: "ix < length ls" "shared_inv (a, ls ! ix)" using framed_parts(2) fr unfolding SharedPools by blast+
  note held' = held [unfolded SharedPools pools_simps]
  have blk: "\<forall>b\<in>set bs. \<exists>i. b = Blk i" using shared_refs_blk [OF ix(2)] held' by metis
  obtain a' p' where free: "lp_free_blocks bs a (ls ! ix) = Inr (a', p')"
    "shared_refs (a', p') = (\<lambda>b. if b \<in> set bs \<and> b \<noteq> Blk 0 then shared_refs (a, ls ! ix) b - 1 else shared_refs (a, ls ! ix) b)"
    using shared_free_ok [OF ix(2) held' dist] by (auto simp: shared_ops_def)
  show ?thesis unfolding SharedPools using framed_free_shared [OF fr [unfolded SharedPools] blk free(1)] free ix by (simp cong: if_cong)
qed

lemma pools_touch_inv:
  assumes fr: "framed N R ix ps" and valid: "\<And>b. b \<in> set bs \<Longrightarrow> pool_valid ix ps b" and touch: "po_touch (pools_ops digest ix) bs ps = Inr ps'"
  shows "framed N R ix ps' \<and> pool_refs ix ps' = (\<lambda>b. if b = Blk 0 then 0 else pool_refs ix ps b + int (count_list bs b))"
proof (cases ps)
  case (Pools l)
  have ix: "ix < length l" "gpu_inv (l ! ix)" using framed_parts(1) fr unfolding Pools by blast+
  obtain p' where p': "touch bs (l ! ix) = Inr p'" "gpu_inv p'" "cfg p' = cfg (l ! ix)"
    "gpu_refs p' = (\<lambda>b. if b = Blk 0 then 0 else gpu_refs (l ! ix) b + int (count_list bs b))"
    using gpu_touch_ok [OF ix(2) valid [unfolded Pools pools_simps]] by blast
  show ?thesis unfolding Pools using framed_gpu [OF fr [unfolded Pools] p'(2,3)] p' ix touch [unfolded Pools] by (auto cong: if_cong)
qed (use touch in \<open>simp add: lp_touch_def\<close>)

lemma pools_cache_inv:
  assumes fr: "framed N R ix ps" and refd: "\<And>b. b \<in> set bs \<Longrightarrow> b = Blk 0 \<or> 0 < pool_refs ix ps b"
    and cache: "po_cache_full_blocks (pools_ops digest ix) r bs c n bsz gid ps = Inr ps'"
  shows "framed N R ix ps' \<and> pool_refs ix ps' = pool_refs ix ps \<and>
    po_get_num_free_blocks (pools_ops digest ix) ps' = po_get_num_free_blocks (pools_ops digest ix) ps"
proof (cases ps)
  case (Pools l)
  have ix: "ix < length l" "gpu_inv (l ! ix)" using framed_parts(1) fr unfolding Pools by blast+
  obtain p' where p': "cache_full_blocks digest r bs c n bsz gid (l ! ix) = Inr p'" "ps' = Pools (l[ix := p'])"
    using cache by (auto simp: Pools rbind_eq_Inr_iff)
  show ?thesis
    using gpu_cache_inv [OF ix(2) refd [unfolded Pools pools_simps] p'(1)] framed_gpu [OF fr [unfolded Pools], of p'] p'(2) ix by (simp add: Pools)
qed (use cache in \<open>simp add: lp_cache_full_blocks_def\<close>)

lemma pools_refs_basic:
  assumes "framed N R ix ps"
  shows "0 \<le> pool_refs ix ps b" and "pool_refs ix ps (Blk 0) = 0" and "0 < po_blocks_per_bundle (pools_ops digest ix) ps"
  using assms framed_parts gpu.refs_nonneg gpu.refs_null shared.refs_nonneg shared.refs_null
    shared.bundle_pos [of "(a, ls ! ix)" for a ls, unfolded shared_ops_def pool_ops.simps prod.case]
  by (cases ps; fastforce)+

interpretation group_pool: kv_pool "pools_ops digest ix" "framed N R ix" "pool_refs ix" "pool_valid ix"
proof
  fix ps n
  assume "framed N R ix ps" and "po_get_num_free_blocks (pools_ops digest ix) ps < n"
  then show "po_get_new_blocks (pools_ops digest ix) n ps = Inl ValueError"
    by (cases ps) (auto simp: get_new_blocks_def lp_get_new_blocks_def)
qed (rule pools_refs_basic pools_get_ok pools_free_ok pools_touch_inv pools_cache_inv; assumption | blast)+

end
