(* ===== verification/KV_Cache_Manager.thy ===== *)
theory KV_Cache_Manager
  imports Coordinator
begin

text \<open>
  \<^verbatim>\<open>vllm/v1/core/kv_cache_manager.py\<close>: the interface between the scheduler and the cache. The
  allocation result \<^verbatim>\<open>KVCacheBlocks\<close> is compared by identity with the manager's pre-built empty
  instance, so that instance is a constructor of its own.
\<close>

section \<open>Allocation results\<close>

datatype kv_cache_blocks =
    Empty_Blocks
  | KVCacheBlocks "blk list list"

definition kcb_blocks :: "nat \<Rightarrow> kv_cache_blocks \<Rightarrow> blk list list" where
  "kcb_blocks num_groups k = (case k of Empty_Blocks \<Rightarrow> replicate num_groups [] | KVCacheBlocks bs \<Rightarrow> bs)"

definition kcb_add :: "nat \<Rightarrow> kv_cache_blocks \<Rightarrow> kv_cache_blocks \<Rightarrow> kv_cache_blocks" where
  "kcb_add n k l = KVCacheBlocks (map (\<lambda>(x, y). x @ y) (zip (kcb_blocks n k) (kcb_blocks n l)))"

text \<open>The attributes of a block of group \<open>g\<close> are those the store gives.\<close>

type_synonym block_view = "nat \<Rightarrow> blk \<Rightarrow> kv_block"

definition kcb_get_block_ids :: "block_view \<Rightarrow> nat \<Rightarrow> bool \<Rightarrow> kv_cache_blocks \<Rightarrow> int list list option" where
  "kcb_get_block_ids view n allow_none k =
     (if allow_none \<and> (\<forall>bs\<in>set (kcb_blocks n k). bs = []) then None
      else Some (map (\<lambda>(g, bs). map (\<lambda>b. block_id (view g b)) bs) (enumerate 0 (kcb_blocks n k))))"

definition get_unhashed_block_ids :: "block_view \<Rightarrow> nat \<Rightarrow> kv_cache_blocks \<Rightarrow> int list res" where
  "get_unhashed_block_ids view n k =
     (case kcb_blocks n k of
        [bs] \<Rightarrow> Inr (map (\<lambda>b. block_id (view 0 b)) (filter (\<lambda>b. block_hash (view 0 b) = None) bs))
      | _ \<Rightarrow> Inl AssertionError)"

definition get_unhashed_block_ids_all_groups :: "block_view \<Rightarrow> nat \<Rightarrow> kv_cache_blocks \<Rightarrow> int list list" where
  "get_unhashed_block_ids_all_groups view n k =
     map (\<lambda>(g, bs). map (\<lambda>b. block_id (view g b)) (filter (\<lambda>b. block_hash (view g b) = None \<and> \<not> is_null (view g b)) bs))
       (enumerate 0 (kcb_blocks n k))"

definition kcb_new_empty :: "nat \<Rightarrow> kv_cache_blocks \<Rightarrow> kv_cache_blocks" where
  "kcb_new_empty n k = KVCacheBlocks (replicate (length (kcb_blocks n k)) [])"

section \<open>The manager\<close>

record prefix_cache_stats =
  stats_reset :: bool
  stats_requests :: int
  stats_queries :: int
  stats_hits :: int
  preempted_requests :: int
  preempted_queries :: int
  preempted_hits :: int

definition PrefixCacheStats :: prefix_cache_stats where
  "PrefixCacheStats = \<lparr>stats_reset = False, stats_requests = 0, stats_queries = 0, stats_hits = 0,
     preempted_requests = 0, preempted_queries = 0, preempted_hits = 0\<rparr>"

definition stats_record :: "int \<Rightarrow> int \<Rightarrow> bool \<Rightarrow> prefix_cache_stats \<Rightarrow> prefix_cache_stats" where
  "stats_record ntok nhits preempted s =
     (if preempted
      then s\<lparr>preempted_requests := preempted_requests s + 1, preempted_queries := preempted_queries s + ntok,
             preempted_hits := preempted_hits s + nhits\<rparr>
      else s\<lparr>stats_requests := stats_requests s + 1, stats_queries := stats_queries s + ntok, stats_hits := stats_hits s + nhits\<rparr>)"

record kv_cache_manager =
  kvm_max_model_len :: int
  kvm_enable_caching :: bool
  kvm_use_eagle :: bool
  log_stats :: bool
  prefix_stats :: "prefix_cache_stats option"
  coord :: coordinator
  num_kv_cache_groups :: nat

definition KVCacheManager ::
  "(dtype \<Rightarrow> int) \<Rightarrow> embeds_digest \<Rightarrow> environ \<Rightarrow> bool \<Rightarrow> kv_cache_config \<Rightarrow> int \<Rightarrow> int \<Rightarrow> bool \<Rightarrow> bool \<Rightarrow> bool \<Rightarrow> bool \<Rightarrow>
    int \<Rightarrow> int \<Rightarrow> kv_cache_manager res" where
  "KVCacheManager dsize digest env use_int kvc max_len hbs caching eagle stats events dcp pcp =
     rbind (get_kv_cache_coordinator dsize digest env use_int kvc max_len eagle caching events dcp pcp hbs) (\<lambda>c.
       Inr \<lparr>kvm_max_model_len = max_len, kvm_enable_caching = caching, kvm_use_eagle = eagle, log_stats = stats,
            prefix_stats = (if stats then Some PrefixCacheStats else None), coord = c,
            num_kv_cache_groups = length (kv_cache_groups kvc)\<rparr>)"

definition make_prefix_cache_stats :: "kv_cache_manager \<Rightarrow> prefix_cache_stats option \<times> kv_cache_manager" where
  "make_prefix_cache_stats k =
     (if \<not> log_stats k then (None, k) else (prefix_stats k, k\<lparr>prefix_stats := Some PrefixCacheStats\<rparr>))"

definition create_kv_cache_blocks :: "blk list list \<Rightarrow> kv_cache_blocks" where
  "create_kv_cache_blocks bs = (if \<exists>b\<in>set bs. b \<noteq> [] then KVCacheBlocks bs else Empty_Blocks)"

definition get_computed_blocks :: "request \<Rightarrow> kv_cache_manager \<Rightarrow> (kv_cache_blocks \<times> int \<times> kv_cache_manager) res option" where
  "get_computed_blocks r k =
     (if \<not> kvm_enable_caching k \<or> skip_reading_prefix_cache r then Some (Inr (Empty_Blocks, 0, k))
      else (case co_find_longest_cache_hit (coord k) (block_hashes r) (num_tokens r - 1) of
              None \<Rightarrow> None
            | Some (Inl e) \<Rightarrow> Some (Inl e)
            | Some (Inr (computed, n)) \<Rightarrow>
                if log_stats k
                then (case prefix_stats k of
                        None \<Rightarrow> Some (Inl AssertionError)
                      | Some s \<Rightarrow> Some (Inr (create_kv_cache_blocks computed, n,
                          k\<lparr>prefix_stats := Some (stats_record (num_tokens r) n (num_preemptions r > 0) s)\<rparr>)))
                else Some (Inr (create_kv_cache_blocks computed, n, k))))"

text \<open>The result is the new blocks, \<^verbatim>\<open>None\<close> when there are too few free blocks, with the request, whose
  compact flag may be set, and the manager.\<close>

definition allocate_slots ::
  "embeds_digest \<Rightarrow> request \<Rightarrow> int \<Rightarrow> int \<Rightarrow> kv_cache_blocks option \<Rightarrow> int \<Rightarrow> int \<Rightarrow> bool \<Rightarrow> int \<Rightarrow> bool \<Rightarrow> kv_cache_manager \<Rightarrow>
    (kv_cache_blocks option \<times> request \<times> kv_cache_manager) res" where
  "allocate_slots digest r num_new num_new_computed new_computed num_lookahead num_external delay_cache nenc compact k =
     (if num_new = 0 \<and> num_external = 0 then Inl ValueError
      else
        (let kb = (case new_computed of None \<Rightarrow> Empty_Blocks | Some x \<Rightarrow> x);
             ncb = kcb_blocks (num_kv_cache_groups k) kb;
             rid = request_id r;
             num_local = num_computed_tokens r + num_new_computed;
             ntotal = min (num_local + num_external) (kvm_max_model_len k);
             nmain = ntotal + num_new;
             need = min (nmain + num_lookahead) (kvm_max_model_len k)
         in rbind (co_remove_skipped_blocks digest rid ntotal (coord k)) (\<lambda>c1.
            rbind (has_enough_free_blocks digest rid need ncb nenc (num_local + num_external) nmain compact c1) (\<lambda>(ok, c2).
            if \<not> ok then Inr (None, r, k\<lparr>coord := c2\<rparr>)
            else
              rbind (if kb \<noteq> Empty_Blocks \<or> num_external > 0
                     then co_allocate_new_computed_blocks digest rid ncb num_local num_external compact c2
                     else Inr c2) (\<lambda>c3.
              rbind (co_allocate_new_blocks digest rid need nmain nenc compact c3) (\<lambda>(new_blocks, c4).
              let r' = (if compact then r\<lparr>dsa_compact_allocated := True\<rparr> else r)
              in if \<not> kvm_enable_caching k \<or> delay_cache
                 then Inr (Some (create_kv_cache_blocks new_blocks), r', k\<lparr>coord := c4\<rparr>)
                 else rbind (co_cache_blocks digest r' (min (ntotal + num_new) (num_tokens r')) c4) (\<lambda>c5.
                        Inr (Some (create_kv_cache_blocks new_blocks), r', k\<lparr>coord := c5\<rparr>))))))))"

definition kvm_free :: "embeds_digest \<Rightarrow> request \<Rightarrow> kv_cache_manager \<Rightarrow> kv_cache_manager res" where
  "kvm_free digest r k = rbind (co_free digest (request_id r) (coord k)) (\<lambda>c. Inr (k\<lparr>coord := c\<rparr>))"

definition kvm_remove_skipped_blocks :: "embeds_digest \<Rightarrow> string \<Rightarrow> int \<Rightarrow> kv_cache_manager \<Rightarrow> kv_cache_manager res" where
  "kvm_remove_skipped_blocks digest rid ntotal k =
     rbind (co_remove_skipped_blocks digest rid ntotal (coord k)) (\<lambda>c. Inr (k\<lparr>coord := c\<rparr>))"

definition kvm_remove_saved_decode_window_blocks :: "embeds_digest \<Rightarrow> string \<Rightarrow> int \<Rightarrow> kv_cache_manager \<Rightarrow> (int \<times> kv_cache_manager) res" where
  "kvm_remove_saved_decode_window_blocks digest rid committed_end k =
     rbind (co_remove_saved_decode_window_blocks digest rid committed_end (coord k)) (\<lambda>(n, c). Inr (n, k\<lparr>coord := c\<rparr>))"

definition pools_evict :: "int list \<Rightarrow> pools \<Rightarrow> pools res" where
  "pools_evict ids ps =
     (case ps of
        Pools l \<Rightarrow> rbind (rmap (evict_blocks ids) l) (\<lambda>l'. Inr (Pools l'))
      | SharedPools a l \<Rightarrow> rbind (rmap (lp_evict_blocks ids) l) (\<lambda>l'. Inr (SharedPools a l')))"

definition kvm_evict_blocks :: "int list \<Rightarrow> kv_cache_manager \<Rightarrow> kv_cache_manager res" where
  "kvm_evict_blocks ids k =
     rbind (pools_evict ids (co_pools (coord k))) (\<lambda>ps. Inr (k\<lparr>coord := (coord k)\<lparr>co_pools := ps\<rparr>\<rparr>))"

text \<open>\<^verbatim>\<open>all(pool.reset_prefix_cache() ...)\<close> stops at the first pool that refuses.\<close>

fun reset_all :: "block_pool list \<Rightarrow> bool \<times> block_pool list" where
  "reset_all [] = (True, [])"
| "reset_all (p # ps) =
     (let (ok, p') = reset_prefix_cache p
      in if ok then (let (ok', ps') = reset_all ps in (ok', p' # ps')) else (False, p' # ps))"

definition pools_reset :: "pools \<Rightarrow> bool \<times> pools" where
  "pools_reset ps =
     (case ps of
        Pools l \<Rightarrow> (let (ok, l') = reset_all l in (ok, Pools l'))
      | SharedPools a l \<Rightarrow> (True, SharedPools a (map (\<lambda>p. snd (lp_reset_prefix_cache p)) l)))"

definition kvm_reset_prefix_cache :: "kv_cache_manager \<Rightarrow> (bool \<times> kv_cache_manager) res" where
  "kvm_reset_prefix_cache k =
     (let (ok, ps) = pools_reset (co_pools (coord k)); k1 = k\<lparr>coord := (coord k)\<lparr>co_pools := ps\<rparr>\<rparr>
      in if \<not> ok then Inr (False, k1)
         else if log_stats k
         then (case prefix_stats k of
                 None \<Rightarrow> Inl AssertionError
               | Some s \<Rightarrow> Inr (True, k1\<lparr>prefix_stats := Some (s\<lparr>stats_reset := True\<rparr>)\<rparr>))
         else Inr (True, k1))"

definition kvm_get_num_common_prefix_blocks :: "embeds_digest \<Rightarrow> string \<Rightarrow> kv_cache_manager \<Rightarrow> (int list \<times> kv_cache_manager) res" where
  "kvm_get_num_common_prefix_blocks digest rid k =
     rbind (co_get_num_common_prefix_blocks digest rid (coord k)) (\<lambda>(ns, c). Inr (ns, k\<lparr>coord := c\<rparr>))"

definition pools_take_events :: "pools \<Rightarrow> kv_event list \<times> pools" where
  "pools_take_events ps =
     (case ps of
        Pools l \<Rightarrow> (concat (map (\<lambda>p. fst (take_events p)) l), Pools (map (\<lambda>p. snd (take_events p)) l))
      | SharedPools a l \<Rightarrow> ([], SharedPools a l))"

definition kvm_take_events :: "kv_cache_manager \<Rightarrow> kv_event list \<times> kv_cache_manager" where
  "kvm_take_events k =
     (let (evs, ps) = pools_take_events (co_pools (coord k)) in (evs, k\<lparr>coord := (coord k)\<lparr>co_pools := ps\<rparr>\<rparr>))"

definition kvm_get_blocks :: "kv_cache_manager \<Rightarrow> string \<Rightarrow> kv_cache_blocks" where
  "kvm_get_blocks k rid = create_kv_cache_blocks (co_get_blocks (coord k) rid)"

definition kvm_get_block_ids :: "kv_cache_manager \<Rightarrow> string \<Rightarrow> int list list option" where
  "kvm_get_block_ids k rid = kcb_get_block_ids (co_block (coord k)) (num_kv_cache_groups k) False (kvm_get_blocks k rid)"

definition kvm_cache_blocks :: "embeds_digest \<Rightarrow> request \<Rightarrow> int \<Rightarrow> kv_cache_manager \<Rightarrow> kv_cache_manager res" where
  "kvm_cache_blocks digest r n k =
     (if kvm_enable_caching k then rbind (co_cache_blocks digest r n (coord k)) (\<lambda>c. Inr (k\<lparr>coord := c\<rparr>)) else Inr k)"

definition kvm_take_new_block_ids :: "kv_cache_manager \<Rightarrow> int list \<times> kv_cache_manager" where
  "kvm_take_new_block_ids k =
     (let ms = single_type_managers (coord k)
      in (concat (map (\<lambda>m. fst (take_new_block_ids m)) ms),
          k\<lparr>coord := (coord k)\<lparr>single_type_managers := map (\<lambda>m. snd (take_new_block_ids m)) ms\<rparr>\<rparr>))"

definition kvm_new_step_starts :: "kv_cache_manager \<Rightarrow> kv_cache_manager" where
  "kvm_new_step_starts k = k\<lparr>coord := co_new_step_starts (coord k)\<rparr>"

end
