(* ===== verification/Coordinator_Loops.thy ===== *)
theory Coordinator_Loops
  imports Coordinator_Invariants KV_Cache_Manager Manager_Properties
begin

text \<open>
  The loops of a coordinator over its managers keep the reference counts, and so does every operation
  of the coordinator and of the cache manager.
\<close>

section \<open>Counting over managers\<close>

text \<open>The sum of \<open>h\<close> over the managers on pool \<open>j\<close>, for managers from index \<open>i\<close> on; the table entries that
  name block \<open>b\<close> are such a sum.\<close>

fun ms_sum :: "(manager \<Rightarrow> nat) \<Rightarrow> (nat \<Rightarrow> nat) \<Rightarrow> nat \<Rightarrow> manager list \<Rightarrow> nat \<Rightarrow> nat" where
  "ms_sum h ix i [] j = 0"
| "ms_sum h ix i (m # ms) j = (if ix i = j then h m else 0) + ms_sum h ix (Suc i) ms j"

abbreviation ms_held :: "(nat \<Rightarrow> nat) \<Rightarrow> nat \<Rightarrow> manager list \<Rightarrow> nat \<Rightarrow> blk \<Rightarrow> nat" where
  "ms_held ix i ms j b \<equiv> ms_sum (\<lambda>m. held m b) ix i ms j"

definition ms_inv :: "pool_signature \<Rightarrow> (nat \<Rightarrow> nat) \<Rightarrow> nat \<Rightarrow> (nat \<Rightarrow> blk \<Rightarrow> int) \<Rightarrow> manager list \<Rightarrow> pools \<Rightarrow> bool" where
  "ms_inv N ix i ext ms ps \<longleftrightarrow>
     pools_ok ps \<and> pool_sig ps = N \<and> (\<forall>m\<in>set ms. tables_ok m) \<and> (\<forall>k. i \<le> k \<and> k < i + length ms \<longrightarrow> ix k < npools ps) \<and>
     (\<forall>j b. 0 \<le> ext j b) \<and> (\<forall>j<npools ps. \<forall>b. b \<noteq> Blk 0 \<longrightarrow> pool_refs j ps b = ext j b + int (ms_held ix i ms j b))"

text \<open>What one manager sees of the others.\<close>

lemma ms_inv_head:
  assumes "ms_inv N ix i ext (m # ms) ps"
  shows "mgr_inv (framed N (\<lambda>j. pool_refs j ps) (ix i)) (pool_refs (ix i)) (\<lambda>b. ext (ix i) b + int (ms_held ix (Suc i) ms (ix i) b)) m ps"
proof -
  have ix: "ix i < npools ps" using assms by (simp add: ms_inv_def)
  then have "pool_refs (ix i) ps b = ext (ix i) b + int (held m b + ms_held ix (Suc i) ms (ix i) b)" if "b \<noteq> Blk 0" for b
    using assms that by (simp add: ms_inv_def)
  moreover have "framed N (\<lambda>j. pool_refs j ps) (ix i) ps" using assms ix by (simp add: framed_def ms_inv_def)
  moreover have "tables_ok m" "0 \<le> ext (ix i) b" for b using assms by (simp_all add: ms_inv_def)
  ultimately show ?thesis unfolding mgr_inv_def by simp
qed

lemma ms_inv_tail:
  assumes ms: "ms_inv N ix i ext (m # ms) ps"
    and m': "mgr_inv (framed N (\<lambda>j. pool_refs j ps) (ix i)) (pool_refs (ix i)) (\<lambda>b. ext (ix i) b + int (ms_held ix (Suc i) ms (ix i) b)) m' ps'"
  shows "ms_inv N ix (Suc i) (\<lambda>j b. ext j b + int (if ix i = j then held m' b else 0)) ms ps'"
proof -
  have fr: "framed N (\<lambda>j. pool_refs j ps) (ix i) ps'" by (rule mgr_invD(1) [OF m'])
  then have np: "npools ps' = npools ps" using ms npools_sig [of ps' ps] by (simp add: framed_def ms_inv_def)
  have "pool_refs j ps' b = ext j b + int (if ix i = j then held m' b else 0) + int (ms_held ix (Suc i) ms j b)"
    if "j < npools ps" "b \<noteq> Blk 0" for j b
  proof (cases "ix i = j")
    case True
    then show ?thesis using mgr_invD(4) [OF m' that(2)] by simp
  next
    case False
    then have "pool_refs j ps' = pool_refs j ps" using fr that(1) np by (simp add: framed_def)
    then show ?thesis using ms that False by (simp add: ms_inv_def)
  qed
  moreover have "pools_ok ps' \<and> pool_sig ps' = N" using fr by (simp add: framed_def)
  moreover have "(\<forall>m\<in>set ms. tables_ok m) \<and> (\<forall>k. Suc i \<le> k \<and> k < Suc i + length ms \<longrightarrow> ix k < npools ps')"
    and "0 \<le> ext j b + int (if ix i = j then held m' b else 0)" for j b
    using ms unfolding ms_inv_def np by simp_all
  ultimately show ?thesis unfolding ms_inv_def np by blast
qed

lemma ms_inv_cons:
  assumes "ms_inv N ix (Suc i) (\<lambda>j b. ext j b + int (if ix i = j then held m b else 0)) ms ps" and "tables_ok m" and "ix i < npools ps"
    and "\<forall>j b. 0 \<le> ext j b"
  shows "ms_inv N ix i ext (m # ms) ps"
proof -
  have "ix k < npools ps" if "i \<le> k" "k < i + length (m # ms)" for k
    using assms(1,3) that by (cases "k = i") (auto simp: ms_inv_def)
  moreover have "pool_refs j ps b = ext j b + int (ms_held ix i (m # ms) j b)" if "j < npools ps" "b \<noteq> Blk 0" for j b
    using assms(1) that by (simp add: ms_inv_def)
  ultimately show ?thesis using assms(1,2,4) unfolding ms_inv_def by auto
qed

text \<open>A loop whose body makes manager steps keeps the counts.\<close>

lemma run_managers_inv:
  assumes "ms_inv N ix i ext ms ps" and "run_managers f i ms ps = Inr (xs, ms', ps')"
    and "\<And>k m ps R ext x m' ps'. i \<le> k \<Longrightarrow> k < i + length ms \<Longrightarrow> m = ms ! (k - i) \<Longrightarrow> pool_sig ps = N \<Longrightarrow>
      mgr_inv (framed N R (ix k)) (pool_refs (ix k)) ext m ps \<Longrightarrow>
      f k (m, ps) = Inr (x, m', ps') \<Longrightarrow> mgr_inv (framed N R (ix k)) (pool_refs (ix k)) ext m' ps'"
  shows "ms_inv N ix i ext ms' ps' \<and> length ms' = length ms"
  using assms
proof (induction ms arbitrary: i ext ps xs ms' ps')
  case (Cons m ms)
  obtain x m1 ps1 xs1 ms1 where run: "f i (m, ps) = Inr (x, m1, ps1)" "run_managers f (Suc i) ms ps1 = Inr (xs1, ms1, ps')" "ms' = m1 # ms1"
    using Cons.prems(2) by (auto simp: rbind_eq_Inr_iff)
  note head = ms_inv_head [OF Cons.prems(1)]
  have m1: "mgr_inv (framed N (\<lambda>j. pool_refs j ps) (ix i)) (pool_refs (ix i)) (\<lambda>b. ext (ix i) b + int (ms_held ix (Suc i) ms (ix i) b)) m1 ps1"
    using Cons.prems(1) by (intro Cons.prems(3) [OF _ _ _ _ head run(1)]) (simp_all add: ms_inv_def)
  have rest: "ms_inv N ix (Suc i) (\<lambda>j b. ext j b + int (if ix i = j then held m1 b else 0)) ms1 ps' \<and> length ms1 = length ms"
  proof (rule Cons.IH [OF ms_inv_tail [OF Cons.prems(1) m1] run(2)])
    fix k n qs R e y n' qs'
    assume k: "Suc i \<le> k" "k < Suc i + length ms" "n = ms ! (k - Suc i)" "pool_sig qs = N"
      "mgr_inv (framed N R (ix k)) (pool_refs (ix k)) e n qs" "f k (n, qs) = Inr (y, n', qs')"
    then have "n = (m # ms) ! (k - i)" using nth_Cons_Suc [of m ms "k - Suc i"] by (simp add: Suc_diff_Suc)
    then show "mgr_inv (framed N R (ix k)) (pool_refs (ix k)) e n' qs'" using Cons.prems(3) [of k n qs R e y n' qs'] k by simp
  qed
  have "ix i < npools ps'"
    using Cons.prems(1) rest npools_sig [of ps' ps] by (auto simp: ms_inv_def)
  moreover have "\<forall>j b. 0 \<le> ext j b" using Cons.prems(1) by (simp add: ms_inv_def)
  ultimately have "ms_inv N ix i ext (m1 # ms1) ps'" by (intro ms_inv_cons [OF conjunct1 [OF rest] mgr_invD(2) [OF m1]])
  then show ?case using rest run(3) by simp
qed simp

text \<open>A loop whose body always succeeds succeeds.\<close>

lemma run_managers_total:
  assumes "ms_inv N ix i ext ms ps"
    and "\<And>k m ps R ext. mgr_inv (framed N R (ix k)) (pool_refs (ix k)) ext m ps \<Longrightarrow>
      \<exists>x m' ps'. f k (m, ps) = Inr (x, m', ps') \<and> mgr_inv (framed N R (ix k)) (pool_refs (ix k)) ext m' ps' \<and> P m m'"
  shows "\<exists>xs ms' ps'. run_managers f i ms ps = Inr (xs, ms', ps') \<and> ms_inv N ix i ext ms' ps' \<and> list_all2 P ms ms'"
  using assms(1)
proof (induction ms arbitrary: i ext ps)
  case (Cons m ms)
  obtain x m1 ps1 where run: "f i (m, ps) = Inr (x, m1, ps1)" "P m m1"
    and m1: "mgr_inv (framed N (\<lambda>j. pool_refs j ps) (ix i)) (pool_refs (ix i)) (\<lambda>b. ext (ix i) b + int (ms_held ix (Suc i) ms (ix i) b)) m1 ps1"
    using assms(2) [OF ms_inv_head [OF Cons.prems]] by blast
  obtain xs ms' ps' where rest: "run_managers f (Suc i) ms ps1 = Inr (xs, ms', ps')" "list_all2 P ms ms'"
      "ms_inv N ix (Suc i) (\<lambda>j b. ext j b + int (if ix i = j then held m1 b else 0)) ms' ps'"
    using Cons.IH [OF ms_inv_tail [OF Cons.prems m1]] by blast
  have "ix i < npools ps'" and "\<forall>j b. 0 \<le> ext j b"
    using Cons.prems rest(3) npools_sig [of ps' ps] by (auto simp: ms_inv_def)
  then have "ms_inv N ix i ext (m1 # ms') ps'" by (intro ms_inv_cons [OF rest(3) mgr_invD(2) [OF m1]])
  then show ?case using rest(1,2) run by simp
qed simp

lemma run_managers_core:
  assumes "run_managers f i ms ps = Inr (xs, ms', ps')"
    and "\<And>k m ps x m' ps'. f k (m, ps) = Inr (x, m', ps') \<Longrightarrow> mgr_core m' = mgr_core m"
  shows "map mgr_core ms' = map mgr_core ms"
  using assms(1)
proof (induction ms arbitrary: i ps xs ms' ps')
  case (Cons m ms)
  obtain x m1 ps1 xs1 ms1 where run: "f i (m, ps) = Inr (x, m1, ps1)" "run_managers f (Suc i) ms ps1 = Inr (xs1, ms1, ps')" "ms' = m1 # ms1"
    using Cons.prems by (auto simp: rbind_eq_Inr_iff)
  then show ?case using Cons.IH [OF run(2)] assms(2) [OF run(1)] by simp
qed simp

section \<open>The invariant of a coordinator\<close>

definition co_inv :: "coordinator \<Rightarrow> bool" where
  "co_inv c \<longleftrightarrow> ms_inv (pool_sig (co_pools c)) (co_pool_index c) 0 (\<lambda>_ _. 0) (single_type_managers c) (co_pools c)"

text \<open>What the operations keep: everything but the managers' tables and the contents of the pools.\<close>

definition co_shape :: "coordinator \<Rightarrow> coordinator \<times> nat \<times> pool_signature" where
  "co_shape c = (c\<lparr>single_type_managers := [], co_pools := Pools [], dsa_last_starve := None\<rparr>,
     length (single_type_managers c), pool_sig (co_pools c))"

lemma co_pool_index_shape: "co_shape c' = co_shape c \<Longrightarrow> co_pool_index c' = co_pool_index c"
  by (cases c; cases c') (simp add: co_shape_def co_pool_index_def fun_eq_iff)

lemma for_managersE:
  assumes "for_managers f c = Inr (xs, c')"
  obtains ms ps where "run_managers f 0 (single_type_managers c) (co_pools c) = Inr (xs, ms, ps)"
    and "c' = c\<lparr>single_type_managers := ms, co_pools := ps\<rparr>"
  using assms by (auto simp: for_managers_def rbind_eq_Inr_iff)

text \<open>A loop whose body makes steps of the managers.\<close>

lemma for_managers_inv:
  assumes inv: "co_inv c" and loop: "for_managers f c = Inr (xs, c')"
    and step: "\<And>k m ps x s. k < length (single_type_managers c) \<Longrightarrow> m = single_type_managers c ! k \<Longrightarrow>
      pool_sig ps = pool_sig (co_pools c) \<Longrightarrow> f k (m, ps) = Inr (x, s) \<Longrightarrow>
      mgr_step (pools_ops digest (co_pool_index c k)) (pool_valid (co_pool_index c k)) (m, ps) s \<or> s = (m, ps)"
  shows "co_inv c' \<and> co_shape c' = co_shape c"
proof -
  let ?ix = "co_pool_index c" and ?N = "pool_sig (co_pools c)"
  obtain ms ps where run: "run_managers f 0 (single_type_managers c) (co_pools c) = Inr (xs, ms, ps)"
    and c': "c' = c\<lparr>single_type_managers := ms, co_pools := ps\<rparr>" by (rule for_managersE [OF loop])
  have "ms_inv ?N ?ix 0 (\<lambda>_ _. 0) ms ps \<and> length ms = length (single_type_managers c)"
  proof (rule run_managers_inv [OF inv [unfolded co_inv_def] run])
    fix k m qs R e x m' qs'
    assume k: "k < 0 + length (single_type_managers c)" "m = single_type_managers c ! (k - 0)" "pool_sig qs = ?N"
      and m: "mgr_inv (framed ?N R (?ix k)) (pool_refs (?ix k)) e m qs" and f: "f k (m, qs) = Inr (x, m', qs')"
    have "mgr_step (pools_ops digest (?ix k)) (pool_valid (?ix k)) (m, qs) (m', qs') \<or> (m', qs') = (m, qs)" using step [OF _ _ k(3) f] k by simp
    then show "mgr_inv (framed ?N R (?ix k)) (pool_refs (?ix k)) e m' qs'" using group_pool.mgr_step_inv [of digest "?ix k" "(m, qs)" "(m', qs')" ?N R e] m by auto
  qed
  moreover have "co_pool_index c' = ?ix" by (simp add: c' co_pool_index_def fun_eq_iff)
  ultimately show ?thesis by (auto simp: co_inv_def c' co_shape_def ms_inv_def)
qed

section \<open>The operations of a coordinator\<close>

lemma void_eq [simp]: "void r = Inr (x, s) \<longleftrightarrow> r = Inr s"
  by (cases r) (auto simp: void_def)

lemmas co_step_simps = rbind_eq_Inr_iff rassert_eq_Inr_iff Let_def case_prod_unfold

lemma co_remove_skipped_inv:
  assumes "co_inv c" and "co_remove_skipped_blocks digest rid t c = Inr c'"
  shows "co_inv c' \<and> co_shape c' = co_shape c"
proof -
  obtain xs where "for_managers (\<lambda>i s. void (remove_skipped_blocks (pools_ops digest (co_pool_index c i)) rid t s)) c = Inr (xs, c')"
    using assms(2) by (auto simp: co_remove_skipped_blocks_def rbind_eq_Inr_iff)
  then show ?thesis by (rule for_managers_inv [OF assms(1)]) (auto intro: mgr_step.Skip)
qed

lemma co_counts_inv:
  assumes "co_inv c" and "get_num_blocks_to_allocate_per_group digest rid n ncb nenc t nmain compact c = Inr (ks, c')"
  shows "co_inv c' \<and> co_shape c' = co_shape c"
proof (rule for_managers_inv [OF assms(1) assms(2) [unfolded get_num_blocks_to_allocate_per_group_def]])
  fix k m ps x s
  assume "co_num_blocks digest c rid n ncb nenc t nmain compact k (m, ps) = Inr (x, s)"
  then show "mgr_step (pools_ops digest (co_pool_index c k)) (pool_valid (co_pool_index c k)) (m, ps) s \<or> s = (m, ps)"
    by (auto simp: co_num_blocks_def co_step_simps split: if_splits
        intro!: mgr_step.Count mgr_step.Compact_Count [OF _ surjective_pairing])
qed

lemma co_inv_starve: "co_inv (c\<lparr>dsa_last_starve := x\<rparr>) = co_inv c" "co_shape (c\<lparr>dsa_last_starve := x\<rparr>) = co_shape c"
  by (simp_all add: co_inv_def co_shape_def co_pool_index_def [abs_def])

lemma has_enough_counts:
  assumes "has_enough_free_blocks digest rid n ncb nenc t nmain compact c = Inr (ok, c')"
  obtains ks c1 x where "get_num_blocks_to_allocate_per_group digest rid n ncb nenc t nmain compact c = Inr (ks, c1)"
    and "c' = c1 \<or> c' = c1\<lparr>dsa_last_starve := x\<rparr>"
  using assms by (auto simp: has_enough_free_blocks_def rbind_eq_Inr_iff Let_def split: if_splits)

lemma has_enough_inv:
  assumes "co_inv c" and "has_enough_free_blocks digest rid n ncb nenc t nmain compact c = Inr (ok, c')"
  shows "co_inv c' \<and> co_shape c' = co_shape c"
  using has_enough_counts [OF assms(2)] co_counts_inv [OF assms(1)] co_inv_starve by metis

text \<open>Computed blocks as the cache search returns them: blocks of the group's pool, none twice, covering no
  more than the computed tokens.\<close>

definition computed_ok :: "coordinator \<Rightarrow> blk list list \<Rightarrow> int \<Rightarrow> bool" where
  "computed_ok c ncb n \<longleftrightarrow> 0 \<le> n \<and>
     (\<forall>k<min (length (single_type_managers c)) (length ncb).
        (\<forall>b\<in>set (ncb ! k). pool_valid (co_pool_index c k) (co_pools c) b) \<and> distinct (real_blocks (ncb ! k)) \<and>
        int (length (ncb ! k)) * mgr_block_size (single_type_managers c ! k) \<le> n)"

lemma computed_ok_shape:
  assumes "computed_ok c ncb n" and "co_shape c' = co_shape c" and "co_inv c" and "map mgr_core (single_type_managers c') = map mgr_core (single_type_managers c)"
  shows "computed_ok c' ncb n"
proof -
  have sig: "pool_sig (co_pools c') = pool_sig (co_pools c)" using assms(2) by (simp add: co_shape_def)
  have len: "length (single_type_managers c') = length (single_type_managers c)" using assms(4) by (rule map_eq_imp_length_eq)
  have "mgr_block_size (single_type_managers c' ! k) = mgr_block_size (single_type_managers c ! k)" and
    "pool_valid (co_pool_index c' k) (co_pools c') = pool_valid (co_pool_index c k) (co_pools c)" if k: "k < length (single_type_managers c)" for k
  proof -
    show "mgr_block_size (single_type_managers c' ! k) = mgr_block_size (single_type_managers c ! k)"
      using arg_cong [OF assms(4), of "\<lambda>l. l ! k"] k len by (simp add: mgr_core_def)
    have "co_pool_index c k < npools (co_pools c)" using assms(3) k by (simp add: co_inv_def ms_inv_def)
    then show "pool_valid (co_pool_index c' k) (co_pools c') = pool_valid (co_pool_index c k) (co_pools c)"
      unfolding co_pool_index_shape [OF assms(2)] by (rule valid_sig [OF sig])
  qed
  then show ?thesis using assms(1) by (simp add: computed_ok_def len)
qed

lemma co_computed_inv:
  assumes inv: "co_inv c" and ok: "computed_ok c ncb (l + e)" and run: "co_allocate_new_computed_blocks digest rid ncb l e compact c = Inr c'"
  shows "co_inv c' \<and> co_shape c' = co_shape c"
proof -
  obtain xs where loop: "for_managers (co_computed digest c rid ncb l e compact) c = Inr (xs, c')"
    using run by (auto simp: co_allocate_new_computed_blocks_def rbind_eq_Inr_iff)
  show ?thesis
  proof (rule for_managers_inv [OF inv loop])
    fix k m ps x s
    let ?ops = "pools_ops digest (co_pool_index c k)"
    assume k: "k < length (single_type_managers c)" and m: "m = single_type_managers c ! k" and sig: "pool_sig ps = pool_sig (co_pools c)"
      and f: "co_computed digest c rid ncb l e compact k (m, ps) = Inr (x, s)"
    then have len: "k < length ncb" by (auto simp: co_computed_def rbind_eq_Inr_iff py_index_def Let_def split: if_splits)
    have "co_pool_index c k < npools (co_pools c)" using inv k by (simp add: co_inv_def ms_inv_def)
    then have valid: "pool_valid (co_pool_index c k) ps = pool_valid (co_pool_index c k) (co_pools c)" by (rule valid_sig [OF sig])
    consider (compact) "mgr_class m = DSALatentManager" "allocate_new_computed_blocks_compact_external ?ops rid (ncb ! k) l e (m, ps) = Inr s"
      | (plain) "allocate_new_computed_blocks ?ops rid (ncb ! k) l e (m, ps) = Inr s"
      using f len by (auto simp: co_computed_def rbind_eq_Inr_iff py_index_def Let_def split: if_splits)
    then show "mgr_step ?ops (pool_valid (co_pool_index c k)) (m, ps) s \<or> s = (m, ps)"
    proof cases
      case compact
      then show ?thesis by (blast intro: mgr_step.Compact_Computed)
    next
      case plain
      show ?thesis by (rule disjI1, rule mgr_step.Computed [OF _ _ _ _ plain])
          (use ok k len in \<open>simp_all add: computed_ok_def valid m\<close>)
    qed
  qed
qed

lemma co_new_inv:
  assumes inv: "co_inv c" and nm: "0 \<le> nmain" and run: "co_allocate_new_blocks digest rid n nmain nenc compact c = Inr (bss, c')"
  shows "co_inv c' \<and> co_shape c' = co_shape c"
  by (rule for_managers_inv [OF inv run [unfolded co_allocate_new_blocks_def]])
    (use nm in \<open>auto simp: co_new_def Let_def split: if_splits intro: mgr_step.New mgr_step.Compact_New\<close>)

lemma co_cache_inv:
  assumes "co_inv c" and "co_cache_blocks digest r n c = Inr c'"
  shows "co_inv c' \<and> co_shape c' = co_shape c"
proof -
  obtain xs where "for_managers (\<lambda>i s. void (cache_blocks (pools_ops digest (co_pool_index c i)) r n s)) c = Inr (xs, c')"
    using assms(2) by (auto simp: co_cache_blocks_def rbind_eq_Inr_iff)
  then show ?thesis by (rule for_managers_inv [OF assms(1)]) (auto intro: mgr_step.Cache)
qed

lemma co_release_inv:
  assumes "co_inv c" and "co_remove_saved_decode_window_blocks digest rid e c = Inr (k, c')"
  shows "co_inv c' \<and> co_shape c' = co_shape c"
proof -
  obtain xs where "for_managers (\<lambda>i s. if mgr_class (fst s) = DSALatentManager
      then remove_saved_decode_window_blocks (pools_ops digest (co_pool_index c i)) rid e s else Inr (0, s)) c = Inr (xs, c')"
    using assms(2) by (auto simp: co_remove_saved_decode_window_blocks_def rbind_eq_Inr_iff)
  then show ?thesis by (rule for_managers_inv [OF assms(1)]) (auto split: if_splits intro: mgr_step.Release)
qed

lemma co_prefix_inv:
  assumes "co_inv c" and "co_get_num_common_prefix_blocks digest rid c = Inr (ks, c')"
  shows "co_inv c' \<and> co_shape c' = co_shape c"
proof (cases "co_class c = KVCacheCoordinatorNoPrefixCache")
  case True
  then show ?thesis using assms by (simp add: co_get_num_common_prefix_blocks_def)
next
  case False
  then show ?thesis using assms(2) unfolding co_get_num_common_prefix_blocks_def if_not_P [OF False]
    by (elim for_managers_inv [OF assms(1)]) (auto simp: case_prod_unfold Let_def intro: mgr_step.Prefix [OF surjective_pairing])
qed

end
