(* ===== verification/Manager_Counts.thy ===== *)
theory Manager_Counts
  imports Coordinator_Loops
begin

text \<open>
  Reference counts of the cache manager from its construction on, over every sequence of its
  operations.
\<close>

section \<open>Construction\<close>

definition cache_config_ok :: "kv_cache_config \<Rightarrow> int \<Rightarrow> int \<Rightarrow> bool" where
  "cache_config_ok kvc dcp pcp \<longleftrightarrow> (\<forall>g\<in>set (kv_cache_groups kvc). manager_config_ok (kv_cache_spec g) dcp pcp)"

definition fresh_pools :: "pools \<Rightarrow> bool" where
  "fresh_pools ps \<longleftrightarrow> pools_ok ps \<and> (\<forall>j<npools ps. \<forall>b. pool_refs j ps b = 0)"

lemma new_pool_fresh:
  assumes "BlockPool n caching hbs events use_int = Inr p"
  shows "gpu_inv p \<and> gpu_refs p b = 0"
proof -
  have n: "0 < n" using assms by (simp add: BlockPool_def rassert_eq_Inr_iff)
  then have p: "pool_inv p (map Blk [1..<nat n])" "\<forall>i. data p (Blk i) = (KVCacheBlock (int i))\<lparr>is_null := (i = 0)\<rparr>"
    using BlockPool_spec [OF n, of caching hbs events use_int] assms by auto
  then show ?thesis by (auto simp: gpu_inv_def gpu_refs_def valid_blk_def KVCacheBlock_def)
qed

lemma block_pools_fresh:
  assumes "block_pools kvc per_group caching events hbs use_int = Inr ps"
  shows "fresh_pools ps \<and> npools ps = (if per_group then length (kv_cache_groups kvc) else 1)"
proof -
  let ?num = "if per_group then length (kv_cache_groups kvc) else 1"
  obtain sizes l where l: "rmap (\<lambda>i. rbind (py_index sizes (int i)) (\<lambda>n. BlockPool n caching hbs events use_int)) [0..<?num] = Inr l"
    and ps: "ps = Pools l" using assms by (auto simp: block_pools_def Let_def rbind_eq_Inr_iff)
  have all: "list_all2 (\<lambda>i p. rbind (py_index sizes (int i)) (\<lambda>n. BlockPool n caching hbs events use_int) = Inr p) [0..<?num] l"
    using l by (simp add: rmap_eq_Inr_iff)
  then have len: "length l = ?num" by (auto dest: list_all2_lengthD)
  have "gpu_inv (l ! j) \<and> gpu_refs (l ! j) b = 0" if "j < length l" for j b
    using list_all2_nthD2 [OF all that] that len new_pool_fresh by (auto simp: rbind_eq_Inr_iff)
  then show ?thesis unfolding ps fresh_pools_def using len by (auto simp: in_set_conv_nth)
qed

lemma first_max_in: "first_max xs x \<in> set (x # xs)" and first_min_in: "first_min xs x \<in> set (x # xs)"
  by (induction xs arbitrary: x) auto

lemma shared_pools_fresh:
  assumes "shared_pools kvc sizes = Inr ps" and "length sizes = 2" and "length (remdups sizes) > 1"
  shows "fresh_pools ps \<and> npools ps = 2"
proof -
  obtain z1 z2 where sizes: "sizes = [z1, z2]" "z1 \<noteq> z2"
    using assms(2,3) by (auto simp: length_Suc_conv numeral_2_eq_2 split: if_splits)
  obtain x xs where zip: "zip (kv_cache_groups kvc) sizes = x # xs"
    using assms(1) by (auto simp: shared_pools_def split: list.splits)
  define zl where "zl = snd (first_max xs x)"
  have "first_max xs x \<in> set (zip (kv_cache_groups kvc) sizes)" unfolding zip by (rule first_max_in)
  then have zl: "zl = z1 \<or> zl = z2" unfolding zl_def sizes(1) using set_zip_rightD [of "fst (first_max xs x)" "snd (first_max xs x)"] by fastforce
  obtain zi l p1 p2 where l: "DSASharedBlockLayout zl zi (num_blocks kvc) 512 64 128 = Inr l"
    and p: "DSASharedLogicalBlockPool (if z1 = zl then LATENT else INDEXER) (DSASharedBundleAllocator l) = Inr p1"
      "DSASharedLogicalBlockPool (if z2 = zl then LATENT else INDEXER) (DSASharedBundleAllocator l) = Inr p2"
    and ps: "ps = SharedPools (DSASharedBundleAllocator l) [p1, p2]"
    using assms(1) unfolding shared_pools_def sizes(1) zip [unfolded sizes(1)] by (auto simp: Let_def rassert_eq_Inr_iff rbind_eq_Inr_iff zl_def)
  have ok: "layout_ok l" using l by (auto simp: layout_ok_def DSASharedBlockLayout_def Let_def split: if_splits)
  note i = init_pool_inv [OF ok p(1)] init_pool_inv [OF ok p(2)]
  have refs: "shared_refs (a, q) b = 0" if "DSASharedLogicalBlockPool ow (DSASharedBundleAllocator l) = Inr q" for a q ow b
    using that by (auto simp: shared_refs_def DSASharedLogicalBlockPool_def Let_def KVCacheBlock_def split: blk.split if_splits)
  have "pool_refs j ps b = 0" if "j < 2" for j b
    using that refs p unfolding ps by (cases "j = 0") (auto simp: less_2_cases_iff)
  then show ?thesis using i sizes(2) zl unfolding fresh_pools_def ps by auto
qed

lemma null_of_pool: "pools_ok ps \<Longrightarrow> ix < npools ps \<Longrightarrow> po_null_block (pools_ops digest ix) ps = Blk 0"
proof -
  have "gpu_inv p \<Longrightarrow> null_block p = Blk 0" for p by (auto simp: gpu_inv_def pool_ok_def)
  then show "pools_ok ps \<Longrightarrow> ix < npools ps \<Longrightarrow> po_null_block (pools_ops digest ix) ps = Blk 0"
    by (cases ps) (auto simp: pools_ops_def Let_def gpu_ops_def shared_ops_def read_pool_def)
qed

lemma build_managers_ok:
  assumes "build_managers digest env ix caching dcp pcp i gs ps = Inr (ms, ps')" and "pools_ok ps"
    and "\<And>k. i \<le> k \<Longrightarrow> k < i + length gs \<Longrightarrow> ix k < npools ps" and "\<forall>g\<in>set gs. manager_config_ok (kv_cache_spec g) dcp pcp"
  shows "ps' = ps \<and> length ms = length gs \<and> (\<forall>m\<in>set ms. tables_ok m \<and> req_to_blocks m = [])"
  using assms
proof (induction gs arbitrary: i ms)
  case (Cons g gs)
  obtain m ps1 ms1 where run: "get_manager_for_kv_cache_spec (pools_ops digest (ix i)) env (kv_cache_spec g) caching (int i) dcp pcp ps = Inr (m, ps1)"
    "build_managers digest env ix caching dcp pcp (Suc i) gs ps1 = Inr (ms1, ps')" "ms = m # ms1"
    using Cons.prems(1) by (auto simp: rbind_eq_Inr_iff)
  have m: "ps1 = ps \<and> tables_ok m \<and> req_to_blocks m = []"
    by (rule new_manager_ok [OF run(1)]) (use Cons.prems null_of_pool in simp_all)
  then have "ps' = ps \<and> length ms1 = length gs \<and> (\<forall>m\<in>set ms1. tables_ok m \<and> req_to_blocks m = [])"
    using Cons.IH [of "Suc i" ms1] run(2) Cons.prems(2-4) by simp
  then show ?case using m run(3) by simp
qed simp

lemma set_scratch_ok:
  assumes "set_scratch kvc topk m = Inr m'" and "tables_ok m"
  shows "tables_ok m' \<and> req_to_blocks m' = req_to_blocks m"
proof -
  have "0 \<le> n" if "dsa_scratch_blocks_for_topk topk b r = Inr n" for b r n
    using that by (auto simp: dsa_scratch_blocks_for_topk_def pos_imp_zdiv_nonneg_iff split: if_splits)
  then have "m' = m \<or> (\<exists>n\<ge>0. m' = m\<lparr>scratch_blocks := n\<rparr>)"
    using assms(1) by (auto simp: set_scratch_def rbind_eq_Inr_iff split: if_splits)
  then show ?thesis using assms(2)
    by (auto simp: tables_ok_def req_blocks_def mamba_spec_blocks_def mamba_mode_def)
qed

lemma ms_held_fresh: "\<forall>m\<in>set ms. req_to_blocks m = [] \<Longrightarrow> ms_held ix i ms j b = 0"
  by (induction ms arbitrary: i) (simp_all add: held_def)

lemma new_coordinator_inv:
  assumes ok: "cache_config_ok kvc dcp pcp"
    and new: "KVCacheCoordinator dsize digest env use_int cl kvc max_len eagle caching events dcp pcp hbs = Inr c"
  shows "co_inv c \<and> length (single_type_managers c) = length (kv_cache_groups kvc) \<and>
    (\<forall>m\<in>set (single_type_managers c). req_to_blocks m = [])"
proof -
  obtain sizes where page: "rmap (\<lambda>g. page_size_bytes dsize (kv_cache_spec g)) (kv_cache_groups kvc) = Inr sizes"
    using new by (auto simp: KVCacheCoordinator_def rbind_eq_Inr_iff)
  obtain shared per_group where flags: "pool_flags env (int (length (kv_cache_groups kvc))) sizes = (shared, per_group)" by fastforce
  define scratch where "scratch ms = (case per_group \<or> shared of
      True \<Rightarrow> (case dsa_index_topk kvc of None \<Rightarrow> Inr ms | Some topk \<Rightarrow> rmap (set_scratch kvc topk) ms) | False \<Rightarrow> Inr ms)" for ms
  have sizes: "length sizes = length (kv_cache_groups kvc)" using page by (auto simp: rmap_eq_Inr_iff dest: list_all2_lengthD)
  obtain ps ms ms1 ps1
    where ps: "(if shared then shared_pools kvc sizes else block_pools kvc per_group caching events hbs use_int) = Inr ps"
    and build: "build_managers digest env (\<lambda>i. dsa_block_pool_index i per_group shared) caching dcp pcp 0 (kv_cache_groups kvc) ps = Inr (ms1, ps1)"
    and scratch: "scratch ms1 = Inr ms"
    and c: "single_type_managers c = ms" "co_pools c = ps1" "co_pool_index c = (\<lambda>i. dsa_block_pool_index i per_group shared)"
    using new unfolding KVCacheCoordinator_def page flags rbind_Inr Let_def prod.case scratch_def [symmetric]
    by (auto simp: rbind_eq_Inr_iff rassert_eq_Inr_iff co_pool_index_def [abs_def])
  have ms: "ms = ms1 \<or> (\<exists>topk. rmap (set_scratch kvc topk) ms1 = Inr ms)"
    using scratch by (auto simp: scratch_def split: option.splits bool.splits)
  let ?ix = "\<lambda>i. dsa_block_pool_index i per_group shared"
  have fresh: "fresh_pools ps" and np: "npools ps = (if shared then 2 else if per_group then length (kv_cache_groups kvc) else 1)"
    and two: "shared \<Longrightarrow> length (kv_cache_groups kvc) = 2"
    using ps sizes flags block_pools_fresh [of kvc per_group caching events hbs use_int ps] shared_pools_fresh [of kvc sizes ps]
    by (auto simp: pool_flags_def Let_def split: if_splits)
  have ix: "?ix k < npools ps" if "k < length (kv_cache_groups kvc)" for k
    using that two by (auto simp: np dsa_block_pool_index_def)
  have b: "ps1 = ps \<and> length ms1 = length (kv_cache_groups kvc) \<and> (\<forall>m\<in>set ms1. tables_ok m \<and> req_to_blocks m = [])"
    by (rule build_managers_ok [OF build]) (use fresh ix ok in \<open>simp_all add: fresh_pools_def cache_config_ok_def\<close>)
  have "length ms = length ms1 \<and> (\<forall>m\<in>set ms. tables_ok m \<and> req_to_blocks m = [])"
    using ms
  proof
    assume "\<exists>topk. rmap (set_scratch kvc topk) ms1 = Inr ms"
    then obtain topk where "list_all2 (\<lambda>m m'. set_scratch kvc topk m = Inr m') ms1 ms" by (auto simp: rmap_eq_Inr_iff)
    then show ?thesis using b
      by (auto simp: list_all2_conv_all_nth in_set_conv_nth) (metis nth_mem set_scratch_ok)+
  qed (use b in simp)
  then show ?thesis using b fresh ix ms_held_fresh [of ms]
    by (simp add: co_inv_def ms_inv_def c fresh_pools_def)
qed

end
