(* ===== verification/Manager_Steps.thy ===== *)
theory Manager_Steps
  imports Manager_Counts
begin

text \<open>
  Every operation of the cache manager keeps the reference counts; the properties over histories of
  operations.
\<close>

section \<open>Allocation\<close>

lemma base_remove_skipped_core: "base_remove_skipped_blocks ops rid t (m, p) = Inr (m', p') \<Longrightarrow> mgr_core m' = mgr_core m"
  by (auto simp: base_remove_skipped_blocks_def Let_def rbind_eq_Inr_iff split: prod.splits if_splits)

lemma mamba_remove_skipped_core:
  assumes "mamba_remove_skipped_blocks ops rid t (m, p) = Inr (m', p')"
  shows "mgr_core m' = mgr_core m"
proof -
  obtain m1 p1 where base: "base_remove_skipped_blocks ops rid (max 0 (t - mamba_spec_blocks m)) (m, p) = Inr (m1, p1)"
    and "m' = m1 \<or> (\<exists>bs. m' = set_req_blocks rid bs (default_req rid m1)) \<or> m' = default_req rid m1"
    using assms by (auto simp: mamba_remove_skipped_blocks_def Let_def rbind_eq_Inr_iff split: if_splits option.splits)
  then show ?thesis using base_remove_skipped_core [OF base] by auto
qed

lemma remove_skipped_core:
  assumes "remove_skipped_blocks ops rid t (m, p) = Inr (m', p')"
  shows "mgr_core m' = mgr_core m"
proof (cases "mgr_class m")
  case MambaManager
  then show ?thesis using assms mamba_remove_skipped_core [of ops rid t m p m' p'] by (simp add: remove_skipped_blocks_def)
qed (use assms base_remove_skipped_core [of ops rid t m p m' p'] in
    \<open>simp_all add: remove_skipped_blocks_def latent_remove_skipped_blocks_def\<close>)

lemma num_blocks_core:
  "get_num_blocks_to_allocate ops m p rid n bs t nm = Inr (k, m') \<Longrightarrow> mgr_core m' = mgr_core m"
  "get_num_blocks_to_allocate_compact_external ops m p rid n bs t nm = (k, m') \<Longrightarrow> mgr_core m' = mgr_core m"
  by (auto simp: get_num_blocks_to_allocate_def mamba_get_num_blocks_to_allocate_def get_num_blocks_to_allocate_compact_external_def
      co_step_simps split: manager_class.splits if_splits)

lemma co_remove_skipped_core:
  assumes "co_remove_skipped_blocks digest rid t c = Inr c'"
  shows "map mgr_core (single_type_managers c') = map mgr_core (single_type_managers c)"
proof -
  obtain xs where "for_managers (\<lambda>i s. void (remove_skipped_blocks (pools_ops digest (co_pool_index c i)) rid t s)) c = Inr (xs, c')"
    using assms by (auto simp: co_remove_skipped_blocks_def rbind_eq_Inr_iff)
  then show ?thesis by (elim for_managersE) (auto elim!: run_managers_core dest: remove_skipped_core)
qed

lemma has_enough_core:
  assumes "has_enough_free_blocks digest rid n ncb nenc t nmain compact c = Inr (ok, c')"
  shows "map mgr_core (single_type_managers c') = map mgr_core (single_type_managers c)"
proof -
  obtain ks c1 x where loop: "for_managers (co_num_blocks digest c rid n ncb nenc t nmain compact) c = Inr (ks, c1)"
    and c': "single_type_managers c' = single_type_managers c1"
    by (rule has_enough_counts [OF assms]) (auto simp: get_num_blocks_to_allocate_per_group_def)
  show ?thesis unfolding c' using loop
  proof (elim for_managersE)
    fix ms ps
    assume run: "run_managers (co_num_blocks digest c rid n ncb nenc t nmain compact) 0 (single_type_managers c) (co_pools c) = Inr (ks, ms, ps)"
      and "c1 = c\<lparr>single_type_managers := ms, co_pools := ps\<rparr>"
    moreover have "map mgr_core ms = map mgr_core (single_type_managers c)"
      by (rule run_managers_core [OF run])
        (auto simp: co_num_blocks_def co_step_simps split: if_splits dest: num_blocks_core(1) intro: num_blocks_core(2) [OF surjective_pairing])
    ultimately show "map mgr_core (single_type_managers c1) = map mgr_core (single_type_managers c)" by simp
  qed
qed

text \<open>What the caller owes to \<^verbatim>\<open>allocate_slots\<close>: computed blocks that cover no more than the computed tokens.\<close>

definition slots_ok :: "request \<Rightarrow> int \<Rightarrow> int \<Rightarrow> kv_cache_blocks option \<Rightarrow> int \<Rightarrow> kv_cache_manager \<Rightarrow> bool" where
  "slots_ok r num_new num_new_computed new_computed num_external k \<longleftrightarrow> 0 \<le> num_new \<and>
     computed_ok (coord k) (kcb_blocks (num_kv_cache_groups k) (case new_computed of None \<Rightarrow> Empty_Blocks | Some x \<Rightarrow> x))
       (num_computed_tokens r + num_new_computed + num_external)"

lemma allocate_slots_inv:
  assumes inv: "co_inv (coord k)" and len: "0 \<le> kvm_max_model_len k" and ok: "slots_ok r num_new nnc nc next k"
    and run: "allocate_slots digest r num_new nnc nc nl next delay nenc compact k = Inr (res, r', k')"
  shows "co_inv (coord k') \<and> co_shape (coord k') = co_shape (coord k) \<and> k' = k\<lparr>coord := coord k'\<rparr>"
proof -
  define kb where "kb = (case nc of None \<Rightarrow> Empty_Blocks | Some x \<Rightarrow> x)"
  define ncb where "ncb = kcb_blocks (num_kv_cache_groups k) kb"
  define l where "l = num_computed_tokens r + nnc"
  define t where "t = min (l + next) (kvm_max_model_len k)"
  define need where "need = min (t + num_new + nl) (kvm_max_model_len k)"
  have cok: "computed_ok (coord k) ncb (l + next)" and nmain: "0 \<le> t + num_new"
    using ok len by (auto simp: slots_ok_def ncb_def kb_def l_def t_def computed_ok_def)
  obtain c1 enough c2 where skip: "co_remove_skipped_blocks digest (request_id r) t (coord k) = Inr c1"
    and count: "has_enough_free_blocks digest (request_id r) need ncb nenc (l + next) (t + num_new) compact c1 = Inr (enough, c2)"
    and rest: "(if \<not> enough then Inr (None, r, k\<lparr>coord := c2\<rparr>)
            else
              rbind (if kb \<noteq> Empty_Blocks \<or> next > 0
                     then co_allocate_new_computed_blocks digest (request_id r) ncb l next compact c2 else Inr c2) (\<lambda>c3.
              rbind (co_allocate_new_blocks digest (request_id r) need (t + num_new) nenc compact c3) (\<lambda>(new_blocks, c4).
              let r' = (if compact then r\<lparr>dsa_compact_allocated := True\<rparr> else r)
              in if \<not> kvm_enable_caching k \<or> delay
                 then Inr (Some (create_kv_cache_blocks new_blocks), r', k\<lparr>coord := c4\<rparr>)
                 else rbind (co_cache_blocks digest r' (min (t + num_new) (num_tokens r')) c4) (\<lambda>c5.
                        Inr (Some (create_kv_cache_blocks new_blocks), r', k\<lparr>coord := c5\<rparr>))))) = Inr (res, r', k')"
    using run unfolding allocate_slots_def Let_def kb_def [symmetric] ncb_def [symmetric] l_def [symmetric] t_def [symmetric] need_def [symmetric]
    by (auto simp: rbind_eq_Inr_iff split: if_splits)
  note i1 = co_remove_skipped_inv [OF inv skip] and m1 = co_remove_skipped_core [OF skip]
  note i2 = has_enough_inv [OF conjunct1 [OF i1] count] and m2 = has_enough_core [OF count]
  have s2: "co_shape c2 = co_shape (coord k)" and cok2: "computed_ok c2 ncb (l + next)"
    using i1 i2 computed_ok_shape [OF cok _ inv, of c2] m1 m2 by simp_all
  show ?thesis
  proof (cases enough)
    case False
    then show ?thesis using rest i2 s2 by auto
  next
    case True
    define X where "X = (if kb \<noteq> Empty_Blocks \<or> next > 0 then co_allocate_new_computed_blocks digest (request_id r) ncb l next compact c2 else Inr c2)"
    define q where "q = (if compact then r\<lparr>dsa_compact_allocated := True\<rparr> else r)"
    obtain c3 bss c4 where c3: "X = Inr c3" and c4: "co_allocate_new_blocks digest (request_id r) need (t + num_new) nenc compact c3 = Inr (bss, c4)"
      and tail: "(if \<not> kvm_enable_caching k \<or> delay then Inr (Some (create_kv_cache_blocks bss), q, k\<lparr>coord := c4\<rparr>)
                 else rbind (co_cache_blocks digest q (min (t + num_new) (num_tokens q)) c4) (\<lambda>c5.
                        Inr (Some (create_kv_cache_blocks bss), q, k\<lparr>coord := c5\<rparr>))) = Inr (res, r', k')"
      using rest True unfolding X_def [symmetric] Let_def q_def [symmetric] by (auto simp: rbind_eq_Inr_iff)
    have c5: "k' = k\<lparr>coord := c4\<rparr> \<or> (\<exists>z c5. co_cache_blocks digest q z c4 = Inr c5 \<and> k' = k\<lparr>coord := c5\<rparr>)"
      using tail by (auto simp: rbind_eq_Inr_iff split: if_splits)
    have i3: "co_inv c3 \<and> co_shape c3 = co_shape c2"
      using c3 i2 co_computed_inv [OF conjunct1 [OF i2] cok2] unfolding X_def by (auto split: if_splits)
    note i4 = co_new_inv [OF conjunct1 [OF i3] nmain c4]
    show ?thesis using c5 i4 i3 s2 co_cache_inv [OF conjunct1 [OF i4], of digest q] by auto
  qed
qed

section \<open>Operations on the pools alone\<close>

text \<open>The prefix cache and the event queue change, the reference counts do not.\<close>

definition same_counts :: "block_pool \<Rightarrow> block_pool \<Rightarrow> bool" where
  "same_counts p p' \<longleftrightarrow> gpu_inv p' \<and> cfg p' = cfg p \<and> gpu_refs p' = gpu_refs p"

lemma same_countsI:
  assumes "pool_inv p' xs" and "cfg p' = cfg p" and "\<And>b. ref_cnt (data p' b) = ref_cnt (data p b)"
  shows "same_counts p p'"
  using assms valid_blk_cfg [OF assms(2)] by (auto simp: same_counts_def gpu_inv_def gpu_refs_def fun_eq_iff)

lemma same_counts_refl: "gpu_inv p \<Longrightarrow> same_counts p p"
  by (simp add: same_counts_def)

lemma evict_same:
  assumes "gpu_inv p" and ids: "\<forall>i\<in>set ids. 0 \<le> i" and run: "evict_blocks ids p = Inr p'"
  shows "same_counts p p'"
proof -
  obtain xs where ok: "pool_inv p xs" using assms(1) by (auto simp: gpu_inv_def)
  have "\<forall>i\<in>set ids. 0 \<le> i \<and> i < num_gpu_blocks p" using ids evict_blocks_bounds [OF run] by blast
  from evict_blocks_spec [OF ok this] run have p': "pool_inv p' xs" "cfg p' = cfg p"
    "data p' = (\<lambda>b. if b \<in> Blk ` nat ` set ids then (data p b)\<lparr>block_hash := None\<rparr> else data p b)" by auto
  show ?thesis by (rule same_countsI [OF p'(1,2)]) (simp add: p'(3))
qed

lemma reset_same:
  assumes "gpu_inv p"
  shows "same_counts p (snd (reset_prefix_cache p))"
proof (cases "num_gpu_blocks p - get_num_free_blocks p = 1")
  case True
  obtain xs where ok: "pool_inv p xs" using assms by (auto simp: gpu_inv_def)
  obtain p' where p': "reset_prefix_cache p = (True, p')" "pool_inv p' xs" "cfg p' = cfg p"
    "data p' = (\<lambda>b. if valid_blk p b then (data p b)\<lparr>block_hash := None\<rparr> else data p b)" using reset_spec [OF ok True] by auto
  have "same_counts p p'" by (rule same_countsI [OF p'(2,3)]) (simp add: p'(4))
  then show ?thesis by (simp add: p'(1))
next
  case False
  then show ?thesis using same_counts_refl [OF assms] by (simp add: reset_prefix_cache_def)
qed

lemma events_same:
  assumes "gpu_inv p"
  shows "same_counts p (snd (take_events p))"
proof -
  obtain xs where ok: "pool_inv p xs" using assms by (auto simp: gpu_inv_def)
  have "same_counts p (p\<lparr>kv_event_queue := []\<rparr>)"
    by (rule same_countsI) (use ok in \<open>simp_all add: pool_ok_events data_events cfg_def\<close>)
  then show ?thesis using same_counts_refl [OF assms] by (simp add: take_events_def)
qed

lemma reset_all_same: "\<forall>p\<in>set l. gpu_inv p \<Longrightarrow> list_all2 same_counts l (snd (reset_all l))"
proof (induction l)
  case (Cons p l)
  have "list_all2 same_counts l l" using Cons.prems same_counts_refl by (simp add: list_all2_same)
  then show ?case using Cons reset_same [of p] by (auto split: prod.splits)
qed simp

text \<open>A coordinator whose pools keep their counts keeps its invariant.\<close>

lemma co_inv_pools:
  assumes inv: "co_inv c" and ok: "pools_ok ps" and sig: "pool_sig ps = pool_sig (co_pools c)"
    and refs: "\<And>j. j < npools (co_pools c) \<Longrightarrow> pool_refs j ps = pool_refs j (co_pools c)"
  shows "co_inv (c\<lparr>co_pools := ps\<rparr>) \<and> co_shape (c\<lparr>co_pools := ps\<rparr>) = co_shape c"
proof -
  have "npools ps = npools (co_pools c)" by (rule npools_sig [OF sig])
  moreover have "co_pool_index (c\<lparr>co_pools := ps\<rparr>) = co_pool_index c" by (simp add: co_pool_index_def [abs_def])
  ultimately show ?thesis using inv ok sig refs by (simp add: co_inv_def ms_inv_def co_shape_def)
qed

lemma co_inv_same:
  assumes inv: "co_inv c" and l: "co_pools c = Pools l" and same: "list_all2 same_counts l l'"
  shows "co_inv (c\<lparr>co_pools := Pools l'\<rparr>) \<and> co_shape (c\<lparr>co_pools := Pools l'\<rparr>) = co_shape c"
proof (rule co_inv_pools [OF inv])
  have len: "length l' = length l" and s: "\<And>j. j < length l \<Longrightarrow> same_counts (l ! j) (l' ! j)"
    using same by (auto simp: list_all2_conv_all_nth)
  show "pools_ok (Pools l')" using len s by (auto simp: in_set_conv_nth same_counts_def)
  have "num_gpu_blocks (l' ! j) = num_gpu_blocks (l ! j)" if "j < length l" for j
    using s [OF that] by (simp add: same_counts_def cfg_def)
  then show "pool_sig (Pools l') = pool_sig (co_pools c)" using len by (simp add: pool_sig_def l list_eq_iff_nth_eq)
  show "pool_refs j (Pools l') = pool_refs j (co_pools c)" if "j < npools (co_pools c)" for j
    using s that by (simp add: l same_counts_def)
qed

lemma evict_inv:
  assumes "co_inv c" and ids: "\<forall>i\<in>set ids. 0 \<le> i" and run: "pools_evict ids (co_pools c) = Inr ps"
  shows "co_inv (c\<lparr>co_pools := ps\<rparr>) \<and> co_shape (c\<lparr>co_pools := ps\<rparr>) = co_shape c"
proof (cases "co_pools c")
  case (Pools l)
  then obtain l' where l': "list_all2 (\<lambda>p p'. evict_blocks ids p = Inr p') l l'" "ps = Pools l'"
    using run by (auto simp: pools_evict_def rbind_eq_Inr_iff rmap_eq_Inr_iff)
  have "\<forall>p\<in>set l. gpu_inv p" using assms(1) Pools by (simp add: co_inv_def ms_inv_def)
  then have "list_all2 same_counts l l'" using l'(1) ids evict_same by (auto simp: list_all2_conv_all_nth)
  then show ?thesis unfolding l'(2) by (rule co_inv_same [OF assms(1) Pools])
next
  case (SharedPools a l)
  then have "l = [] \<and> ps = co_pools c" using run by (cases l) (auto simp: pools_evict_def lp_evict_blocks_def)
  then show ?thesis using assms(1) by simp
qed

lemma reset_inv:
  assumes "co_inv c" and run: "pools_reset (co_pools c) = (ok, ps)"
  shows "co_inv (c\<lparr>co_pools := ps\<rparr>) \<and> co_shape (c\<lparr>co_pools := ps\<rparr>) = co_shape c"
proof (cases "co_pools c")
  case (Pools l)
  have "\<forall>p\<in>set l. gpu_inv p" using assms(1) Pools by (simp add: co_inv_def ms_inv_def)
  moreover have "ps = Pools (snd (reset_all l))" using run Pools by (auto simp: pools_reset_def split: prod.splits)
  ultimately show ?thesis using co_inv_same [OF assms(1) Pools reset_all_same] by simp
next
  case (SharedPools a l)
  then have "ps = co_pools c" using run by (auto simp: pools_reset_def lp_reset_prefix_cache_def)
  then show ?thesis using assms(1) by simp
qed

lemma take_events_inv:
  assumes "co_inv c" and run: "pools_take_events (co_pools c) = (evs, ps)"
  shows "co_inv (c\<lparr>co_pools := ps\<rparr>) \<and> co_shape (c\<lparr>co_pools := ps\<rparr>) = co_shape c"
proof (cases "co_pools c")
  case (Pools l)
  have "\<forall>p\<in>set l. gpu_inv p" using assms(1) Pools by (simp add: co_inv_def ms_inv_def)
  then have "list_all2 same_counts l (map (\<lambda>p. snd (take_events p)) l)" using events_same by (auto simp: list_all2_conv_all_nth)
  moreover have "ps = Pools (map (\<lambda>p. snd (take_events p)) l)" using run Pools by (simp add: pools_take_events_def)
  ultimately show ?thesis using co_inv_same [OF assms(1) Pools] by simp
next
  case (SharedPools a l)
  then have "ps = co_pools c" using run by (simp add: pools_take_events_def)
  then show ?thesis using assms(1) by simp
qed

text \<open>Operations on the managers alone.\<close>

lemma co_inv_managers:
  assumes "co_inv c" and "\<And>m. mgr_core (f m) = mgr_core m" and "\<And>m. req_to_blocks (f m) = req_to_blocks m"
    and "\<And>m. allocated_block_reqs (f m) = allocated_block_reqs m"
  shows "co_inv (c\<lparr>single_type_managers := map f (single_type_managers c)\<rparr>) \<and>
    co_shape (c\<lparr>single_type_managers := map f (single_type_managers c)\<rparr>) = co_shape c"
proof -
  have "tables_ok (f m) = tables_ok m" for m
    using assms(3) mgr_coreD [OF assms(2) [of m]] assms(4) by (simp add: tables_ok_def req_blocks_def)
  moreover have "ms_held ix i (map f ms) j b = ms_held ix i ms j b" for ix i ms j b
    by (induction ms arbitrary: i) (simp_all add: held_def assms(3))
  ultimately show ?thesis using assms(1) by (simp add: co_inv_def ms_inv_def co_shape_def co_pool_index_def [abs_def])
qed

end
