(* ===== verification/Cache_Manager_Properties.thy ===== *)
theory Cache_Manager_Properties
  imports Manager_Steps
begin

text \<open>
  Histories of the cache manager, from its construction on: the reference counts of every pool are
  the table entries of the managers on it, and releasing a request always succeeds.
\<close>

section \<open>Releasing a request\<close>

lemma hsum_freed: "distinct (map fst d) \<Longrightarrow> hsum (AList.delete k d) b = hsum d b - count_list (dget d k []) b"
  using hsum_delete [of d k b] by simp

text \<open>The references the tables of request \<open>rid\<close> hold on a block of pool \<open>j\<close>.\<close>

definition request_refs :: "coordinator \<Rightarrow> string \<Rightarrow> nat \<Rightarrow> blk \<Rightarrow> nat" where
  "request_refs c rid j b = ms_sum (\<lambda>m. count_list (req_blocks m rid) b) (co_pool_index c) 0 (single_type_managers c) j"

definition co_refs :: "coordinator \<Rightarrow> nat \<Rightarrow> blk \<Rightarrow> nat" where
  "co_refs c j b = ms_held (co_pool_index c) 0 (single_type_managers c) j b"

lemma ms_held_freed:
  assumes "list_all2 (\<lambda>m m'. req_to_blocks m' = AList.delete rid (req_to_blocks m)) ms ms'" and "\<forall>m\<in>set ms. tables_ok m"
  shows "ms_held ix i ms' j b + ms_sum (\<lambda>m. count_list (req_blocks m rid) b) ix i ms j = ms_held ix i ms j b"
  using assms
proof (induction arbitrary: i rule: list_all2_induct)
  case (Cons m ms m' ms')
  have "distinct (map fst (req_to_blocks m))" using Cons.prems by (simp add: tables_ok_def)
  from hsum_delete [OF this, of rid b] have "held m' b + count_list (req_blocks m rid) b = held m b"
    using Cons.hyps(1) by (simp add: held_def req_blocks_def)
  then show ?case using Cons.IH [of "Suc i"] Cons.prems by simp
qed simp

lemma co_free_ok:
  assumes inv: "co_inv c"
  shows "\<exists>c'. co_free digest rid c = Inr c' \<and> co_inv c' \<and> co_shape c' = co_shape c \<and>
    list_all2 (\<lambda>m m'. req_to_blocks m' = AList.delete rid (req_to_blocks m)) (single_type_managers c) (single_type_managers c')"
proof -
  let ?f = "\<lambda>i s. void (free (pools_ops digest (co_pool_index c i)) rid s)" and ?N = "pool_sig (co_pools c)"
  let ?P = "\<lambda>m m'. req_to_blocks m' = AList.delete rid (req_to_blocks m)"
  have "\<exists>xs ms' ps'. run_managers ?f 0 (single_type_managers c) (co_pools c) = Inr (xs, ms', ps') \<and>
      ms_inv ?N (co_pool_index c) 0 (\<lambda>_ _. 0) ms' ps' \<and> list_all2 ?P (single_type_managers c) ms'"
  proof (rule run_managers_total [OF inv [unfolded co_inv_def]])
    fix k m ps R ext
    let ?ix = "co_pool_index c k"
    assume "mgr_inv (framed ?N R ?ix) (pool_refs ?ix) ext m ps"
    from group_pool.free_spec [OF this, of digest rid]
    show "\<exists>x m' ps'. ?f k (m, ps) = Inr (x, m', ps') \<and> mgr_inv (framed ?N R ?ix) (pool_refs ?ix) ext m' ps' \<and> ?P m m'" by auto
  qed
  then obtain xs ms' ps' where run: "run_managers ?f 0 (single_type_managers c) (co_pools c) = Inr (xs, ms', ps')"
    and ms': "ms_inv ?N (co_pool_index c) 0 (\<lambda>_ _. 0) ms' ps'" "list_all2 ?P (single_type_managers c) ms'" by blast
  define c' where "c' = c\<lparr>single_type_managers := ms', co_pools := ps'\<rparr>"
  have "co_free digest rid c = Inr c'" using run by (simp add: co_free_def for_managers_def c'_def)
  moreover have "co_pool_index c' = co_pool_index c" and sig: "pool_sig ps' = ?N"
    using ms'(1) by (simp_all add: c'_def co_pool_index_def [abs_def] ms_inv_def)
  then have "co_inv c'" using ms'(1) by (simp add: co_inv_def c'_def)
  ultimately show ?thesis using ms'(2) sig list_all2_lengthD [OF ms'(2)] by (auto simp: c'_def co_shape_def)
qed

lemma co_refs_eq: "co_inv c \<Longrightarrow> j < npools (co_pools c) \<Longrightarrow> b \<noteq> Blk 0 \<Longrightarrow> pool_refs j (co_pools c) b = int (co_refs c j b)"
  by (simp add: co_inv_def ms_inv_def co_refs_def)

lemma co_free_counts:
  assumes inv: "co_inv c" and run: "co_free digest rid c = Inr c'" and j: "j < npools (co_pools c)" and b: "b \<noteq> Blk 0"
  shows "pool_refs j (co_pools c') b = pool_refs j (co_pools c) b - int (request_refs c rid j b)"
proof -
  have inv': "co_inv c'" and shape: "co_shape c' = co_shape c"
    and freed: "list_all2 (\<lambda>m m'. req_to_blocks m' = AList.delete rid (req_to_blocks m)) (single_type_managers c) (single_type_managers c')"
    using co_free_ok [OF inv, of digest rid] run by auto
  have "pool_sig (co_pools c') = pool_sig (co_pools c)" using shape by (simp add: co_shape_def)
  then have j': "j < npools (co_pools c')" using j npools_sig [of "co_pools c'" "co_pools c"] by simp
  have "\<forall>m\<in>set (single_type_managers c). tables_ok m" using inv by (simp add: co_inv_def ms_inv_def)
  then have "co_refs c' j b + request_refs c rid j b = co_refs c j b"
    using ms_held_freed [OF freed] co_pool_index_shape [OF shape] by (simp add: co_refs_def request_refs_def)
  then show ?thesis using co_refs_eq [OF inv j b] co_refs_eq [OF inv' j' b] by simp
qed

lemma co_free_tables:
  assumes "co_inv c" and "co_free digest rid c = Inr c'"
  shows "co_get_blocks c' r = (if r = rid then replicate (length (single_type_managers c)) [] else co_get_blocks c r)"
proof -
  have "list_all2 (\<lambda>m m'. req_to_blocks m' = AList.delete rid (req_to_blocks m)) (single_type_managers c) (single_type_managers c')"
    using co_free_ok [OF assms(1), of digest rid] assms(2) by auto
  then have len: "length (single_type_managers c') = length (single_type_managers c)"
    and t: "\<And>i. i < length (single_type_managers c) \<Longrightarrow>
      req_to_blocks (single_type_managers c' ! i) = AList.delete rid (req_to_blocks (single_type_managers c ! i))"
    by (auto simp: list_all2_conv_all_nth)
  show ?thesis by (rule nth_equalityI) (simp_all add: co_get_blocks_def len t dget_delete)
qed

section \<open>Histories\<close>

text \<open>The calls the scheduler makes. A call that raises ends the history.\<close>

inductive kvm_step :: "embeds_digest \<Rightarrow> kv_cache_manager \<Rightarrow> kv_cache_manager \<Rightarrow> bool" for digest where
  Get_Computed: "get_computed_blocks r k = Some (Inr (kb, n, k')) \<Longrightarrow> kvm_step digest k k'"
| Allocate: "slots_ok r num_new nnc nc next k \<Longrightarrow>
    allocate_slots digest r num_new nnc nc nl next delay nenc compact k = Inr (res, r', k') \<Longrightarrow> kvm_step digest k k'"
| Free: "kvm_free digest r k = Inr k' \<Longrightarrow> kvm_step digest k k'"
| Skip: "kvm_remove_skipped_blocks digest rid t k = Inr k' \<Longrightarrow> kvm_step digest k k'"
| Release: "kvm_remove_saved_decode_window_blocks digest rid e k = Inr (n, k') \<Longrightarrow> kvm_step digest k k'"
| Evict: "\<forall>i\<in>set ids. 0 \<le> i \<Longrightarrow> kvm_evict_blocks ids k = Inr k' \<Longrightarrow> kvm_step digest k k'"
| Reset: "kvm_reset_prefix_cache k = Inr (ok, k') \<Longrightarrow> kvm_step digest k k'"
| Prefix: "kvm_get_num_common_prefix_blocks digest rid k = Inr (ns, k') \<Longrightarrow> kvm_step digest k k'"
| Events: "kvm_take_events k = (evs, k') \<Longrightarrow> kvm_step digest k k'"
| Cache: "kvm_cache_blocks digest r n k = Inr k' \<Longrightarrow> kvm_step digest k k'"
| Take_Ids: "kvm_take_new_block_ids k = (ids, k') \<Longrightarrow> kvm_step digest k k'"
| Step_Start: "kvm_step digest k (kvm_new_step_starts k)"
| Stats: "make_prefix_cache_stats k = (s, k') \<Longrightarrow> kvm_step digest k k'"

definition kvm_inv :: "kv_cache_manager \<Rightarrow> bool" where
  "kvm_inv k \<longleftrightarrow> co_inv (coord k) \<and> 0 \<le> kvm_max_model_len k \<and> (log_stats k \<longrightarrow> prefix_stats k \<noteq> None)"

lemma kvm_step_inv:
  assumes "kvm_step digest k k'" and "kvm_inv k"
  shows "kvm_inv k' \<and> co_shape (coord k') = co_shape (coord k)"
proof -
  have inv: "co_inv (coord k)" and len: "0 \<le> kvm_max_model_len k" "log_stats k \<longrightarrow> prefix_stats k \<noteq> None" using assms(2) by (simp_all add: kvm_inv_def)
  from assms(1) show ?thesis
  proof cases
    case (Get_Computed r kb n)
    then have "coord k' = coord k \<and> kvm_max_model_len k' = kvm_max_model_len k \<and> log_stats k' = log_stats k \<and>
        (prefix_stats k' = prefix_stats k \<or> prefix_stats k' \<noteq> None)"
      by (auto simp: get_computed_blocks_def split: if_splits option.splits sum.splits prod.splits)
    then show ?thesis using inv len by (auto simp: kvm_inv_def)
  next
    case (Allocate r num_new nnc nc "next" nl delay nenc compact res r')
    have a: "co_inv (coord k')" "co_shape (coord k') = co_shape (coord k)" "k' = k\<lparr>coord := coord k'\<rparr>"
      using allocate_slots_inv [OF inv len(1) Allocate(1,2)] by blast+
    have "kvm_max_model_len k' = kvm_max_model_len k" "log_stats k' = log_stats k" "prefix_stats k' = prefix_stats k"
      by (subst a(3), simp)+
    then show ?thesis using a(1,2) len by (simp add: kvm_inv_def)
  next
    case (Free r)
    then show ?thesis using co_free_ok [OF inv, of digest "request_id r"] len by (auto simp: kvm_free_def rbind_eq_Inr_iff kvm_inv_def)
  next
    case (Skip rid t)
    then show ?thesis using co_remove_skipped_inv [OF inv, of digest rid t] len
      by (auto simp: kvm_remove_skipped_blocks_def rbind_eq_Inr_iff kvm_inv_def)
  next
    case (Release rid e n)
    then show ?thesis using co_release_inv [OF inv, of digest rid e] len
      by (auto simp: kvm_remove_saved_decode_window_blocks_def rbind_eq_Inr_iff kvm_inv_def)
  next
    case (Evict ids)
    then show ?thesis using evict_inv [OF inv, of ids] len by (auto simp: kvm_evict_blocks_def rbind_eq_Inr_iff kvm_inv_def)
  next
    case (Reset ok)
    obtain ok' ps where r: "pools_reset (co_pools (coord k)) = (ok', ps)" by fastforce
    then have "coord k' = (coord k)\<lparr>co_pools := ps\<rparr> \<and> kvm_max_model_len k' = kvm_max_model_len k \<and> log_stats k' = log_stats k \<and>
        (prefix_stats k' = prefix_stats k \<or> prefix_stats k' \<noteq> None)"
      using Reset by (auto simp: kvm_reset_prefix_cache_def Let_def split: if_splits option.splits)
    then show ?thesis using reset_inv [OF inv r] len by (auto simp: kvm_inv_def)
  next
    case (Prefix rid ns)
    then show ?thesis using co_prefix_inv [OF inv, of digest rid] len
      by (auto simp: kvm_get_num_common_prefix_blocks_def rbind_eq_Inr_iff kvm_inv_def)
  next
    case (Events evs)
    obtain ev ps where r: "pools_take_events (co_pools (coord k)) = (ev, ps)" by fastforce
    then show ?thesis using Events take_events_inv [OF inv r] len by (auto simp: kvm_take_events_def kvm_inv_def)
  next
    case (Cache r n)
    then show ?thesis using co_cache_inv [OF inv, of digest r n] inv len
      by (auto simp: kvm_cache_blocks_def rbind_eq_Inr_iff kvm_inv_def split: if_splits)
  next
    case (Take_Ids ids)
    have "co_inv ((coord k)\<lparr>single_type_managers := map (\<lambda>m. snd (take_new_block_ids m)) (single_type_managers (coord k))\<rparr>) \<and>
        co_shape ((coord k)\<lparr>single_type_managers := map (\<lambda>m. snd (take_new_block_ids m)) (single_type_managers (coord k))\<rparr>) = co_shape (coord k)"
      by (rule co_inv_managers [OF inv]) (simp_all add: take_new_block_ids_def)
    then show ?thesis using Take_Ids len by (auto simp: kvm_take_new_block_ids_def Let_def kvm_inv_def)
  next
    case Step_Start
    have "co_inv (co_new_step_starts (coord k)) \<and> co_shape (co_new_step_starts (coord k)) = co_shape (coord k)"
      unfolding co_new_step_starts_def by (rule co_inv_managers [OF inv]) (simp_all add: new_step_starts_def)
    then show ?thesis using Step_Start len by (simp add: kvm_new_step_starts_def kvm_inv_def)
  next
    case (Stats s)
    then show ?thesis using inv len by (auto simp: make_prefix_cache_stats_def kvm_inv_def split: if_splits)
  qed
qed

lemma kvm_steps_inv:
  assumes "(kvm_step digest)\<^sup>*\<^sup>* k k'" and "kvm_inv k"
  shows "kvm_inv k' \<and> co_shape (coord k') = co_shape (coord k)"
  using assms
proof (induction rule: rtranclp_induct)
  case (step k1 k2)
  then show ?case using kvm_step_inv [OF step.hyps(2)] by simp
qed simp

lemma coordinator_fields:
  "co_inv (c\<lparr>co_block_size := b\<rparr>) = co_inv c" "co_inv (c\<lparr>attention_groups := g, lcm_block_size := n\<rparr>) = co_inv c"
  by (simp_all add: co_inv_def co_pool_index_def [abs_def])

lemma new_kvm_inv:
  assumes ok: "cache_config_ok kvc dcp pcp" "0 \<le> max_len"
    and new: "KVCacheManager dsize digest env use_int kvc max_len hbs caching eagle stats events dcp pcp = Inr k"
  shows "kvm_inv k \<and> length (single_type_managers (coord k)) = length (kv_cache_groups kvc)"
proof -
  obtain c where c: "get_kv_cache_coordinator dsize digest env use_int kvc max_len eagle caching events dcp pcp hbs = Inr c"
    and k: "coord k = c" "kvm_max_model_len k = max_len" "log_stats k \<longrightarrow> prefix_stats k \<noteq> None"
    using new by (auto simp: KVCacheManager_def rbind_eq_Inr_iff)
  have u: "\<exists>b. c = c0\<lparr>co_block_size := b\<rparr>" if "unitary_init c0 = Inr c" for c0
    using that by (auto simp: unitary_init_def rbind_eq_Inr_iff rassert_eq_Inr_iff Let_def)
  have h: "\<exists>g n. c = c0\<lparr>attention_groups := g, lcm_block_size := n\<rparr>" if "hybrid_init c0 = Inr c" for c0
    using that by (auto simp: hybrid_init_def verify_and_split_kv_cache_groups_def rbind_eq_Inr_iff rassert_eq_Inr_iff split: if_splits)
  obtain cl caching' c0 where c0: "KVCacheCoordinator dsize digest env use_int cl kvc max_len eagle caching' events dcp pcp hbs = Inr c0"
    and "c = c0 \<or> unitary_init c0 = Inr c \<or> hybrid_init c0 = Inr c"
    using c by (auto simp: get_kv_cache_coordinator_def rbind_eq_Inr_iff split: if_splits)
  then have cs: "c = c0 \<or> (\<exists>b. c = c0\<lparr>co_block_size := b\<rparr>) \<or> (\<exists>g n. c = c0\<lparr>attention_groups := g, lcm_block_size := n\<rparr>)"
    using u h by blast
  have "co_inv c0" "length (single_type_managers c0) = length (kv_cache_groups kvc)" using new_coordinator_inv [OF ok(1) c0] by simp_all
  then show ?thesis using cs k ok(2) by (auto simp: kvm_inv_def coordinator_fields)
qed

lemma kvm_reachable:
  assumes "cache_config_ok kvc dcp pcp" and "0 \<le> max_len"
    and "KVCacheManager dsize digest env use_int kvc max_len hbs caching eagle stats events dcp pcp = Inr k0"
    and "(kvm_step digest)\<^sup>*\<^sup>* k0 k"
  shows "kvm_inv k" and "co_inv (coord k)" and "co_shape (coord k) = co_shape (coord k0)"
    and "length (single_type_managers (coord k)) = length (kv_cache_groups kvc)"
proof -
  have new: "kvm_inv k0 \<and> length (single_type_managers (coord k0)) = length (kv_cache_groups kvc)" by (rule new_kvm_inv [OF assms(1-3)])
  then have "kvm_inv k \<and> co_shape (coord k) = co_shape (coord k0)" using kvm_steps_inv [OF assms(4)] by blast
  then show "kvm_inv k" "co_inv (coord k)" "co_shape (coord k) = co_shape (coord k0)" by (simp_all add: kvm_inv_def)
  then have "length (single_type_managers (coord k)) = length (single_type_managers (coord k0))" by (simp add: co_shape_def)
  then show "length (single_type_managers (coord k)) = length (kv_cache_groups kvc)" using new by simp
qed

section \<open>Blocks in tables\<close>

text \<open>A block of the pool at an index: an index into its block array.\<close>

definition pool_block :: "nat \<Rightarrow> pools \<Rightarrow> blk \<Rightarrow> bool" where
  "pool_block ix ps b = read_pool ix valid_blk (\<lambda>(a, p) b. \<exists>i. b = Blk i \<and> int i < lp_num_gpu_blocks p) ps b"

lemma counted_block:
  assumes "pools_ok ps" and "ix < npools ps" and "0 < pool_refs ix ps b"
  shows "pool_block ix ps b"
proof (cases ps)
  case (Pools l)
  then show ?thesis using assms(3) by (simp add: pool_block_def read_pool_def gpu_refs_def split: if_splits)
next
  case (SharedPools a l)
  have inv: "lp_inv a (l ! ix)" using assms(1,2) SharedPools by simp
  then obtain i where "b = Blk i" "0 < i" "shared_refs (a, l ! ix) b = 1"
    using shared_refs_blk [of "(a, l ! ix)" b] assms(3) SharedPools by (auto simp: shared_inv_def)
  then show ?thesis using inv by (auto simp: SharedPools pool_block_def read_pool_def lp_inv_def lp_wf_def shared_refs_def)
qed

lemma ms_sum_ge: "k < length ms \<Longrightarrow> ix (i + k) = j \<Longrightarrow> h (ms ! k) \<le> ms_sum h ix i ms j"
proof (induction ms arbitrary: i k)
  case (Cons m ms)
  then show ?case by (cases k) (auto simp: trans_le_add2)
qed simp

lemma ms_sum_zero: "ms_sum h ix i ms j = 0 \<longleftrightarrow> (\<forall>k<length ms. ix (i + k) = j \<longrightarrow> h (ms ! k) = 0)"
proof (induction ms arbitrary: i)
  case (Cons m ms)
  have "(\<forall>k<length (m # ms). ix (i + k) = j \<longrightarrow> h ((m # ms) ! k) = 0) \<longleftrightarrow>
      (ix i = j \<longrightarrow> h m = 0) \<and> (\<forall>k<length ms. ix (Suc i + k) = j \<longrightarrow> h (ms ! k) = 0)"
    by (auto simp: less_Suc_eq_0_disj)
  then show ?case unfolding ms_sum.simps add_is_0 Cons.IH by auto
qed simp

lemma held_iff: "tables_ok m \<Longrightarrow> held m b = 0 \<longleftrightarrow> (\<forall>rid. b \<notin> set (req_blocks m rid))"
proof
  assume "held m b = 0"
  then show "\<forall>rid. b \<notin> set (req_blocks m rid)"
    using hsum_ge [of "req_to_blocks m" _ b] by (simp add: held_def req_blocks_def count_list_0_iff)
next
  assume ok: "tables_ok m" and none: "\<forall>rid. b \<notin> set (req_blocks m rid)"
  have "count_list bs b = 0" if "(rid, bs) \<in> set (req_to_blocks m)" for rid bs
    using in_dget [OF _ that, of "[]"] ok none by (auto simp: tables_ok_def req_blocks_def count_list_0_iff)
  then show "held m b = 0" by (auto simp: held_def hsum_def)
qed

lemma table_block:
  assumes "co_inv c" and "k < length (single_type_managers c)" and "b \<in> set (req_blocks (single_type_managers c ! k) rid)" and "b \<noteq> Blk 0"
  shows "pool_block (co_pool_index c k) (co_pools c) b"
proof -
  let ?m = "single_type_managers c ! k" and ?ix = "co_pool_index c k"
  have ix: "?ix < npools (co_pools c)" and ok: "pools_ok (co_pools c)" "tables_ok ?m"
    using assms(1,2) by (auto simp: co_inv_def ms_inv_def)
  have "0 < held ?m b" using held_iff [OF ok(2), of b] assms(3) by auto
  then have "0 < co_refs c ?ix b" using ms_sum_ge [OF assms(2), of "co_pool_index c" 0 ?ix "\<lambda>m. held m b"] by (simp add: co_refs_def)
  then show ?thesis using counted_block [OF ok(1) ix] co_refs_eq [OF assms(1) ix assms(4)] by simp
qed

text \<open>No request holds a block exactly when all counts are zero.\<close>

definition holds_nothing :: "coordinator \<Rightarrow> bool" where
  "holds_nothing c \<longleftrightarrow> (\<forall>rid. \<forall>bs\<in>set (co_get_blocks c rid). set bs \<subseteq> {Blk 0})"

lemma holds_nothing_counts:
  assumes "co_inv c"
  shows "holds_nothing c \<longleftrightarrow> (\<forall>j<npools (co_pools c). \<forall>b. b \<noteq> Blk 0 \<longrightarrow> pool_refs j (co_pools c) b = 0)"
proof -
  let ?ms = "single_type_managers c" and ?ix = "co_pool_index c"
  have ok: "\<And>k. k < length ?ms \<Longrightarrow> tables_ok (?ms ! k) \<and> ?ix k < npools (co_pools c)" using assms by (simp add: co_inv_def ms_inv_def)
  have "holds_nothing c \<longleftrightarrow> (\<forall>k<length ?ms. \<forall>b. b \<noteq> Blk 0 \<longrightarrow> (\<forall>rid. b \<notin> set (req_blocks (?ms ! k) rid)))"
    unfolding holds_nothing_def co_get_blocks_def req_blocks_def by (fastforce simp: in_set_conv_nth)
  also have "\<dots> \<longleftrightarrow> (\<forall>k<length ?ms. \<forall>b. b \<noteq> Blk 0 \<longrightarrow> held (?ms ! k) b = 0)" using ok held_iff by simp
  also have "\<dots> \<longleftrightarrow> (\<forall>j<npools (co_pools c). \<forall>b. b \<noteq> Blk 0 \<longrightarrow> co_refs c j b = 0)"
    using ok by (auto simp: co_refs_def ms_sum_zero)
  also have "\<dots> \<longleftrightarrow> (\<forall>j<npools (co_pools c). \<forall>b. b \<noteq> Blk 0 \<longrightarrow> pool_refs j (co_pools c) b = 0)"
    using co_refs_eq [OF assms] by simp
  finally show ?thesis .
qed

lemma pool_idle:
  assumes "gpu_inv p"
  shows "num_gpu_blocks p - get_num_free_blocks p = 1 \<longleftrightarrow> (\<forall>b. b \<noteq> Blk 0 \<longrightarrow> gpu_refs p b = 0)"
proof -
  obtain xs where ok: "pool_inv p xs" using assms by (auto simp: gpu_inv_def)
  let ?all = "Blk ` {1..<nat (num_gpu_blocks p)}"
  have dist: "distinct xs" using pool_okD(1) [OF ok] by (simp add: fq_repr_def)
  have pos: "0 < num_gpu_blocks p" using ok by (simp add: pool_ok_def)
  have all: "b \<in> ?all \<longleftrightarrow> valid_blk p b \<and> b \<noteq> Blk 0" for b by (auto simp: valid_blk_def image_iff)
  have sub: "set xs \<subseteq> ?all" using gpu_refs_free [OF ok] all by blast
  have "num_gpu_blocks p - get_num_free_blocks p = 1 \<longleftrightarrow> card (set xs) = card ?all"
    using pos pool_okD(7) [OF ok] distinct_card [OF dist] by (auto simp: card_image inj_on_def)
  also have "\<dots> \<longleftrightarrow> set xs = ?all" using sub card_subset_eq [of ?all "set xs"] by auto
  also have "\<dots> \<longleftrightarrow> (\<forall>b. b \<noteq> Blk 0 \<longrightarrow> gpu_refs p b = 0)"
  proof
    assume eq: "set xs = ?all"
    show "\<forall>b. b \<noteq> Blk 0 \<longrightarrow> gpu_refs p b = 0"
    proof (intro allI impI)
      fix b assume "b \<noteq> Blk 0"
      then show "gpu_refs p b = 0" using gpu_refs_free [OF ok, of b] all [of b] eq by (cases "valid_blk p b") (auto simp: gpu_refs_def)
    qed
  next
    assume "\<forall>b. b \<noteq> Blk 0 \<longrightarrow> gpu_refs p b = 0"
    then show "set xs = ?all" using gpu_refs_free [OF ok] all by blast
  qed
  finally show ?thesis .
qed

lemma reset_all_iff: "fst (reset_all l) \<longleftrightarrow> (\<forall>p\<in>set l. num_gpu_blocks p - get_num_free_blocks p = 1)"
proof (induction l)
  case (Cons p l)
  then show ?case by (auto simp: reset_prefix_cache_def Let_def split: prod.splits)
qed simp

lemma reset_all_empty: "fst (reset_all l) \<Longrightarrow> length (snd (reset_all l)) = length l \<and> (\<forall>p\<in>set (snd (reset_all l)). cached_block_hash_to_block p = Map.empty)"
proof (induction l)
  case (Cons p l)
  have one: "cached_block_hash_to_block (snd (reset_prefix_cache p)) = Map.empty" if "fst (reset_prefix_cache p)"
    using that reset_loop(3) [of "map Blk [0..<nat (num_gpu_blocks p)]" "p\<lparr>cached_block_hash_to_block := Map.empty\<rparr>"]
    by (auto simp: reset_prefix_cache_def Let_def split: if_splits)
  then show ?case using Cons by (auto split: prod.splits if_splits)
qed simp

section \<open>Properties\<close>

text \<open>C1. Reference counting of the whole cache manager, over block pools or shared logical pools, with any
  mix of cache groups (no sink attention) and over every sequence of operations that do not raise: in
  each pool the count of a block is the number of table entries, over all requests and all groups on
  that pool, that name it. Freeing a request always succeeds, empties its table in every group, keeps
  every other table, and takes exactly the request's references off the counts.\<close>

theorem cache_manager_reference_counts:
  assumes "cache_config_ok kvc dcp pcp" and "0 \<le> max_len"
    and "KVCacheManager dsize digest env use_int kvc max_len hbs caching eagle stats events dcp pcp = Inr k0"
    and "(kvm_step digest)\<^sup>*\<^sup>* k0 k"
  shows "(\<forall>j<npools (co_pools (coord k)). \<forall>b. b \<noteq> Blk 0 \<longrightarrow> pool_refs j (co_pools (coord k)) b = int (co_refs (coord k) j b)) \<and>
    (\<forall>r. \<exists>k'. kvm_free digest r k = Inr k' \<and>
       (\<forall>rid. co_get_blocks (coord k') rid =
          (if rid = request_id r then replicate (length (kv_cache_groups kvc)) [] else co_get_blocks (coord k) rid)) \<and>
       (\<forall>j<npools (co_pools (coord k)). \<forall>b. b \<noteq> Blk 0 \<longrightarrow>
          pool_refs j (co_pools (coord k')) b = pool_refs j (co_pools (coord k)) b - int (request_refs (coord k) (request_id r) j b)))"
proof -
  note r = kvm_reachable [OF assms]
  have "\<exists>k'. kvm_free digest q k = Inr k' \<and>
       (\<forall>rid. co_get_blocks (coord k') rid =
          (if rid = request_id q then replicate (length (kv_cache_groups kvc)) [] else co_get_blocks (coord k) rid)) \<and>
       (\<forall>j<npools (co_pools (coord k)). \<forall>b. b \<noteq> Blk 0 \<longrightarrow>
          pool_refs j (co_pools (coord k')) b = pool_refs j (co_pools (coord k)) b - int (request_refs (coord k) (request_id q) j b))" for q
  proof -
    obtain c' where c': "co_free digest (request_id q) (coord k) = Inr c'" using co_free_ok [OF r(2)] by blast
    then have "kvm_free digest q k = Inr (k\<lparr>coord := c'\<rparr>)" by (simp add: kvm_free_def)
    then show ?thesis using co_free_tables [OF r(2) c'] co_free_counts [OF r(2) c'] r(4) by auto
  qed
  then show ?thesis using co_refs_eq [OF r(2)] by blast
qed

text \<open>C7. The state of the cache manager keeps its type. From construction on every operation keeps the
  number of managers at the number of cache groups and the shape of the pools, every table lists each
  request once and no block twice in one request, and every block a table names is a block of the pool
  of that table's group: no reference dangles and none points into another group's pool.\<close>

theorem cache_manager_well_formed:
  assumes "cache_config_ok kvc dcp pcp" and "0 \<le> max_len"
    and "KVCacheManager dsize digest env use_int kvc max_len hbs caching eagle stats events dcp pcp = Inr k0"
    and "(kvm_step digest)\<^sup>*\<^sup>* k0 k"
  shows "length (single_type_managers (coord k)) = length (kv_cache_groups kvc) \<and>
    pool_sig (co_pools (coord k)) = pool_sig (co_pools (coord k0)) \<and> co_class (coord k) = co_class (coord k0) \<and>
    (\<forall>i<length (kv_cache_groups kvc). let m = single_type_managers (coord k) ! i in
       distinct (map fst (req_to_blocks m)) \<and>
       (\<forall>rid. distinct (real_blocks (req_blocks m rid)) \<and>
          (\<forall>b\<in>set (req_blocks m rid). b = Blk 0 \<or> pool_block (co_pool_index (coord k) i) (co_pools (coord k)) b)))"
proof -
  note r = kvm_reachable [OF assms]
  have "pool_sig (co_pools (coord k)) = pool_sig (co_pools (coord k0))" "co_class (coord k) = co_class (coord k0)"
    using r(3) by (cases "coord k"; cases "coord k0"; simp add: co_shape_def)+
  moreover have "tables_ok (single_type_managers (coord k) ! i)" if "i < length (kv_cache_groups kvc)" for i
    using r(2,4) that by (simp add: co_inv_def ms_inv_def)
  moreover have "b = Blk 0 \<or> pool_block (co_pool_index (coord k) i) (co_pools (coord k)) b"
    if "i < length (kv_cache_groups kvc)" "b \<in> set (req_blocks (single_type_managers (coord k) ! i) rid)" for i rid b
    using table_block [OF r(2), of i b rid] that r(4) by auto
  ultimately show ?thesis using r(4) unfolding Let_def tables_ok_def by simp
qed

text \<open>C13. For a cache manager without sink attention groups (whose blocks are taken
  for good and never free again), in every reachable state: resetting the prefix cache never raises, and over block pools it
  succeeds exactly when no request holds a block of any group; then the cache of every pool is empty.
  Over shared logical pools, which have no cache, it always succeeds.\<close>

theorem reset_exactly_when_idle:
  assumes "cache_config_ok kvc dcp pcp" and "0 \<le> max_len"
    and "KVCacheManager dsize digest env use_int kvc max_len hbs caching eagle stats events dcp pcp = Inr k0"
    and "(kvm_step digest)\<^sup>*\<^sup>* k0 k"
  shows "\<exists>ok k'. kvm_reset_prefix_cache k = Inr (ok, k') \<and>
    (case co_pools (coord k) of Pools l \<Rightarrow> ok = holds_nothing (coord k) \<and> 
       (ok \<longrightarrow> (\<exists>l'. co_pools (coord k') = Pools l' \<and> length l' = length l \<and> (\<forall>p\<in>set l'. cached_block_hash_to_block p = Map.empty)))
     | SharedPools a l \<Rightarrow> ok \<and> co_pools (coord k') = SharedPools a l)"
proof -
  note r = kvm_reachable [OF assms]
  obtain ok ps where run: "pools_reset (co_pools (coord k)) = (ok, ps)" by fastforce
  have "log_stats k \<longrightarrow> prefix_stats k \<noteq> None" using r(1) by (simp add: kvm_inv_def)
  then have "\<exists>k'. kvm_reset_prefix_cache k = Inr (ok, k') \<and> co_pools (coord k') = ps"
    by (cases ok; cases "log_stats k") (auto simp: kvm_reset_prefix_cache_def Let_def run)
  then obtain k' where k': "kvm_reset_prefix_cache k = Inr (ok, k')" "co_pools (coord k') = ps" by blast
  have "case co_pools (coord k) of Pools l \<Rightarrow> ok = holds_nothing (coord k) \<and> 
       (ok \<longrightarrow> (\<exists>l'. ps = Pools l' \<and> length l' = length l \<and> (\<forall>p\<in>set l'. cached_block_hash_to_block p = Map.empty)))
     | SharedPools a l \<Rightarrow> ok \<and> ps = SharedPools a l"
  proof (cases "co_pools (coord k)")
    case (Pools l)
    have inv: "\<And>j. j < length l \<Longrightarrow> gpu_inv (l ! j)" using r(2) Pools by (simp add: co_inv_def ms_inv_def)
    have "ok = fst (reset_all l)" and ps: "ps = Pools (snd (reset_all l))" using run Pools by (auto simp: pools_reset_def split: prod.splits)
    moreover have "fst (reset_all l) = holds_nothing (coord k)"
      unfolding reset_all_iff holds_nothing_counts [OF r(2)] Pools pools_simps using inv pool_idle by (simp add: all_set_conv_all_nth)
    ultimately show ?thesis using Pools reset_all_empty [of l] by auto
  next
    case (SharedPools a l)
    show ?thesis using run unfolding SharedPools by (auto simp: pools_reset_def lp_reset_prefix_cache_def)
  qed
  then show ?thesis using k'(1) unfolding k'(2) [symmetric] by (intro exI conjI)
qed

section \<open>Concrete instances\<close>

text \<open>One group of full attention with two tokens per block over four blocks, without prefix caching.\<close>

definition tiny_config :: kv_cache_config where
  "tiny_config = \<lparr>num_blocks = 4, kv_cache_tensors = [], kv_cache_groups = [\<lparr>layer_names = [''l''], kv_cache_spec = small_full\<rparr>],
     num_blocks_per_group = None, dsa_index_topk = None, dsa_num_speculative_tokens = 0\<rparr>"

definition tiny_start :: "kv_cache_manager res" where
  "tiny_start = KVCacheManager (\<lambda>_. 2) no_digest Map.empty False tiny_config 100 2 False False False False 1 1"

definition tiny_run :: "(kv_cache_blocks option \<times> request \<times> kv_cache_manager) res" where
  "tiny_run = rbind tiny_start (allocate_slots no_digest sample_request 3 0 None 0 0 False 0 False)"

lemma tiny_config_ok: "cache_config_ok tiny_config 1 1"
  by (simp add: cache_config_ok_def tiny_config_def manager_config_ok_def small_full_def demo_attn_def spec_ok_def)

lemma tiny_reachable:
  obtains k0 kb r k where "KVCacheManager (\<lambda>_. 2) no_digest Map.empty False tiny_config 100 2 False False False False 1 1 = Inr k0"
    and "tiny_run = Inr (kb, r, k)" and "(kvm_step no_digest)\<^sup>*\<^sup>* k0 k"
proof -
  have "\<not> isl tiny_run" by code_simp
  then obtain kb r k where run: "tiny_run = Inr (kb, r, k)" by (metis prod_cases3 sum.collapse(2))
  then obtain k0 where k0: "tiny_start = Inr k0" "allocate_slots no_digest sample_request 3 0 None 0 0 False 0 False k0 = Inr (kb, r, k)"
    unfolding tiny_run_def rbind_eq_Inr_iff by blast
  have "num_computed_tokens sample_request = 0" by code_simp
  moreover have "kcb_blocks n Empty_Blocks ! i = []" if "i < length (kcb_blocks n Empty_Blocks)" for n i
    using that by (simp add: kcb_blocks_def)
  ultimately have "slots_ok sample_request 3 0 None 0 k0" by (simp add: slots_ok_def computed_ok_def)
  then have "kvm_step no_digest k0 k" by (rule kvm_step.Allocate [OF _ k0(2)])
  then have "(kvm_step no_digest)\<^sup>*\<^sup>* k0 k" by (rule r_into_rtranclp)
  then show thesis using that k0(1) run by (simp add: tiny_start_def)
qed

lemma valid_blk_code [code]: "valid_blk p b = (case b of Blk i \<Rightarrow> int i < num_gpu_blocks p | _ \<Rightarrow> False)"
  by (auto simp: valid_blk_def split: blk.splits)

definition tiny_counts :: "(int list \<times> blk list list \<times> nat) option" where
  "tiny_counts = (case tiny_run of
     Inr (_, _, k) \<Rightarrow> Some (map (\<lambda>i. pool_refs 0 (co_pools (coord k)) (Blk i)) [1..<4], co_get_blocks (coord k) ''a'', npools (co_pools (coord k)))
   | _ \<Rightarrow> None)"

lemma tiny_counts: "tiny_counts = Some ([1, 1, 0], [[Blk 1, Blk 2]], 1)"
  by code_simp

definition tiny_is_gpu :: bool where
  "tiny_is_gpu = (case tiny_run of Inr (_, _, k) \<Rightarrow> (case co_pools (coord k) of Pools _ \<Rightarrow> True | _ \<Rightarrow> False) | _ \<Rightarrow> False)"

lemma tiny_pools: tiny_is_gpu
  by code_simp

lemma tiny_facts:
  assumes "tiny_run = Inr (kb, r, k)"
  shows "map (\<lambda>i. pool_refs 0 (co_pools (coord k)) (Blk i)) [1..<4] = [1, 1, 0]"
    and "co_get_blocks (coord k) ''a'' = [[Blk 1, Blk 2]]" and "npools (co_pools (coord k)) = 1" and "\<exists>l. co_pools (coord k) = Pools l"
  using tiny_counts tiny_pools unfolding tiny_counts_def tiny_is_gpu_def assms by (simp_all split: pools.splits)

theorem cache_manager_reference_counts_witness:
  "\<exists>kb r k k'. tiny_run = Inr (kb, r, k) \<and> map (\<lambda>i. pool_refs 0 (co_pools (coord k)) (Blk i)) [1..<4] = [1, 1, 0] \<and>
     co_refs (coord k) 0 (Blk 1) = 1 \<and> kvm_free no_digest r k = Inr k' \<and> co_get_blocks (coord k') (request_id r) = [[]]"
proof -
  obtain k0 kb r k where k: "KVCacheManager (\<lambda>_. 2) no_digest Map.empty False tiny_config 100 2 False False False False 1 1 = Inr k0"
    "tiny_run = Inr (kb, r, k)" "(kvm_step no_digest)\<^sup>*\<^sup>* k0 k" by (rule tiny_reachable)
  note c = cache_manager_reference_counts [OF tiny_config_ok _ k(1,3), simplified]
  note f = tiny_facts [OF k(2)]
  have "pool_refs 0 (co_pools (coord k)) (Blk 1) = 1" using f(1) by (simp add: upt_rec)
  then have "co_refs (coord k) 0 (Blk 1) = 1" using conjunct1 [OF c] f(3) by simp
  moreover obtain k' where "kvm_free no_digest r k = Inr k'" "co_get_blocks (coord k') (request_id r) = [[]]"
    using spec [OF conjunct2 [OF c], of r] by (auto simp: tiny_config_def)
  ultimately show ?thesis using k(2) f(1) by (intro exI conjI)
qed

theorem cache_manager_well_formed_witness:
  "\<exists>kb r k. tiny_run = Inr (kb, r, k) \<and> req_blocks (single_type_managers (coord k) ! 0) ''a'' = [Blk 1, Blk 2] \<and>
     pool_block (co_pool_index (coord k) 0) (co_pools (coord k)) (Blk 1)"
proof -
  obtain k0 kb r k where k: "KVCacheManager (\<lambda>_. 2) no_digest Map.empty False tiny_config 100 2 False False False False 1 1 = Inr k0"
    "tiny_run = Inr (kb, r, k)" "(kvm_step no_digest)\<^sup>*\<^sup>* k0 k" by (rule tiny_reachable)
  have c: "\<forall>i<length (kv_cache_groups tiny_config). let m = single_type_managers (coord k) ! i in
       distinct (map fst (req_to_blocks m)) \<and>
       (\<forall>rid. distinct (real_blocks (req_blocks m rid)) \<and>
          (\<forall>b\<in>set (req_blocks m rid). b = Blk 0 \<or> pool_block (co_pool_index (coord k) i) (co_pools (coord k)) b))"
    using cache_manager_well_formed [OF tiny_config_ok _ k(1,3)] by simp
  have one: "length (kv_cache_groups tiny_config) = 1" by (simp add: tiny_config_def)
  have "map (\<lambda>m. req_blocks m ''a'') (single_type_managers (coord k)) = [[Blk 1, Blk 2]]"
    using tiny_facts(2) [OF k(2)] by (simp add: co_get_blocks_def req_blocks_def)
  then have b: "req_blocks (single_type_managers (coord k) ! 0) ''a'' = [Blk 1, Blk 2]" by (auto simp: map_eq_Cons_conv)
  moreover have "pool_block (co_pool_index (coord k) 0) (co_pools (coord k)) (Blk 1)"
    using bspec [OF conjunct2 [OF spec [OF conjunct2 [OF c [unfolded one Let_def, rule_format, of 0, simplified]], of "''a''"]], of "Blk 1"]
    by (simp add: b)
  ultimately show ?thesis using k(2) by (intro exI conjI)
qed

theorem reset_exactly_when_idle_witness:
  "\<exists>kb r k ok k'. tiny_run = Inr (kb, r, k) \<and> kvm_reset_prefix_cache k = Inr (ok, k') \<and> \<not> ok \<and> \<not> holds_nothing (coord k)"
proof -
  obtain k0 kb r k where k: "KVCacheManager (\<lambda>_. 2) no_digest Map.empty False tiny_config 100 2 False False False False 1 1 = Inr k0"
    "tiny_run = Inr (kb, r, k)" "(kvm_step no_digest)\<^sup>*\<^sup>* k0 k" by (rule tiny_reachable)
  obtain l where l: "co_pools (coord k) = Pools l" using tiny_facts(4) [OF k(2)] by blast
  obtain ok k' where c: "kvm_reset_prefix_cache k = Inr (ok, k')" "ok = holds_nothing (coord k)"
    using reset_exactly_when_idle [OF tiny_config_ok _ k(1,3)] unfolding l by auto
  have "\<not> holds_nothing (coord k)"
    unfolding holds_nothing_def using tiny_facts(2) [OF k(2)] by (auto intro!: exI [of _ "''a''"])
  then show ?thesis using c k(2) by blast
qed

end
