(* ===== verification/Hybrid_Search.thy ===== *)
theory Hybrid_Search
  imports KV_Cache_Manager
begin

text \<open>
  The prefix-cache search of the hybrid coordinator in \<^verbatim>\<open>kv_cache_coordinator.py\<close>: a fixed point over
  the searches of the attention groups. It always returns, and without the drafting head it returns
  the longest length that every group can use, with the blocks of that length for every group.
\<close>

section \<open>Termination\<close>

text \<open>The length shrinks in every round that is not the last, and a pass never returns a negative one.\<close>

lemma hybrid_loop_returns:
  assumes "P (h, by_group)" and "\<And>s cur by'. P s \<Longrightarrow> pass s = Inr (cur, by') \<Longrightarrow> 0 \<le> cur \<and> P (cur, by')"
  shows "\<exists>r. hybrid_loop pass simple h by_group = Some r"
  using assms(1)
proof (induction "nat h" arbitrary: h by_group rule: less_induct)
  case less
  show ?case
  proof (cases "pass (h, by_group)")
    case (Inl e)
    then show ?thesis by (subst hybrid_loop.simps) simp
  next
    case (Inr s)
    obtain cur by' where s: "s = (cur, by')" by (cases s)
    have cur: "0 \<le> cur" "P (cur, by')" using assms(2) [OF less.prems] Inr s by auto
    show ?thesis
    proof (cases "cur < h \<and> \<not> simple")
      case True
      then have "nat cur < nat h" using cur(1) by simp
      then show ?thesis using less.hyps [OF _ cur(2)] Inr s True by (subst hybrid_loop.simps) simp
    next
      case False
      then show ?thesis using Inr s by (subst hybrid_loop.simps) auto
    qed
  qed
qed

text \<open>Group sizes are positive and every attention group has a cache group.\<close>

definition group_sizes_ok :: "coordinator \<Rightarrow> bool" where
  "group_sizes_ok c \<longleftrightarrow> attention_groups c \<noteq> [] \<and> (\<forall>(spec, gids, cl)\<in>set (attention_groups c). 0 < block_size spec)"

text \<open>A negative length only occurs before the first search of any group.\<close>

definition nonneg_or_new :: "int \<times> blk list option list \<Rightarrow> bool" where
  "nonneg_or_new s \<longleftrightarrow> 0 \<le> fst s \<or> (\<forall>x\<in>set (snd s). x = None)"

lemma hybrid_step_nonneg:
  assumes "hybrid_step p hbs hashes eagle al (spec, gids, cl) s = Inr (cur, by')" and "0 < block_size spec" and "nonneg_or_new s"
  shows "0 \<le> cur"
proof -
  obtain c by_group where s: "s = (c, by_group)" by (cases s)
  obtain g0 cached where i: "py_index gids 0 = Inr g0" "py_index by_group (int g0) = Inr cached"
    using assms(1) by (auto simp: hybrid_step_def s rbind_eq_Inr_iff)
  show ?thesis
  proof (cases "is_full_attention spec \<and> cached \<noteq> None")
    case True
    have "cached \<in> set by_group" using i(2) by (auto simp: py_index_def split: if_splits)
    then have "0 \<le> c" using assms(3) True by (auto simp: nonneg_or_new_def s)
    moreover have "cur = c div block_size spec * block_size spec"
      using assms(1,2) True i by (auto simp: hybrid_step_def s split: if_splits)
    ultimately show ?thesis using assms(2) by (simp add: pos_imp_zdiv_nonneg_iff)
  next
    case False
    then have "\<exists>n. cur = int n * block_size spec"
      using assms(1) i by (auto simp: hybrid_step_def s rbind_eq_Inr_iff split: if_splits)
    then show ?thesis using assms(2) by auto
  qed
qed

lemma hybrid_pass_nonneg:
  assumes "rfold (hybrid_step p hbs hashes eagle al) gs s = Inr (cur, by')" and "\<forall>(spec, gids, cl)\<in>set gs. 0 < block_size spec"
    and "gs \<noteq> []" and "nonneg_or_new s"
  shows "0 \<le> cur"
  using assms
proof (induction gs arbitrary: s)
  case (Cons g gs)
  obtain spec gids cl where g: "g = (spec, gids, cl)" by (cases g)
  obtain s1 where s1: "hybrid_step p hbs hashes eagle al g s = Inr s1" "rfold (hybrid_step p hbs hashes eagle al) gs s1 = Inr (cur, by')"
    using Cons.prems(1) by (auto simp: rbind_eq_Inr_iff)
  have pos: "0 \<le> fst s1"
    using hybrid_step_nonneg [of p hbs hashes eagle al spec gids cl s "fst s1" "snd s1"] s1(1) Cons.prems(2,4) g by simp
  show ?case
  proof (cases "gs = []")
    case True
    then show ?thesis using s1(2) pos by simp
  next
    case False
    then show ?thesis using Cons.IH [OF s1(2)] Cons.prems(2) pos by (simp add: nonneg_or_new_def)
  qed
qed simp

section \<open>What a group accepts\<close>

text \<open>The blocks at the end of a prefix of \<open>L\<close> blocks that the next token needs.\<close>

definition need_of :: "kv_cache_spec \<Rightarrow> nat \<Rightarrow> nat" where
  "need_of spec L =
     (case spec of
        SlidingWindowSpec a w \<Rightarrow> max 1 (nat (cdiv (w - 1) (attn_block_size a)))
      | MambaSpec _ \<Rightarrow> 1
      | _ \<Rightarrow> L)"

text \<open>The groups of a hybrid model: full attention, sliding windows and Mamba, each with its own manager class.\<close>

definition searchable :: "kv_cache_spec \<Rightarrow> manager_class \<Rightarrow> bool" where
  "searchable spec cl \<longleftrightarrow>
     is_full_attention spec \<and> cl \<in> {FullAttentionManager, DSALatentManager, SinkFullAttentionManager} \<or>
     (case spec of SlidingWindowSpec _ _ \<Rightarrow> cl = SlidingWindowManager | MambaSpec _ \<Rightarrow> cl = MambaManager | _ \<Rightarrow> False)"

definition accepts :: "block_pool \<Rightarrow> bytes list \<Rightarrow> int \<Rightarrow> kv_cache_spec \<Rightarrow> nat list \<Rightarrow> nat \<Rightarrow> bool" where
  "accepts p hs al spec gids L \<longleftrightarrow> usable (block_size spec) al (need_of spec L) (\<lambda>i. cached p (map int gids) (hs ! i)) L"

lemma mult_le_iff_div:
  assumes "0 < b" and "0 \<le> n"
  shows "int L * b \<le> n \<longleftrightarrow> L \<le> nat (n div b)"
proof
  assume "int L * b \<le> n"
  from zdiv_mono1 [OF this assms(1)] show "L \<le> nat (n div b)" using assms(1) by simp
next
  assume "L \<le> nat (n div b)"
  then have "int L \<le> n div b" using assms by (simp add: pos_imp_zdiv_nonneg_iff le_nat_iff)
  then have "int L * b \<le> n div b * b" using assms(1) by (simp add: mult_right_mono)
  also have "\<dots> \<le> n" using div_mult_mod_eq [of n b] pos_mod_sign [OF assms(1), of n] by linarith
  finally show "int L * b \<le> n" .
qed

lemma search_spec:
  assumes ok: "pool_inv p xs" and gids: "gids \<noteq> []" "\<forall>g\<in>set gids. group_id_ok (int g)" and hl: "denotes hl hs"
    and sizes: "0 < block_size spec" "0 < al" "0 \<le> n" "nat (n div block_size spec) \<le> length hs" and cl: "searchable spec cl"
  shows "\<exists>L cs. find_longest_cache_hit cl p hl n (map int gids) spec False al 1 1 = Inr cs \<and>
    hit_rows p (map int gids) hs (need_of spec L) L cs \<and> accepts p hs al spec gids L \<and> int L * block_size spec \<le> n \<and>
    (\<forall>L'. accepts p hs al spec gids L' \<and> int L' * block_size spec \<le> n \<longrightarrow> L' \<le> L)"
proof -
  let ?G = "map int gids" and ?hit = "\<lambda>i. cached p (map int gids) (hs ! i)" and ?n = "nat (n div block_size spec)"
  have G: "?G \<noteq> []" "\<forall>g\<in>set ?G. group_id_ok g" using gids by auto
  have le: "int L * block_size spec \<le> n \<longleftrightarrow> L \<le> ?n" for L
    by (rule mult_le_iff_div [OF sizes(1,3)])
  consider (full) "is_full_attention spec" "cl \<in> {FullAttentionManager, DSALatentManager, SinkFullAttentionManager}"
    | (window) a w where "spec = SlidingWindowSpec a w" "cl = SlidingWindowManager"
    | (mamba) s where "spec = MambaSpec s" "cl = MambaManager"
    using cl by (auto simp: searchable_def split: kv_cache_spec.splits)
  then show ?thesis
  proof cases
    case full
    have need: "need_of spec L = L" for L using full(1) by (cases spec) (simp_all add: need_of_def)
    obtain L cs where L: "full_find_longest_cache_hit p hl n ?G spec False al 1 1 = Inr cs" "hit_rows p ?G hs L L cs"
      "aligned (block_size spec) al L" "L + 0 \<le> min ?n (length hs) \<or> L = 0"
      "\<forall>L'. L < L' \<and> L' + 0 \<le> min ?n (length hs) \<and> aligned (block_size spec) al L' \<longrightarrow> (\<exists>i<L' + 0. \<not> cached p ?G (hs ! i))"
      using full_hit_spec [OF ok G hl full(1) sizes(1,3,2) refl, of 0 False] by auto
    have "cached p ?G (hs ! i)" if "i < L" for i
      using L(2) that unfolding hit_rows_def cached_def by (auto simp: in_set_conv_nth) blast
    then have "accepts p hs al spec gids L" using L(3) by (simp add: accepts_def usable_def need)
    moreover have "L' \<le> L" if "accepts p hs al spec gids L'" "L' \<le> ?n" for L'
      using L(5) that sizes(4) by (auto simp: accepts_def usable_def need not_le dest: leI)
    moreover have "L \<le> ?n" using L(4) by auto
    moreover have "find_longest_cache_hit cl = full_find_longest_cache_hit" using full(2) by (auto simp: find_longest_cache_hit_def)
    ultimately show ?thesis using L(1,2) unfolding le need by (intro exI [of _ L] exI [of _ cs]) simp
  next
    case window
    have bs: "block_size spec = attn_block_size a" using window by simp
    have need: "need_of spec L = max 1 (nat (cdiv (w - 1) (attn_block_size a) + (if False then 1 else 0)))" for L
      by (simp add: need_of_def window)
    obtain L cs where L: "window_find_longest_cache_hit p hl n ?G (SlidingWindowSpec a w) False al 1 1 = Inr cs"
      "hit_rows p ?G hs (need_of spec L) L cs" "longest_usable (attn_block_size a) al (need_of spec L) ?hit ?n L"
      using window_hit_spec [OF ok G hl, of a n al False _ w] sizes unfolding need bs by auto
    then have "accepts p hs al spec gids L" "L \<le> ?n" "\<forall>L'. accepts p hs al spec gids L' \<and> L' \<le> ?n \<longrightarrow> L' \<le> L"
      unfolding accepts_def longest_usable_def bs need by (auto simp: not_le [symmetric])
    then show ?thesis using L(1,2) window unfolding le by (auto simp: find_longest_cache_hit_def)
  next
    case mamba
    have bs: "block_size spec = mamba_block_size s" using mamba by simp
    have need: "need_of spec L = 1" for L by (simp add: need_of_def mamba)
    obtain L cs where L: "mamba_find_longest_cache_hit p hl n ?G (MambaSpec s) False al 1 1 = Inr cs"
      "hit_rows p ?G hs 1 L cs" "longest_usable (mamba_block_size s) al 1 ?hit ?n L"
      using mamba_hit_spec [OF ok G hl sizes(2), of n s False] sizes(1,4) unfolding bs by auto
    then have "accepts p hs al spec gids L" "L \<le> ?n" "\<forall>L'. accepts p hs al spec gids L' \<and> L' \<le> ?n \<longrightarrow> L' \<le> L"
      unfolding accepts_def longest_usable_def bs need by (auto simp: not_le [symmetric])
    then show ?thesis using L(1,2) mamba need unfolding le by (auto simp: find_longest_cache_hit_def)
  qed
qed

lemma get_block_hashes_spec:
  assumes ok: "block_size_ok hbs (block_size spec)" and enough: "n div hbs \<le> int (length hashes)" "0 \<le> n"
  shows "\<exists>hl. get_block_hashes hbs hashes spec = Inr hl \<and> denotes hl (group_hashes hbs (block_size spec) hashes) \<and>
    nat (n div block_size spec) \<le> length (group_hashes hbs (block_size spec) hashes)"
proof (cases "block_size spec = hbs")
  case True
  then show ?thesis using enough by (simp add: get_block_hashes_def group_hashes_def)
next
  case False
  define hb f where "hb = nat hbs" and "f = nat (block_size spec div hbs)"
  have pos: "0 < hb" and hbs: "hbs = int hb" and mod: "block_size spec = hbs * (block_size spec div hbs)"
    using ok by (auto simp: hb_def block_size_ok_def)
  have "0 < block_size spec div hbs" using ok mod unfolding block_size_ok_def by (metis zero_less_mult_pos)
  then have f: "0 < f" "block_size spec = int (f * hb)" using mod hbs by (auto simp: f_def mult.commute)
  obtain v where v: "BlockHashListWithBlockSize hashes (int hb) (int (f * hb)) = Inr v" "hv_len v = Inr (int (length hashes div f))"
    "\<forall>i<length hashes div f. hv_get_value_at v (int i) = Inr (concat (take f (drop (i * f) hashes)))"
    using hash_view_spec [OF pos f(1)] by blast
  have gh: "group_hashes hbs (block_size spec) hashes = map (\<lambda>i. concat (take f (drop (i * f) hashes))) [0..<length hashes div f]"
    using False by (simp add: group_hashes_def f_def Let_def)
  have "denotes (View v) (group_hashes hbs (block_size spec) hashes)"
    unfolding gh denotes_def using v(2,3) by (simp add: hl_len_def hl_at_def)
  moreover have "nat (n div block_size spec) \<le> length hashes div f"
  proof -
    have "n div block_size spec = n div hbs div int f" unfolding f(2) hbs of_nat_mult by (subst mult.commute, rule zdiv_zmult2_eq) simp
    also have "\<dots> \<le> int (length hashes) div int f" using enough(1) f(1) by (intro zdiv_mono1) simp_all
    finally show ?thesis by (simp add: zdiv_int nat_le_iff)
  qed
  ultimately show ?thesis using False v(1) f(2) hbs unfolding gh by (simp add: get_block_hashes_def)
qed

section \<open>One pass over the groups\<close>

type_synonym attention_group = "kv_cache_spec \<times> nat list \<times> manager_class"

abbreviation g_spec :: "attention_group \<Rightarrow> kv_cache_spec" where "g_spec \<equiv> fst"
abbreviation g_ids :: "attention_group \<Rightarrow> nat list" where "g_ids g \<equiv> fst (snd g)"
abbreviation g_size :: "attention_group \<Rightarrow> int" where "g_size g \<equiv> block_size (fst g)"
abbreviation g_hashes :: "int \<Rightarrow> bytes list \<Rightarrow> attention_group \<Rightarrow> bytes list" where
  "g_hashes hbs hashes g \<equiv> group_hashes hbs (block_size (fst g)) hashes"

text \<open>Length \<open>n\<close> is usable in the group; the blocks found for it are the entries of the group's cache groups.\<close>

definition group_accepts :: "block_pool \<Rightarrow> int \<Rightarrow> bytes list \<Rightarrow> int \<Rightarrow> attention_group \<Rightarrow> int \<Rightarrow> bool" where
  "group_accepts p hbs hashes al g n \<longleftrightarrow>
     (\<exists>L. n = int L * g_size g \<and> accepts p (g_hashes hbs hashes g) al (g_spec g) (g_ids g) L)"

definition entry_at :: "block_pool \<Rightarrow> int \<Rightarrow> bytes list \<Rightarrow> int \<Rightarrow> blk list option list \<Rightarrow> attention_group \<Rightarrow> nat \<Rightarrow> bool" where
  "entry_at p hbs hashes al xs g L \<longleftrightarrow> accepts p (g_hashes hbs hashes g) al (g_spec g) (g_ids g) L \<and>
     (\<exists>cs. hit_rows p (map int (g_ids g)) (g_hashes hbs hashes g) (need_of (g_spec g) L) L cs \<and>
        (\<forall>j<length (g_ids g). xs ! (g_ids g ! j) = Some (cs ! j)))"

definition group_ok :: "int \<Rightarrow> int \<Rightarrow> nat \<Rightarrow> attention_group \<Rightarrow> bool" where
  "group_ok hbs al N g \<longleftrightarrow> g_ids g \<noteq> [] \<and> (\<forall>i\<in>set (g_ids g). i < N \<and> group_id_ok (int i)) \<and> distinct (g_ids g) \<and>
     block_size_ok hbs (g_size g) \<and> g_size g dvd al \<and> searchable (g_spec g) (snd (snd g))"

lemma accepts_dvd: "accepts p hs al spec gids L \<Longrightarrow> al dvd int L * block_size spec"
  by (auto simp: accepts_def usable_def aligned_def)

lemma entry_cong:
  assumes "entry_at p hbs hashes al xs g L" and "\<And>i. i \<in> set (g_ids g) \<Longrightarrow> ys ! i = xs ! i"
  shows "entry_at p hbs hashes al ys g L"
  using assms by (auto simp: entry_at_def)

lemma fold_set_entries:
  fixes xs :: "blk list option list"
  assumes "distinct gids" and "length cs = length gids" and "\<forall>i\<in>set gids. i < length xs"
  defines "ys \<equiv> fold (\<lambda>(g, bs) xs. xs[g := Some bs]) (zip gids cs) xs"
  shows "length ys = length xs" and "j < length gids \<Longrightarrow> ys ! (gids ! j) = Some (cs ! j)" and "i \<notin> set gids \<Longrightarrow> ys ! i = xs ! i"
proof -
  let ?f = "\<lambda>(g, bs) (xs :: blk list option list). xs[g := Some bs]"
  have main: "length (fold ?f (zip gids cs) xs) = length xs \<and> (\<forall>j<length gids. fold ?f (zip gids cs) xs ! (gids ! j) = Some (cs ! j)) \<and>
      (\<forall>i. i \<notin> set gids \<longrightarrow> fold ?f (zip gids cs) xs ! i = xs ! i)"
    if "distinct gids" "length cs = length gids" "\<forall>i\<in>set gids. i < length xs" for gids cs xs
    using that
  proof (induction gids arbitrary: cs xs)
    case (Cons g gids)
    obtain b bs where cs: "cs = b # bs" "length bs = length gids" using Cons.prems(2) by (cases cs) auto
    note IH = Cons.IH [of bs "xs[g := Some b]"]
    have i: "length (fold ?f (zip gids bs) (xs[g := Some b])) = length xs"
      "\<forall>j<length gids. fold ?f (zip gids bs) (xs[g := Some b]) ! (gids ! j) = Some (bs ! j)"
      "\<forall>i. i \<notin> set gids \<longrightarrow> fold ?f (zip gids bs) (xs[g := Some b]) ! i = xs[g := Some b] ! i"
      using IH Cons.prems cs(2) by auto
    then have "fold ?f (zip gids bs) (xs[g := Some b]) ! g = Some b" using Cons.prems by simp
    then show ?case using i cs(1) Cons.prems by (auto simp: nth_Cons' nth_list_update_neq)
  qed simp
  show "length ys = length xs" "j < length gids \<Longrightarrow> ys ! (gids ! j) = Some (cs ! j)" "i \<notin> set gids \<Longrightarrow> ys ! i = xs ! i"
    using main [OF assms(1-3)] unfolding ys_def by blast+
qed

text \<open>A search of one group.\<close>

lemma hybrid_step_search:
  assumes ok: "pool_inv p fl" and g: "group_ok hbs al N g" and al: "0 < al" and len: "length xs = N"
    and cur: "0 \<le> cur" "cur div hbs \<le> int (length hashes)"
    and new: "\<not> (is_full_attention (g_spec g) \<and> xs ! hd (g_ids g) \<noteq> None)"
  shows "\<exists>L ys. hybrid_step p hbs hashes False al g (cur, xs) = Inr (int L * g_size g, ys) \<and> length ys = N \<and>
    entry_at p hbs hashes al ys g L \<and> int L * g_size g \<le> cur \<and>
    (\<forall>n. group_accepts p hbs hashes al g n \<and> n \<le> cur \<longrightarrow> n \<le> int L * g_size g) \<and> (\<forall>i. i \<notin> set (g_ids g) \<longrightarrow> ys ! i = xs ! i)"
proof -
  obtain spec gids cl where gg: "g = (spec, gids, cl)" by (cases g)
  have ids: "gids \<noteq> []" "\<forall>i\<in>set gids. i < N \<and> group_id_ok (int i)" "distinct gids" and sz: "block_size_ok hbs (block_size spec)" and cl: "searchable spec cl"
    using g by (auto simp: group_ok_def gg)
  have pos: "0 < block_size spec" using sz by (simp add: block_size_ok_def)
  obtain hl where hl: "get_block_hashes hbs hashes spec = Inr hl" "denotes hl (group_hashes hbs (block_size spec) hashes)"
    "nat (cur div block_size spec) \<le> length (group_hashes hbs (block_size spec) hashes)"
    using get_block_hashes_spec [OF sz cur(2,1)] by blast
  obtain L cs where L: "find_longest_cache_hit cl p hl cur (map int gids) spec False al 1 1 = Inr cs"
    "hit_rows p (map int gids) (group_hashes hbs (block_size spec) hashes) (need_of spec L) L cs"
    "accepts p (group_hashes hbs (block_size spec) hashes) al spec gids L" "int L * block_size spec \<le> cur"
    "\<forall>L'. accepts p (group_hashes hbs (block_size spec) hashes) al spec gids L' \<and> int L' * block_size spec \<le> cur \<longrightarrow> L' \<le> L"
    using search_spec [OF ok ids(1) _ hl(2) pos al cur(1) hl(3) cl] ids(2) by blast
  have cs: "length cs = length gids" "length (cs ! 0) = L" using L(2) ids(1) by (auto simp: hit_rows_def)
  define ys where "ys = fold (\<lambda>(g, bs) xs. xs[g := Some bs]) (zip gids cs) xs"
  have ys: "length ys = N" "\<And>j. j < length gids \<Longrightarrow> ys ! (gids ! j) = Some (cs ! j)" "\<And>i. i \<notin> set gids \<Longrightarrow> ys ! i = xs ! i"
    using fold_set_entries [OF ids(3) cs(1), of xs] ids(2) len unfolding ys_def by auto
  have first: "py_index gids 0 = Inr (hd gids)" "py_index xs (int (hd gids)) = Inr (xs ! hd gids)" "py_index cs 0 = Inr (cs ! 0)"
    using ids cs len by (auto simp: py_index_def hd_conv_nth)
  have "hybrid_step p hbs hashes False al g (cur, xs) = Inr (int L * block_size spec, ys)"
    using new L(1) hl(1) cs(2) unfolding hybrid_step_def gg by (auto simp: first ys_def)
  moreover have "n \<le> int L * block_size spec" if "group_accepts p hbs hashes al g n" "n \<le> cur" for n
    using that L(5) pos by (auto simp: group_accepts_def gg mult_right_mono)
  ultimately show ?thesis using ys L(2,3,4) by (intro exI [of _ L] exI [of _ ys]) (auto simp: gg entry_at_def)
qed

text \<open>A later round only rounds the length of a full attention group, and an aligned length stays.\<close>

lemma hybrid_step_cached:
  assumes g: "group_ok hbs al N g" and len: "length xs = N" and cur: "al dvd cur"
    and old: "is_full_attention (g_spec g)" "xs ! hd (g_ids g) \<noteq> None"
  shows "hybrid_step p hbs hashes False al g (cur, xs) = Inr (cur, xs)"
proof -
  obtain spec gids cl where gg: "g = (spec, gids, cl)" by (cases g)
  have ids: "gids \<noteq> []" "\<forall>i\<in>set gids. i < N" and pos: "0 < block_size spec" and d: "block_size spec dvd cur"
    using g cur by (auto simp: group_ok_def gg block_size_ok_def intro: dvd_trans)
  have "py_index gids 0 = Inr (hd gids)" "py_index xs (int (hd gids)) = Inr (xs ! hd gids)"
    using ids len by (auto simp: py_index_def hd_conv_nth)
  then show ?thesis using old pos d by (simp add: hybrid_step_def gg)
qed

text \<open>What a pass over the groups \<open>gs\<close> makes of the candidate length \<open>cur\<close> and the entries \<open>xs\<close>.\<close>

definition found_before :: "block_pool \<Rightarrow> int \<Rightarrow> bytes list \<Rightarrow> int \<Rightarrow> attention_group list \<Rightarrow> int \<times> blk list option list \<Rightarrow> bool" where
  "found_before p hbs hashes al gs s \<longleftrightarrow> (\<forall>g\<in>set gs. is_full_attention (g_spec g) \<and> snd s ! hd (g_ids g) \<noteq> None \<longrightarrow>
     al dvd fst s \<and> (\<exists>L. entry_at p hbs hashes al (snd s) g L \<and> fst s \<le> int L * g_size g))"

text \<open>A pass searches every group but a full attention group that has its blocks.\<close>

definition searched :: "attention_group \<Rightarrow> int \<times> blk list option list \<Rightarrow> bool" where
  "searched g s \<longleftrightarrow> \<not> (is_full_attention (g_spec g) \<and> snd s ! hd (g_ids g) \<noteq> None)"

definition pass_result :: "block_pool \<Rightarrow> int \<Rightarrow> bytes list \<Rightarrow> int \<Rightarrow> attention_group list \<Rightarrow> int \<times> blk list option list \<Rightarrow>
    int \<times> blk list option list \<Rightarrow> bool" where
  "pass_result p hbs hashes al gs s s' \<longleftrightarrow>
     length (snd s') = length (snd s) \<and> 0 \<le> fst s' \<and> fst s' \<le> fst s \<and> (gs \<noteq> [] \<longrightarrow> al dvd fst s') \<and>
     (\<forall>n. (\<forall>g\<in>set gs. group_accepts p hbs hashes al g n) \<and> n \<le> fst s \<longrightarrow> n \<le> fst s') \<and>
     (\<forall>g\<in>set gs. \<exists>L. entry_at p hbs hashes al (snd s') g L \<and> fst s' \<le> int L * g_size g \<and>
        (searched g s \<longrightarrow> int L * g_size g \<le> fst s \<and> (g = last gs \<longrightarrow> int L * g_size g = fst s'))) \<and>
     (\<forall>i. i \<notin> (\<Union>g\<in>set gs. set (g_ids g)) \<longrightarrow> snd s' ! i = snd s ! i)"

lemma pass_resultD:
  assumes "pass_result p hbs hashes al gs s s'"
  shows "length (snd s') = length (snd s)" and "0 \<le> fst s'" and "fst s' \<le> fst s" and "gs \<noteq> [] \<Longrightarrow> al dvd fst s'"
    and "\<forall>g\<in>set gs. group_accepts p hbs hashes al g n \<Longrightarrow> n \<le> fst s \<Longrightarrow> n \<le> fst s'"
    and "g \<in> set gs \<Longrightarrow> \<exists>L. entry_at p hbs hashes al (snd s') g L \<and> fst s' \<le> int L * g_size g \<and>
        (searched g s \<longrightarrow> int L * g_size g \<le> fst s \<and> (g = last gs \<longrightarrow> int L * g_size g = fst s'))"
    and "\<forall>g\<in>set gs. i \<notin> set (g_ids g) \<Longrightarrow> snd s' ! i = snd s ! i"
  using assms unfolding pass_result_def by blast+

lemma pass_result_step:
  assumes disj: "\<forall>h\<in>set gs. set (g_ids h) \<inter> set (g_ids g) = {}" and len: "length (snd s1) = length (snd s)"
    and e: "entry_at p hbs hashes al (snd s1) g L" "fst s1 \<le> int L * g_size g"
      "searched g s \<longrightarrow> int L * g_size g = fst s1"
    and s1: "0 \<le> fst s1" "fst s1 \<le> fst s" "al dvd fst s1" "\<forall>n. group_accepts p hbs hashes al g n \<and> n \<le> fst s \<longrightarrow> n \<le> fst s1"
      "\<forall>i. i \<notin> set (g_ids g) \<longrightarrow> snd s1 ! i = snd s ! i"
    and rest: "pass_result p hbs hashes al gs s1 s2" and ids: "\<forall>h\<in>set (g # gs). g_ids h \<noteq> []"
  shows "pass_result p hbs hashes al (g # gs) s s2"
proof -
  have "snd s2 ! i = snd s1 ! i" if "i \<in> set (g_ids g)" for i
    using disj that by (intro pass_resultD(7) [OF rest]) blast
  then have keep: "entry_at p hbs hashes al (snd s2) g L" by (intro entry_cong [OF e(1)]) auto
  note r = pass_resultD [OF rest]
  have last: "gs = [] \<Longrightarrow> fst s2 = fst s1" using r(3) r(5) [of "fst s1"] by simp
  have fresh: "g \<notin> set gs" using disj ids by auto
  have entries: "\<exists>L. entry_at p hbs hashes al (snd s2) h L \<and> fst s2 \<le> int L * g_size h \<and>
        (searched h s \<longrightarrow> int L * g_size h \<le> fst s \<and> (h = last (g # gs) \<longrightarrow> int L * g_size h = fst s2))"
    if h: "h \<in> set (g # gs)" for h
  proof (cases "h = g")
    case True
    have "fst s2 = fst s1" if "g = last (g # gs)" using last that fresh by (cases "gs = []") auto
    moreover have "fst s2 \<le> int L * g_size g" using r(3) e(2) by linarith
    ultimately show ?thesis using keep e(3) s1(2) unfolding True by (intro exI [of _ L]) simp
  next
    case False
    then have "h \<in> set gs" using h by simp
    from r(6) [OF this] obtain L' where L': "entry_at p hbs hashes al (snd s2) h L'" "fst s2 \<le> int L' * g_size h"
      "searched h s1 \<longrightarrow> int L' * g_size h \<le> fst s1 \<and> (h = last gs \<longrightarrow> int L' * g_size h = fst s2)"
      by blast
    have "hd (g_ids h) \<in> set (g_ids h)" using ids h by (intro hd_in_set) blast
    then have "hd (g_ids h) \<notin> set (g_ids g)" using disj \<open>h \<in> set gs\<close> by blast
    then have "searched h s1 = searched h s" using s1(5) by (simp add: searched_def)
    moreover have "last (g # gs) = last gs" using False h by auto
    ultimately show ?thesis using L' s1(2) by (intro exI [of _ L']) auto
  qed
  have dvd: "al dvd fst s2" using r(4) last s1(3) by (cases "gs = []") simp_all
  have most: "n \<le> fst s2" if "\<forall>h\<in>set (g # gs). group_accepts p hbs hashes al h n" "n \<le> fst s" for n
    using that s1(4) r(5) [of n] by simp
  have others: "snd s2 ! i = snd s ! i" if "i \<notin> (\<Union>h\<in>set (g # gs). set (g_ids h))" for i
    using that s1(5) r(7) [of i] by simp
  show ?thesis unfolding pass_result_def
    using r(1-3) s1(2) len entries dvd most others by (intro conjI ballI allI impI) (simp, simp, simp, simp, blast, blast, blast)
qed

definition step_result :: "block_pool \<Rightarrow> int \<Rightarrow> bytes list \<Rightarrow> int \<Rightarrow> attention_group \<Rightarrow> int \<times> blk list option list \<Rightarrow>
    int \<times> blk list option list \<Rightarrow> nat \<Rightarrow> bool" where
  "step_result p hbs hashes al g s s1 L \<longleftrightarrow>
     length (snd s1) = length (snd s) \<and> entry_at p hbs hashes al (snd s1) g L \<and> fst s1 \<le> int L * g_size g \<and>
     (searched g s \<longrightarrow> int L * g_size g = fst s1) \<and> 0 \<le> fst s1 \<and> fst s1 \<le> fst s \<and> al dvd fst s1 \<and>
     (\<forall>n. group_accepts p hbs hashes al g n \<and> n \<le> fst s \<longrightarrow> n \<le> fst s1) \<and>
     (\<forall>i. i \<notin> set (g_ids g) \<longrightarrow> snd s1 ! i = snd s ! i)"

lemma hybrid_step_spec:
  assumes ok: "pool_inv p fl" and g: "group_ok hbs al N g" and al: "0 < al" and len: "length (snd s) = N"
    and cur: "0 \<le> fst s" "fst s div hbs \<le> int (length hashes)" and old: "found_before p hbs hashes al [g] s"
  shows "\<exists>s1 L. hybrid_step p hbs hashes False al g s = Inr s1 \<and> step_result p hbs hashes al g s s1 L"
proof (cases "is_full_attention (g_spec g) \<and> snd s ! hd (g_ids g) \<noteq> None")
  case True
  obtain c xs where s: "s = (c, xs)" by (cases s)
  obtain L where L: "al dvd c" "entry_at p hbs hashes al xs g L" "c \<le> int L * g_size g"
    using old True by (auto simp: found_before_def s)
  have "hybrid_step p hbs hashes False al g (c, xs) = Inr (c, xs)"
    using True len L(1) by (intro hybrid_step_cached [OF g]) (simp_all add: s)
  then show ?thesis using L True cur by (intro exI [of _ s] exI [of _ L]) (simp add: s step_result_def searched_def)
next
  case False
  obtain c xs where s: "s = (c, xs)" by (cases s)
  have new: "\<not> (is_full_attention (g_spec g) \<and> xs ! hd (g_ids g) \<noteq> None)" using False s by simp
  obtain L ys where L: "hybrid_step p hbs hashes False al g (c, xs) = Inr (int L * g_size g, ys)" "length ys = N"
    "entry_at p hbs hashes al ys g L" "int L * g_size g \<le> c"
    "\<forall>n. group_accepts p hbs hashes al g n \<and> n \<le> c \<longrightarrow> n \<le> int L * g_size g" "\<forall>i. i \<notin> set (g_ids g) \<longrightarrow> ys ! i = xs ! i"
    using hybrid_step_search [OF ok g al _ _ _ new, of c hashes] len cur by (auto simp: s)
  have "0 < g_size g" using g by (simp add: group_ok_def block_size_ok_def)
  moreover have "al dvd int L * g_size g" using L(3) accepts_dvd by (auto simp: entry_at_def)
  ultimately show ?thesis using L len
    by (intro exI [of _ "(int L * g_size g, ys)"] exI [of _ L]) (simp add: s step_result_def searched_def)
qed

lemma found_before_step:
  assumes old: "found_before p hbs hashes al (g # gs) s" and st: "step_result p hbs hashes al g s s1 L"
    and disj: "\<forall>h\<in>set gs. set (g_ids h) \<inter> set (g_ids g) = {}" and ids: "\<forall>h\<in>set gs. g_ids h \<noteq> []"
  shows "found_before p hbs hashes al gs s1"
  unfolding found_before_def
proof (intro ballI impI)
  fix h assume h: "h \<in> set gs" and f: "is_full_attention (g_spec h) \<and> snd s1 ! hd (g_ids h) \<noteq> None"
  have same: "snd s1 ! i = snd s ! i" if "i \<in> set (g_ids h)" for i
  proof -
    have "i \<notin> set (g_ids g)" using disj h that by blast
    then show ?thesis using st by (simp add: step_result_def)
  qed
  have "hd (g_ids h) \<in> set (g_ids h)" using ids h by simp
  then have "is_full_attention (g_spec h) \<and> snd s ! hd (g_ids h) \<noteq> None" using f same by simp
  moreover have "h \<in> set (g # gs)" using h by simp
  ultimately obtain L' where L': "entry_at p hbs hashes al (snd s) h L'" "fst s \<le> int L' * g_size h"
    using old unfolding found_before_def by blast
  have "entry_at p hbs hashes al (snd s1) h L'" using same by (rule entry_cong [OF L'(1)])
  then show "al dvd fst s1 \<and> (\<exists>L. entry_at p hbs hashes al (snd s1) h L \<and> fst s1 \<le> int L * g_size h)"
    using L'(2) st unfolding step_result_def by (intro conjI exI [of _ L']) linarith+
qed

lemma hybrid_pass_spec:
  assumes ok: "pool_inv p fl" and gs: "\<forall>g\<in>set gs. group_ok hbs al N g" and al: "0 < al" "0 < hbs"
    and dist: "distinct (concat (map g_ids gs))" and len: "length (snd s) = N"
    and cur: "0 \<le> fst s" "fst s div hbs \<le> int (length hashes)" and old: "found_before p hbs hashes al gs s"
  shows "\<exists>s'. rfold (hybrid_step p hbs hashes False al) gs s = Inr s' \<and> pass_result p hbs hashes al gs s s'"
  using gs dist len cur old
proof (induction gs arbitrary: s)
  case Nil
  then show ?case by (simp add: pass_result_def)
next
  case (Cons g gs)
  have g: "group_ok hbs al N g" and ids: "\<forall>h\<in>set (g # gs). g_ids h \<noteq> []" using Cons.prems(1) by (auto simp: group_ok_def)
  have disj: "\<forall>h\<in>set gs. set (g_ids h) \<inter> set (g_ids g) = {}" using Cons.prems(2) by auto
  have "found_before p hbs hashes al [g] s" using Cons.prems(6) by (simp add: found_before_def)
  then obtain s1 L where st: "hybrid_step p hbs hashes False al g s = Inr s1" "step_result p hbs hashes al g s s1 L"
    using hybrid_step_spec [OF ok g al(1) Cons.prems(3-5)] by blast
  note s1 = st(2) [unfolded step_result_def]
  have "fst s1 div hbs \<le> fst s div hbs" using s1 al(2) by (intro zdiv_mono1) simp_all
  then obtain s' where s': "rfold (hybrid_step p hbs hashes False al) gs s1 = Inr s'" "pass_result p hbs hashes al gs s1 s'"
    using Cons.IH [of s1] Cons.prems(1-3,5) s1 found_before_step [OF Cons.prems(6) st(2) disj] ids by auto
  have "pass_result p hbs hashes al (g # gs) s s'"
    by (rule pass_result_step [OF disj _ _ _ _ _ _ _ _ _ s'(2) ids, of s L]) (use s1 in blast)+
  then show ?case using st(1) s'(1) by simp
qed

section \<open>The loop over passes\<close>

definition simple_hybrid :: "attention_group list \<Rightarrow> bool" where
  "simple_hybrid gs \<longleftrightarrow> length gs = 2 \<and> is_full_attention (g_spec (hd gs))"

text \<open>The groups whose entries are exactly as long as the result before any truncation.\<close>

definition exact :: "attention_group list \<Rightarrow> attention_group \<Rightarrow> bool" where
  "exact gs g \<longleftrightarrow> \<not> is_full_attention (g_spec g) \<or> simple_hybrid gs \<and> g = last gs"

definition loop_result :: "block_pool \<Rightarrow> int \<Rightarrow> bytes list \<Rightarrow> int \<Rightarrow> attention_group list \<Rightarrow> int \<Rightarrow> int \<Rightarrow> blk list option list \<Rightarrow> bool" where
  "loop_result p hbs hashes al gs h n ys \<longleftrightarrow> 0 \<le> n \<and> n \<le> h \<and> al dvd n \<and>
     (\<forall>m. (\<forall>g\<in>set gs. group_accepts p hbs hashes al g m) \<and> m \<le> h \<longrightarrow> m \<le> n) \<and>
     (\<forall>g\<in>set gs. \<exists>L. entry_at p hbs hashes al ys g L \<and> n \<le> int L * g_size g \<and>
        (exact gs g \<longrightarrow> int L * g_size g = n))"

lemma loop_result_exit:
  assumes r: "pass_result p hbs hashes al gs s s'" and gs: "gs \<noteq> []"
    and stop: "fst s' \<ge> fst s \<or> simple_hybrid gs" and new: "simple_hybrid gs \<Longrightarrow> \<forall>g\<in>set gs. searched g s"
  shows "loop_result p hbs hashes al gs (fst s) (fst s') (snd s')"
proof -
  have "\<exists>L. entry_at p hbs hashes al (snd s') g L \<and> fst s' \<le> int L * g_size g \<and>
      (exact gs g \<longrightarrow> int L * g_size g = fst s')" if g: "g \<in> set gs" for g
  proof -
    obtain L where L: "entry_at p hbs hashes al (snd s') g L" "fst s' \<le> int L * g_size g"
      "searched g s \<longrightarrow> int L * g_size g \<le> fst s \<and> (g = last gs \<longrightarrow> int L * g_size g = fst s')"
      using pass_resultD(6) [OF r g] by blast
    have "int L * g_size g = fst s'" if "exact gs g"
    proof (cases "simple_hybrid gs")
      case True
      then have "g = last gs" using g that by (cases gs rule: remdups_adj.cases) (auto simp: exact_def simple_hybrid_def)
      then show ?thesis using L(3) new [OF True] g by blast
    next
      case False
      then have "searched g s" "fst s \<le> fst s'" using that stop by (auto simp: exact_def searched_def)
      then show ?thesis using L(2,3) by linarith
    qed
    then show ?thesis using L(1,2) by blast
  qed
  moreover have "0 \<le> fst s'" "fst s' \<le> fst s" "al dvd fst s'"
    "\<forall>m. (\<forall>g\<in>set gs. group_accepts p hbs hashes al g m) \<and> m \<le> fst s \<longrightarrow> m \<le> fst s'"
    using pass_resultD(2-5) [OF r] gs by blast+
  ultimately show ?thesis unfolding loop_result_def by (intro conjI ballI)
qed

lemma pass_result_again:
  assumes r: "pass_result p hbs hashes al gs s s'" and gs: "gs \<noteq> []"
  shows "found_before p hbs hashes al gs s'"
proof -
  have "al dvd fst s'" using pass_resultD(4) [OF r] gs .
  moreover have "\<exists>L. entry_at p hbs hashes al (snd s') g L \<and> fst s' \<le> int L * g_size g" if "g \<in> set gs" for g
    using pass_resultD(6) [OF r that] by blast
  ultimately show ?thesis by (simp add: found_before_def)
qed

lemma loop_result_trans:
  assumes "pass_result p hbs hashes al gs s s'" and "loop_result p hbs hashes al gs (fst s') n ys"
  shows "loop_result p hbs hashes al gs (fst s) n ys"
proof -
  have s: "fst s' \<le> fst s" "\<And>m. \<forall>g\<in>set gs. group_accepts p hbs hashes al g m \<Longrightarrow> m \<le> fst s \<Longrightarrow> m \<le> fst s'"
    using pass_resultD(3,5) [OF assms(1)] by blast+
  have n: "n \<le> fst s'" "\<And>m. \<forall>g\<in>set gs. group_accepts p hbs hashes al g m \<Longrightarrow> m \<le> fst s' \<Longrightarrow> m \<le> n"
    using assms(2) unfolding loop_result_def by blast+
  have "\<forall>m. (\<forall>g\<in>set gs. group_accepts p hbs hashes al g m) \<and> m \<le> fst s \<longrightarrow> m \<le> n" using s(2) n(2) by blast
  moreover have "n \<le> fst s" using s(1) n(1) by linarith
  ultimately show ?thesis using assms(2) unfolding loop_result_def by (elim conjE, intro conjI) assumption+
qed

lemma hybrid_loop_spec:
  assumes ok: "pool_inv p fl" and gs: "gs \<noteq> []" "\<forall>g\<in>set gs. group_ok hbs al N g" and al: "0 < al" "0 < hbs"
    and dist: "distinct (concat (map g_ids gs))"
    and simple: "simple = simple_hybrid gs" and new: "simple \<Longrightarrow> \<forall>g\<in>set gs. searched g (h, xs)"
    and len: "length xs = N" and cur: "0 \<le> h" "h div hbs \<le> int (length hashes)" and old: "found_before p hbs hashes al gs (h, xs)"
  shows "\<exists>n ys. hybrid_loop (rfold (hybrid_step p hbs hashes False al) gs) simple h xs = Some (Inr (n, ys)) \<and>
    length ys = N \<and> loop_result p hbs hashes al gs h n ys"
  using len cur old new
proof (induction "nat h" arbitrary: h xs rule: less_induct)
  case less
  obtain c ys where p: "rfold (hybrid_step p hbs hashes False al) gs (h, xs) = Inr (c, ys)" "pass_result p hbs hashes al gs (h, xs) (c, ys)"
    using hybrid_pass_spec [OF ok gs(2) al dist, of "(h, xs)" hashes] less.prems by auto
  have c: "0 \<le> c" "c \<le> h" "length ys = N" using pass_resultD(1-3) [OF p(2)] less.prems(1) by simp_all
  have unfold: "hybrid_loop (rfold (hybrid_step p hbs hashes False al) gs) simple h xs =
      (if c \<ge> h then Some (Inr (h, ys)) else if simple then Some (Inr (c, ys))
       else hybrid_loop (rfold (hybrid_step p hbs hashes False al) gs) simple c ys)"
    by (subst hybrid_loop.simps) (simp add: p(1))
  consider "c \<ge> h" | "c < h" "simple" | "c < h" "\<not> simple" by linarith
  then show ?case
  proof cases
    case 1
    then have "loop_result p hbs hashes al gs h h ys" using loop_result_exit [OF p(2) gs(1)] c less.prems(5) simple by simp
    then show ?thesis using 1 c(3) by (intro exI [of _ h] exI [of _ ys]) (simp add: unfold)
  next
    case 2
    have "loop_result p hbs hashes al gs h c ys" using loop_result_exit [OF p(2) gs(1)] less.prems(5) simple 2(2) by simp
    then show ?thesis using 2 c(3) unfold by (intro exI [of _ c] exI [of _ ys]) simp
  next
    case 3
    have "c div hbs \<le> int (length hashes)" using zdiv_mono1 [OF c(2) al(2)] less.prems(3) by (rule order_trans)
    moreover have "nat c < nat h" using 3(1) c(1) by simp
    ultimately obtain n zs where z: "hybrid_loop (rfold (hybrid_step p hbs hashes False al) gs) simple c ys = Some (Inr (n, zs))"
      "length zs = N" "loop_result p hbs hashes al gs c n zs"
      using less.hyps [of c ys] c(1,3) pass_result_again [OF p(2) gs(1)] 3(2) by blast
    have "loop_result p hbs hashes al gs h n zs" using loop_result_trans [OF p(2)] z(3) by simp
    then show ?thesis using 3 z(1,2) unfold by (intro exI [of _ n] exI [of _ zs]) simp
  qed
qed

section \<open>Truncating the full attention group\<close>

lemma truncate_fold:
  assumes "distinct gids"
  shows "length (fold (truncate_group k) gids xs) = length xs" and "i \<notin> set gids \<Longrightarrow> fold (truncate_group k) gids xs ! i = xs ! i"
    and "\<forall>i\<in>set gids. i < length xs \<Longrightarrow> i \<in> set gids \<Longrightarrow>
      fold (truncate_group k) gids xs ! i = map_option (\<lambda>bs. py_slice bs 0 k) (xs ! i)"
  using assms
proof (induction gids arbitrary: xs)
  case (Cons g gids)
  { case 1 then show ?case using Cons.IH(1) by (simp add: truncate_group_def) }
  { case 2 then show ?case using Cons.IH(2) by (simp add: truncate_group_def) }
  { case 3 then show ?case using Cons.IH(2,3) by (cases "i = g") (auto simp: truncate_group_def) }
qed simp_all

lemma full_prefix:
  assumes full: "is_full_attention (g_spec g)" and pos: "0 < g_size g" "g_size g dvd al" and n: "0 \<le> n" "al dvd n" "n \<le> int L * g_size g"
    and e: "entry_at p hbs hashes al xs g L"
  defines "k \<equiv> nat (n div g_size g)"
  shows "accepts p (g_hashes hbs hashes g) al (g_spec g) (g_ids g) k"
    and "hit_rows p (map int (g_ids g)) (g_hashes hbs hashes g) (need_of (g_spec g) k) k
      (map (\<lambda>i. py_slice (the (xs ! i)) 0 (n div g_size g)) (g_ids g))"
proof -
  have need: "need_of (g_spec g) j = j" for j using full by (cases "g_spec g") (simp_all add: need_of_def)
  have d: "g_size g dvd n" using pos(2) n(2) by (rule dvd_trans)
  then have k: "int k * g_size g = n" using pos(1) n(1) by (simp add: k_def pos_imp_zdiv_nonneg_iff)
  then have kL: "k \<le> L" using n(3) pos(1) by (metis mult_right_le_imp_le of_nat_le_iff)
  have ok: "0 \<le> n div g_size g" using pos(1) n(1) by (simp add: pos_imp_zdiv_nonneg_iff)
  show "accepts p (g_hashes hbs hashes g) al (g_spec g) (g_ids g) k"
    using e kL k n(2) by (auto simp: entry_at_def accepts_def usable_def aligned_def need)
  obtain cs where cs: "hit_rows p (map int (g_ids g)) (g_hashes hbs hashes g) L L cs" "\<forall>j<length (g_ids g). xs ! (g_ids g ! j) = Some (cs ! j)"
    using e by (auto simp: entry_at_def need)
  show "hit_rows p (map int (g_ids g)) (g_hashes hbs hashes g) (need_of (g_spec g) k) k
      (map (\<lambda>i. py_slice (the (xs ! i)) 0 (n div g_size g)) (g_ids g))"
    using cs kL unfolding hit_rows_def need by (auto simp: py_slice_nonneg [OF _ ok] k_def [symmetric])
qed

text \<open>A hybrid coordinator whose groups the search handles: only the first of them is full attention, or there are
  two of which the first is, as with the latent and the indexer group of sparse attention.\<close>

definition hybrid_groups_ok :: "coordinator \<Rightarrow> bool" where
  "hybrid_groups_ok c \<longleftrightarrow> attention_groups c \<noteq> [] \<and> 0 < co_hash_block_size c \<and> 0 < lcm_block_size c \<and>
     distinct (concat (map g_ids (attention_groups c))) \<and> (\<forall>g\<in>set (tl (attention_groups c)). exact (attention_groups c) g) \<and>
     (\<forall>g\<in>set (attention_groups c). group_ok (co_hash_block_size c) (lcm_block_size c) (length (kv_cache_groups (co_config c))) g)"

definition accepted_by_all :: "coordinator \<Rightarrow> block_pool \<Rightarrow> bytes list \<Rightarrow> int \<Rightarrow> bool" where
  "accepted_by_all c p hashes n \<longleftrightarrow>
     (\<forall>g\<in>set (attention_groups c). group_accepts p (co_hash_block_size c) hashes (lcm_block_size c) g n)"

definition group_rows :: "coordinator \<Rightarrow> block_pool \<Rightarrow> bytes list \<Rightarrow> int \<Rightarrow> blk list list \<Rightarrow> attention_group \<Rightarrow> bool" where
  "group_rows c p hashes n bss g \<longleftrightarrow>
     (let L = nat (n div g_size g)
      in hit_rows p (map int (g_ids g)) (g_hashes (co_hash_block_size c) hashes g) (need_of (g_spec g) L) L (map ((!) bss) (g_ids g)))"

lemma entry_exact:
  assumes e: "entry_at p hbs hashes al ys g L" and n: "int L * g_size g = n" and pos: "0 < g_size g"
    and bss: "\<And>i. i \<in> set (g_ids g) \<Longrightarrow> bss ! i = the (ys ! i)"
  shows "group_accepts p hbs hashes al g n" and "hit_rows p (map int (g_ids g)) (g_hashes hbs hashes g)
    (need_of (g_spec g) (nat (n div g_size g))) (nat (n div g_size g)) (map ((!) bss) (g_ids g))"
proof -
  have L: "nat (n div g_size g) = L" using n pos by (metis nat_int nonzero_mult_div_cancel_right less_irrefl)
  obtain cs where cs: "hit_rows p (map int (g_ids g)) (g_hashes hbs hashes g) (need_of (g_spec g) L) L cs"
    "\<forall>j<length (g_ids g). ys ! (g_ids g ! j) = Some (cs ! j)" using e by (auto simp: entry_at_def)
  show "group_accepts p hbs hashes al g n" using e n by (auto simp: entry_at_def group_accepts_def)
  have "map ((!) bss) (g_ids g) = cs"
    using cs by (intro nth_equalityI) (auto simp: hit_rows_def bss)
  then show "hit_rows p (map int (g_ids g)) (g_hashes hbs hashes g)
    (need_of (g_spec g) (nat (n div g_size g))) (nat (n div g_size g)) (map ((!) bss) (g_ids g))" using cs(1) by (simp add: L)
qed

text \<open>The lists the search hands out: the entries, with those of the full attention group truncated.\<close>

definition truncated :: "attention_group \<Rightarrow> int \<Rightarrow> blk list option list \<Rightarrow> blk list list" where
  "truncated g n ys = map (\<lambda>bs. case bs of None \<Rightarrow> [] | Some bs \<Rightarrow> bs)
     (if is_full_attention (g_spec g) then fold (truncate_group (n div g_size g)) (g_ids g) ys else ys)"

lemma entry_some: "entry_at p hbs hashes al ys g L \<Longrightarrow> i \<in> set (g_ids g) \<Longrightarrow> ys ! i \<noteq> None"
  by (auto simp: entry_at_def in_set_conv_nth)

lemma truncated_other:
  assumes "distinct (g_ids g0)" and "i < length ys" and "ys ! i \<noteq> None" and "i \<notin> set (g_ids g0) \<or> \<not> is_full_attention (g_spec g0)"
  shows "truncated g0 n ys ! i = the (ys ! i)"
  using assms truncate_fold(1,2) [OF assms(1)] by (auto simp: truncated_def)

lemma truncated_full:
  assumes ids: "distinct (g_ids g)" "\<forall>i\<in>set (g_ids g). i < length ys" and full: "is_full_attention (g_spec g)"
    and sizes: "0 < g_size g" "g_size g dvd al" and n: "0 \<le> n" "al dvd n" "n \<le> int L * g_size g" and e: "entry_at p hbs hashes al ys g L"
  shows "group_accepts p hbs hashes al g n" and "hit_rows p (map int (g_ids g)) (g_hashes hbs hashes g)
    (need_of (g_spec g) (nat (n div g_size g))) (nat (n div g_size g)) (map ((!) (truncated g n ys)) (g_ids g))"
proof -
  have d: "g_size g dvd n" using sizes(2) n(2) by (rule dvd_trans)
  then have "int (nat (n div g_size g)) * g_size g = n" using sizes(1) n(1) by (simp add: pos_imp_zdiv_nonneg_iff)
  then show "group_accepts p hbs hashes al g n" using full_prefix(1) [OF full sizes n e]
    by (auto simp: group_accepts_def intro!: exI [of _ "nat (n div g_size g)"])
  have "truncated g n ys ! i = py_slice (the (ys ! i)) 0 (n div g_size g)" if "i \<in> set (g_ids g)" for i
    using ids full that entry_some [OF e that] truncate_fold(1,3) [OF ids(1)] by (auto simp: truncated_def)
  then have "map ((!) (truncated g n ys)) (g_ids g) = map (\<lambda>i. py_slice (the (ys ! i)) 0 (n div g_size g)) (g_ids g)" by simp
  then show "hit_rows p (map int (g_ids g)) (g_hashes hbs hashes g)
    (need_of (g_spec g) (nat (n div g_size g))) (nat (n div g_size g)) (map ((!) (truncated g n ys)) (g_ids g))"
    using full_prefix(2) [OF full sizes n e] by (simp only:)
qed

lemma truncated_groups:
  assumes r: "loop_result p hbs hashes al (g0 # gs) h n ys" and ok: "\<forall>g\<in>set (g0 # gs). group_ok hbs al (length ys) g"
    and dist: "distinct (concat (map g_ids (g0 # gs)))" and rest: "\<forall>g\<in>set gs. exact (g0 # gs) g" and g: "g \<in> set (g0 # gs)"
  shows "group_accepts p hbs hashes al g n \<and> hit_rows p (map int (g_ids g)) (g_hashes hbs hashes g)
    (need_of (g_spec g) (nat (n div g_size g))) (nat (n div g_size g)) (map ((!) (truncated g0 n ys)) (g_ids g))"
proof -
  have ids: "distinct (g_ids g)" "\<forall>i\<in>set (g_ids g). i < length ys" "0 < g_size g" "g_size g dvd al" and d0: "distinct (g_ids g0)"
    using ok g dist by (auto simp: group_ok_def block_size_ok_def)
  have n: "0 \<le> n" "al dvd n" using r by (simp_all add: loop_result_def)
  obtain L where L: "entry_at p hbs hashes al ys g L" "n \<le> int L * g_size g" "exact (g0 # gs) g \<longrightarrow> int L * g_size g = n"
    using r g unfolding loop_result_def by blast
  show ?thesis
  proof (cases "g0 = g \<and> is_full_attention (g_spec g)")
    case True
    then show ?thesis using truncated_full [OF ids(1,2) _ ids(3,4) n L(2,1)] by simp
  next
    case False
    then have ex: "exact (g0 # gs) g" using g rest by (auto simp: exact_def)
    have "i \<notin> set (g_ids g0) \<or> \<not> is_full_attention (g_spec g0)" if "i \<in> set (g_ids g)" for i
      using g dist that False by auto
    then have "truncated g0 n ys ! i = the (ys ! i)" if "i \<in> set (g_ids g)" for i
      using truncated_other [OF d0] entry_some [OF L(1) that] ids(2) that by blast
    then show ?thesis using entry_exact [OF L(1) _ ids(3)] L(3) ex by blast
  qed
qed

lemma hybrid_hit_spec:
  assumes pool: "co_block_pool c = Inr p" "pool_inv p fl" and c: "\<not> co_use_eagle c" "hybrid_groups_ok c"
    and len: "0 \<le> max_length" "max_length div co_hash_block_size c \<le> int (length hashes)"
  shows "\<exists>bss n. hybrid_find_longest_cache_hit c hashes max_length = Some (Inr (bss, n)) \<and> 0 \<le> n \<and> n \<le> max_length \<and>
    length bss = length (kv_cache_groups (co_config c)) \<and>
    (\<forall>g\<in>set (attention_groups c). group_rows c p hashes n bss g) \<and> accepted_by_all c p hashes n \<and>
    (\<forall>m. accepted_by_all c p hashes m \<and> m \<le> max_length \<longrightarrow> m \<le> n)"
proof -
  let ?N = "length (kv_cache_groups (co_config c))" and ?hbs = "co_hash_block_size c" and ?al = "lcm_block_size c"
  obtain g0 gs where gs: "attention_groups c = g0 # gs" using c(2) by (cases "attention_groups c") (auto simp: hybrid_groups_ok_def)
  obtain spec0 gids0 cl0 where g0: "g0 = (spec0, gids0, cl0)" by (cases g0)
  have ok: "\<forall>g\<in>set (g0 # gs). group_ok ?hbs ?al ?N g" and pos: "0 < ?al" "0 < ?hbs" and dist: "distinct (concat (map g_ids (g0 # gs)))"
    and rest: "\<forall>g\<in>set gs. exact (g0 # gs) g" using c(2) by (simp_all add: hybrid_groups_ok_def gs)
  let ?simple = "length (g0 # gs) = 2 \<and> is_full_attention spec0"
  have simple: "?simple = simple_hybrid (g0 # gs)" by (simp add: simple_hybrid_def g0)
  have new: "\<forall>g\<in>set (g0 # gs). searched g (max_length, replicate ?N None)"
    using ok by (auto simp: searched_def group_ok_def)
  have "found_before p ?hbs hashes ?al (g0 # gs) (max_length, replicate ?N None)"
    using new unfolding found_before_def searched_def by blast
  then obtain n ys where loop: "hybrid_loop (rfold (hybrid_step p ?hbs hashes False ?al) (g0 # gs)) ?simple max_length (replicate ?N None) = Some (Inr (n, ys))"
    "length ys = ?N" "loop_result p ?hbs hashes ?al (g0 # gs) max_length n ys"
    using hybrid_loop_spec [OF pool(2) _ ok pos dist simple _ length_replicate len] new by blast
  have eq: "hybrid_find_longest_cache_hit c hashes max_length = Some (Inr (truncated g0 n ys, n))"
    using loop(1) c(1) unfolding hybrid_find_longest_cache_hit_def pool(1) gs g0 truncated_def by simp
  have "group_accepts p ?hbs hashes ?al g n \<and> group_rows c p hashes n (truncated g0 n ys) g" if "g \<in> set (attention_groups c)" for g
    using truncated_groups [OF loop(3) _ dist rest, of g] ok loop(2) that by (simp add: gs group_rows_def)
  then have "\<forall>g\<in>set (attention_groups c). group_rows c p hashes n (truncated g0 n ys) g" "accepted_by_all c p hashes n"
    unfolding accepted_by_all_def by blast+
  moreover have "\<forall>m. accepted_by_all c p hashes m \<and> m \<le> max_length \<longrightarrow> m \<le> n" "0 \<le> n" "n \<le> max_length"
    using loop(3) unfolding loop_result_def accepted_by_all_def gs by blast+
  moreover have "length (truncated g0 n ys) = ?N" using loop(2) truncate_fold(1) dist by (simp add: truncated_def)
  ultimately show ?thesis using eq by blast
qed

section \<open>Properties\<close>

text \<open>C11. The search of the hybrid coordinator always returns: whatever the cache holds, whatever length
  is asked for and with or without the drafting head, its \<^verbatim>\<open>while True\<close> loop ends, provided the
  attention groups have positive block sizes.\<close>

theorem hybrid_search_terminates:
  assumes "group_sizes_ok c"
  shows "\<exists>r. hybrid_find_longest_cache_hit c hashes max_length = Some r"
proof (cases "co_block_pool c")
  case (Inl e)
  then show ?thesis by (simp add: hybrid_find_longest_cache_hit_def)
next
  case (Inr p)
  obtain spec0 gids0 cl0 gs where groups: "attention_groups c = (spec0, gids0, cl0) # gs"
    using assms by (cases "attention_groups c") (auto simp: group_sizes_ok_def)
  define pass where "pass = rfold (hybrid_step p (co_hash_block_size c) hashes (co_use_eagle c) (lcm_block_size c)) (attention_groups c)"
  let ?by = "replicate (length (kv_cache_groups (co_config c))) None"
  let ?simple = "length (attention_groups c) = 2 \<and> is_full_attention spec0"
  have "\<exists>r. hybrid_loop pass ?simple max_length ?by = Some r"
  proof (rule hybrid_loop_returns [where P = nonneg_or_new])
    show "nonneg_or_new (max_length, ?by)" by (simp add: nonneg_or_new_def)
    fix s cur by'
    assume "nonneg_or_new s" and "pass s = Inr (cur, by')"
    then have "0 \<le> cur" using hybrid_pass_nonneg [of p _ hashes _ _ "attention_groups c" s cur by'] assms
      by (auto simp: pass_def group_sizes_ok_def)
    then show "0 \<le> cur \<and> nonneg_or_new (cur, by')" by (simp add: nonneg_or_new_def)
  qed
  then obtain r where "hybrid_loop pass ?simple max_length ?by = Some r" by blast
  then show ?thesis unfolding hybrid_find_longest_cache_hit_def Inr groups Let_def pass_def
    by (auto split: sum.splits prod.splits)
qed

text \<open>C2. The hybrid search finds the longest prefix all groups can use, under these conditions: there is no
  drafting head; every group is full attention, a sliding window or Mamba (no chunked and no cross
  attention); full attention occurs only in the first group, or there are exactly two groups; block sizes
  are positive multiples of the hash block size, and there are hashes for the whole length asked for. Then the returned length is a multiple of the common alignment
  accepted by every group (all blocks cached for full attention, the blocks of the window or the last block
  for the others), every group's lists have exactly that many blocks and hold the cached blocks of the
  prefix, with null blocks where the group needs none, and no longer common prefix within the limit exists.\<close>

theorem hybrid_hit_is_longest_common:
  assumes "co_block_pool c = Inr p" and "pool_inv p fl" and "\<not> co_use_eagle c" and "hybrid_groups_ok c"
    and "0 \<le> max_length" and "max_length div co_hash_block_size c \<le> int (length hashes)"
  shows "\<exists>bss n. hybrid_find_longest_cache_hit c hashes max_length = Some (Inr (bss, n)) \<and> 0 \<le> n \<and> n \<le> max_length \<and>
    length bss = length (kv_cache_groups (co_config c)) \<and>
    (\<forall>g\<in>set (attention_groups c). group_rows c p hashes n bss g) \<and> accepted_by_all c p hashes n \<and>
    (\<forall>m. accepted_by_all c p hashes m \<and> m \<le> max_length \<longrightarrow> m \<le> n)"
  by (rule hybrid_hit_spec [OF assms])

declare hybrid_loop.simps [code]

text \<open>Three groups: two of full attention with different specifications and a sliding window. The second block of
  the prompt is cached for the full attention groups only.\<close>

definition triple_config :: kv_cache_config where
  "triple_config = \<lparr>num_blocks = 8, kv_cache_tensors = [],
     kv_cache_groups = [\<lparr>layer_names = [''a''], kv_cache_spec = small_full\<rparr>,
       \<lparr>layer_names = [''b''], kv_cache_spec = FullAttentionSpec (demo_attn\<lparr>attn_block_size := 2, head_size := 16\<rparr>)
          \<lparr>head_size_v = 16, full_sliding_window = None, full_attention_chunk_size = None\<rparr>\<rparr>,
       \<lparr>layer_names = [''c''], kv_cache_spec = SlidingWindowSpec (demo_attn\<lparr>attn_block_size := 2\<rparr>) 3\<rparr>],
     num_blocks_per_group = None, dsa_index_topk = None, dsa_num_speculative_tokens = 0\<rparr>"

definition triple_coordinator :: "coordinator res" where
  "triple_coordinator =
     rbind (get_kv_cache_coordinator (\<lambda>_. 2) (\<lambda>_ _ _. []) Map.empty False triple_config 100 False True False 1 1 2) (\<lambda>c.
     rbind (co_block_pool c) (\<lambda>p.
     rbind (cache_full_blocks (\<lambda>_ _ _. []) small_request [Blk 1, Blk 2] 0 2 2 0 p) (\<lambda>p.
     rbind (cache_full_blocks (\<lambda>_ _ _. []) small_request [Blk 3, Blk 4] 0 2 2 1 p) (\<lambda>p.
     rbind (cache_full_blocks (\<lambda>_ _ _. []) small_request [Blk 5] 0 1 2 2 p) (\<lambda>p. Inr (c\<lparr>co_pools := Pools [p]\<rparr>))))))"

text \<open>Only the first full attention group is cut back. With a second one the lists it returns can be longer
  than the reported length: here the search reports two tokens, one block of two tokens, and hands out two blocks
  for the second group.\<close>

lemma second_full_group_not_truncated:
  "(case triple_coordinator of
      Inr c \<Rightarrow> hybrid_find_longest_cache_hit c [[21], [22]] 5
    | Inl e \<Rightarrow> None) = Some (Inr ([[Blk 1], [Blk 3, Blk 4], [Blk 5]], 2))"
  by code_simp

section \<open>Witnesses\<close>

text \<open>A coordinator of a model with a full attention group and a sliding window group, and a pool in which the
  first block of a prompt is cached for both.\<close>

definition mixed_config :: kv_cache_config where
  "mixed_config = \<lparr>num_blocks = 4, kv_cache_tensors = [],
     kv_cache_groups = [\<lparr>layer_names = [''a''], kv_cache_spec = small_full\<rparr>,
       \<lparr>layer_names = [''b''], kv_cache_spec = SlidingWindowSpec (demo_attn\<lparr>attn_block_size := 2\<rparr>) 3\<rparr>],
     num_blocks_per_group = None, dsa_index_topk = None, dsa_num_speculative_tokens = 0\<rparr>"

definition mixed_coordinator :: "coordinator res" where
  "mixed_coordinator = get_kv_cache_coordinator (\<lambda>_. 2) (\<lambda>_ _ _. []) Map.empty False mixed_config 100 False True False 1 1 2"

definition mixed_groups :: "attention_group list" where
  "mixed_groups = [(small_full, [0], FullAttentionManager), (SlidingWindowSpec (demo_attn\<lparr>attn_block_size := 2\<rparr>) 3, [1], SlidingWindowManager)]"

definition mixed_fields :: "(attention_group list \<times> int \<times> int \<times> bool \<times> nat) option" where
  "mixed_fields = (case mixed_coordinator of
     Inr c \<Rightarrow> Some (attention_groups c, lcm_block_size c, co_hash_block_size c, co_use_eagle c, length (kv_cache_groups (co_config c)))
   | Inl _ \<Rightarrow> None)"

lemma mixed_fields: "mixed_fields = Some (mixed_groups, 2, 2, False, 2)"
  by code_simp

lemma mixed_coordinator:
  obtains c where "mixed_coordinator = Inr c" and "attention_groups c = mixed_groups" and "lcm_block_size c = 2" and "co_hash_block_size c = 2"
    and "\<not> co_use_eagle c" and "length (kv_cache_groups (co_config c)) = 2"
  using mixed_fields unfolding mixed_fields_def by (auto split: sum.splits)

lemma mixed_specs: "block_size small_full = 2" "is_full_attention small_full"
  "block_size (SlidingWindowSpec (demo_attn\<lparr>attn_block_size := 2\<rparr>) 3) = 2" "\<not> is_full_attention (SlidingWindowSpec a w)"
  by (simp_all add: small_full_def)

lemma pool_with_two_groups:
  "\<exists>p. pool_inv p [Blk 1, Blk 2, Blk 3] \<and> cached p [0] [21] \<and> cached p [1] [21]"
proof -
  note defs = small_request_def text_request_def block_size_ok_def group_id_ok_def group_hashes_def KVCacheBlock_def
  have c: "cacheable four_pool small_request [Blk 2] 0 1 2 0"
    using four_pool(5) by (simp add: cacheable_def four_pool_valid defs)
  obtain q where q: "pool_inv q [Blk 1, Blk 2, Blk 3]" "cfg q = cfg four_pool"
    "data q = tag (tagged 0 (drop 0 (group_hashes (hash_block_size four_pool) 2 (block_hashes small_request)))
        (take (1 - 0) (drop 0 [Blk 2]))) (data four_pool)"
    using cache_full_blocks_spec [OF four_pool(2) c] by blast
  have vq: "valid_blk q b = valid_blk four_pool b" for b using q(2) by (rule valid_blk_cfg)
  have hq: "hash_block_size q = 2" using q(2) four_pool(3) by (simp add: cfg_def)
  have "cacheable q small_request [Blk 3] 0 1 2 1"
    using four_pool(5) by (simp add: cacheable_def vq hq q(3) tag_def tagged_def four_pool_valid defs)
  then obtain p where p: "pool_inv p [Blk 1, Blk 2, Blk 3]" "cfg p = cfg q"
    "data p = tag (tagged 1 (drop 0 (group_hashes (hash_block_size q) 2 (block_hashes small_request)))
        (take (1 - 0) (drop 0 [Blk 3]))) (data q)"
    using cache_full_blocks_spec [OF q(1)] by blast
  have "valid_blk p b = valid_blk q b" for b using p(2) by (rule valid_blk_cfg)
  moreover have "null_block p = Blk 0" using p(1) by (simp add: pool_ok_def)
  ultimately have "carries p 0 [21] (Blk 2)" "carries p 1 [21] (Blk 3)"
    by (simp_all add: carries_def data_sel p(3) q(3) vq hq tag_def tagged_def four_pool_valid group_hashes_def small_request_def)
  then show ?thesis using p(1) by (auto simp: cached_def)
qed

theorem hybrid_search_terminates_witness:
  "\<exists>c r. mixed_coordinator = Inr c \<and> hybrid_find_longest_cache_hit c [[21], [22]] 5 = Some r"
proof -
  obtain c where c: "mixed_coordinator = Inr c" "attention_groups c = mixed_groups" by (rule mixed_coordinator)
  then have "group_sizes_ok c" by (simp add: group_sizes_ok_def mixed_groups_def mixed_specs)
  then show ?thesis using hybrid_search_terminates [of c] c(1) by blast
qed

theorem hybrid_hit_is_longest_common_witness:
  "\<exists>c p bss n. mixed_coordinator = Inr c \<and> hybrid_find_longest_cache_hit (c\<lparr>co_pools := Pools [p]\<rparr>) [[21], [22]] 5 = Some (Inr (bss, n)) \<and>
     2 \<le> n \<and> length bss = 2"
proof -
  obtain c where c: "mixed_coordinator = Inr c" "attention_groups c = mixed_groups" "lcm_block_size c = 2" "co_hash_block_size c = 2"
    "\<not> co_use_eagle c" "length (kv_cache_groups (co_config c)) = 2" by (rule mixed_coordinator)
  obtain p where p: "pool_inv p [Blk 1, Blk 2, Blk 3]" "cached p [0] [21]" "cached p [1] [21]" using pool_with_two_groups by blast
  let ?c = "c\<lparr>co_pools := Pools [p]\<rparr>"
  have ok: "hybrid_groups_ok ?c"
    by (simp add: hybrid_groups_ok_def c(2-6) mixed_groups_def mixed_specs exact_def group_ok_def block_size_ok_def group_id_ok_def searchable_def)
  have acc: "accepted_by_all ?c p [[21], [22]] 2"
    using p(2,3) by (simp add: accepted_by_all_def c(2-4) mixed_groups_def mixed_specs group_accepts_def accepts_def usable_def aligned_def
        group_hashes_def need_of_def cdiv_def exI [of _ 1])
  have pool: "co_block_pool ?c = Inr p" by (simp add: co_block_pool_def)
  have "\<not> co_use_eagle ?c" "5 div co_hash_block_size ?c \<le> int (length [[21], [22 :: byte]])" using c(4,5) by simp_all
  then obtain bss n where "hybrid_find_longest_cache_hit ?c [[21], [22]] 5 = Some (Inr (bss, n))" "length bss = length (kv_cache_groups (co_config ?c))"
    "\<forall>m. accepted_by_all ?c p [[21], [22]] m \<and> m \<le> 5 \<longrightarrow> m \<le> n"
    using hybrid_hit_is_longest_common [OF pool p(1) _ ok, of 5 "[[21], [22]]"] by auto
  moreover from this(3) have "2 \<le> n" using acc by simp
  ultimately show ?thesis using c(1,6) by (intro exI [of _ c] exI [of _ p] exI [of _ bss] exI [of _ n]) simp
qed

end
