(* ===== verification/Offload_Backend.thy ===== *)
theory Offload_Backend
  imports Prelude "HOL-Library.AList"
begin

text \<open>
  \<^verbatim>\<open>vllm/v1/kv_offload/backend.py\<close> and \<^verbatim>\<open>backends/cpu.py\<close>: the status of an offloaded block and the
  back end that hands out places for blocks, with the vocabulary of \<^verbatim>\<open>abstract.py\<close> that the offloading
  managers share. A status is a C structure in the source: its reference count is a signed 32-bit
  field and its block number a signed 64-bit field, both kept at their width here. The abstract class
  \<^verbatim>\<open>Backend\<close> is a record of the operations a manager calls and the locale \<open>offload_backend\<close> of what they promise.
\<close>

unbundle bit_operations_syntax

section \<open>Block status\<close>

record block_status =
  st_ref_cnt :: "32 word"
  st_block_id :: "64 word"

definition CPUBlockStatus :: "int \<Rightarrow> block_status" where
  "CPUBlockStatus block_id = \<lparr>st_ref_cnt = - 1, st_block_id = word_of_int block_id\<rparr>"

definition is_ready :: "block_status \<Rightarrow> bool" where
  "is_ready s \<longleftrightarrow> 0 \<le> sint (st_ref_cnt s)"

text \<open>An ordered dictionary is an association list: assigning to a present key keeps its place, a new key goes last.\<close>

type_synonym status_dict = "(bytes \<times> block_status) list"

definition od_move_to_end :: "'k \<Rightarrow> ('k \<times> 'v) list \<Rightarrow> ('k \<times> 'v) list" where
  "od_move_to_end k d = (case map_of d k of None \<Rightarrow> d | Some v \<Rightarrow> AList.delete k d @ [(k, v)])"

definition block_ids :: "status_dict \<Rightarrow> 64 word list" where
  "block_ids d = map (st_block_id \<circ> snd) d"

record offloading_event =
  ev_block_hashes :: "bytes list"
  ev_block_size :: int
  ev_medium :: string
  ev_removed :: bool

record prepare_store_output =
  block_hashes_to_store :: "bytes list"
  store_spec :: "int list"
  block_hashes_evicted :: "bytes list"

section \<open>The interface of a back end\<close>

record 'b backend_ops =
  be_block_size :: "'b \<Rightarrow> int"
  be_medium :: "'b \<Rightarrow> string"
  be_get_num_free_blocks :: "'b \<Rightarrow> int"
  be_allocate_blocks :: "bytes list \<Rightarrow> 'b \<Rightarrow> (block_status list \<times> 'b) res"
  be_free :: "block_status \<Rightarrow> 'b \<Rightarrow> 'b res"
  be_get_load_store_spec :: "bytes list \<Rightarrow> block_status list \<Rightarrow> int list"

text \<open>\<open>binv b U\<close>: the back end is sound and has exactly the blocks \<open>U\<close> handed out.\<close>

locale offload_backend =
  fixes ops :: "'b backend_ops" and binv :: "'b \<Rightarrow> 64 word set \<Rightarrow> bool" and capacity :: "'b \<Rightarrow> int"
  assumes free_count: "binv b U \<Longrightarrow> be_get_num_free_blocks ops b = capacity b - int (card U)"
    and finite_used: "binv b U \<Longrightarrow> finite U \<and> int (card U) \<le> capacity b"
    and allocate_law: "binv b U \<Longrightarrow> int (length hs) \<le> be_get_num_free_blocks ops b \<Longrightarrow>
      \<exists>ss b'. be_allocate_blocks ops hs b = Inr (ss, b') \<and> length ss = length hs \<and> distinct (map st_block_id ss) \<and>
        set (map st_block_id ss) \<inter> U = {} \<and> (\<forall>s\<in>set ss. st_ref_cnt s = - 1) \<and> binv b' (U \<union> set (map st_block_id ss)) \<and>
        capacity b' = capacity b"
    and free_law: "binv b U \<Longrightarrow> st_block_id s \<in> U \<Longrightarrow>
      \<exists>b'. be_free ops s b = Inr b' \<and> binv b' (U - {st_block_id s}) \<and> capacity b' = capacity b"

section \<open>The CPU back end\<close>

record cpu_backend =
  cpu_block_size :: int
  cpu_num_blocks :: int
  num_allocated_blocks :: int
  allocated_blocks_free_list :: "int list"

definition CPUBackend :: "int \<Rightarrow> int \<Rightarrow> cpu_backend" where
  "CPUBackend block_size num_blocks =
     \<lparr>cpu_block_size = block_size, cpu_num_blocks = num_blocks, num_allocated_blocks = 0, allocated_blocks_free_list = []\<rparr>"

definition cpu_get_num_free_blocks :: "cpu_backend \<Rightarrow> int" where
  "cpu_get_num_free_blocks b = int (length (allocated_blocks_free_list b)) + cpu_num_blocks b - num_allocated_blocks b"

fun fresh_blocks :: "nat \<Rightarrow> cpu_backend \<Rightarrow> block_status list \<times> cpu_backend" where
  "fresh_blocks 0 b = ([], b)"
| "fresh_blocks (Suc n) b =
     (let (ss, b') = fresh_blocks n (b\<lparr>num_allocated_blocks := num_allocated_blocks b + 1\<rparr>)
      in (CPUBlockStatus (num_allocated_blocks b) # ss, b'))"

fun reused_blocks :: "nat \<Rightarrow> cpu_backend \<Rightarrow> (block_status list \<times> cpu_backend) res" where
  "reused_blocks 0 b = Inr ([], b)"
| "reused_blocks (Suc n) b =
     (if allocated_blocks_free_list b = [] then Inl IndexError
      else rbind (reused_blocks n (b\<lparr>allocated_blocks_free_list := butlast (allocated_blocks_free_list b)\<rparr>)) (\<lambda>(ss, b').
        Inr (CPUBlockStatus (last (allocated_blocks_free_list b)) # ss, b')))"

definition cpu_allocate_blocks :: "bytes list \<Rightarrow> cpu_backend \<Rightarrow> (block_status list \<times> cpu_backend) res" where
  "cpu_allocate_blocks block_hashes b =
     (let num_fresh_blocks = min (int (length block_hashes)) (cpu_num_blocks b - num_allocated_blocks b);
          num_reused_blocks = int (length block_hashes) - num_fresh_blocks
      in rassert (int (length (allocated_blocks_free_list b)) \<ge> num_reused_blocks)
           (let (fresh, b1) = fresh_blocks (nat num_fresh_blocks) b
            in rbind (reused_blocks (nat num_reused_blocks) b1) (\<lambda>(reused, b2). Inr (fresh @ reused, b2))))"

definition cpu_free :: "block_status \<Rightarrow> cpu_backend \<Rightarrow> cpu_backend res" where
  "cpu_free s b = Inr (b\<lparr>allocated_blocks_free_list := allocated_blocks_free_list b @ [sint (st_block_id s)]\<rparr>)"

definition cpu_get_load_store_spec :: "bytes list \<Rightarrow> block_status list \<Rightarrow> int list" where
  "cpu_get_load_store_spec block_hashes blocks = map (\<lambda>s. sint (st_block_id s)) blocks"

definition cpu_ops :: "cpu_backend backend_ops" where
  "cpu_ops = \<lparr>be_block_size = cpu_block_size, be_medium = (\<lambda>_. ''CPU''), be_get_num_free_blocks = cpu_get_num_free_blocks,
     be_allocate_blocks = cpu_allocate_blocks, be_free = cpu_free, be_get_load_store_spec = cpu_get_load_store_spec\<rparr>"

section \<open>The CPU back end keeps its promises\<close>

text \<open>The numbers below the high-water mark are split between the free list and the blocks handed out.\<close>

definition cpu_inv :: "cpu_backend \<Rightarrow> 64 word set \<Rightarrow> bool" where
  "cpu_inv b U \<longleftrightarrow> 0 \<le> num_allocated_blocks b \<and> num_allocated_blocks b \<le> cpu_num_blocks b \<and> cpu_num_blocks b \<le> 2 ^ 63 \<and>
     distinct (allocated_blocks_free_list b) \<and> set (allocated_blocks_free_list b) \<inter> sint ` U = {} \<and>
     set (allocated_blocks_free_list b) \<union> sint ` U = {0..<num_allocated_blocks b}"

lemma sint_word_of_int_64: "0 \<le> i \<Longrightarrow> i < 2 ^ 63 \<Longrightarrow> sint (word_of_int i :: 64 word) = i"
  by (simp add: signed_of_int signed_take_bit_int_eq_self)

lemma sint_inj: "sint (v :: 64 word) = sint w \<longleftrightarrow> v = w"
  by (metis signed_word_eqI)

lemma cpu_inv_card:
  assumes "cpu_inv b U"
  shows "finite U" and "int (length (allocated_blocks_free_list b)) + int (card U) = num_allocated_blocks b"
proof -
  show fin: "finite U" by simp
  have inj: "inj_on (sint :: 64 word \<Rightarrow> int) U" by (simp add: inj_on_def sint_inj)
  have "card (set (allocated_blocks_free_list b) \<union> sint ` U) = length (allocated_blocks_free_list b) + card U"
    using assms card_Un_disjoint [of "set (allocated_blocks_free_list b)" "sint ` U"] card_image [OF inj]
    unfolding cpu_inv_def by (simp add: distinct_card)
  moreover have "card (set (allocated_blocks_free_list b) \<union> sint ` U) = nat (num_allocated_blocks b)"
    using assms unfolding cpu_inv_def by simp
  moreover have "0 \<le> num_allocated_blocks b" using assms by (simp add: cpu_inv_def)
  ultimately show "int (length (allocated_blocks_free_list b)) + int (card U) = num_allocated_blocks b" by linarith
qed

lemma cpu_inv_fresh:
  assumes "cpu_inv b U" and "num_allocated_blocks b < cpu_num_blocks b"
  shows "cpu_inv (b\<lparr>num_allocated_blocks := num_allocated_blocks b + 1\<rparr>) (insert (word_of_int (num_allocated_blocks b)) U)"
    and "word_of_int (num_allocated_blocks b) \<notin> U"
proof -
  let ?n = "num_allocated_blocks b"
  have n: "0 \<le> ?n" "?n < 2 ^ 63" using assms by (auto simp: cpu_inv_def)
  note s = sint_word_of_int_64 [OF n]
  have "?n \<notin> {0..<?n}" by simp
  then have "?n \<notin> set (allocated_blocks_free_list b) \<union> sint ` U" using assms(1) unfolding cpu_inv_def by simp
  then show "word_of_int ?n \<notin> U" using s by (metis UnI2 imageI)
  have "{0..<?n + 1} = insert ?n {0..<?n}" using n(1) by auto
  then show "cpu_inv (b\<lparr>num_allocated_blocks := ?n + 1\<rparr>) (insert (word_of_int ?n) U)"
    using assms \<open>?n \<notin> set (allocated_blocks_free_list b) \<union> sint ` U\<close> by (auto simp: cpu_inv_def s)
qed

lemma fresh_blocks_spec:
  assumes "cpu_inv b U" and "num_allocated_blocks b + int n \<le> cpu_num_blocks b" and "fresh_blocks n b = (ss, b')"
  shows "length ss = n \<and> distinct (map st_block_id ss) \<and> set (map st_block_id ss) \<inter> U = {} \<and> (\<forall>s\<in>set ss. st_ref_cnt s = - 1) \<and>
    cpu_inv b' (U \<union> set (map st_block_id ss)) \<and> cpu_num_blocks b' = cpu_num_blocks b \<and>
    allocated_blocks_free_list b' = allocated_blocks_free_list b"
  using assms
proof (induction n arbitrary: b U ss)
  case (Suc n)
  let ?b = "b\<lparr>num_allocated_blocks := num_allocated_blocks b + 1\<rparr>" and ?w = "word_of_int (num_allocated_blocks b) :: 64 word"
  obtain ts where ts: "fresh_blocks n ?b = (ts, b')" "ss = CPUBlockStatus (num_allocated_blocks b) # ts"
    using Suc.prems(3) by (auto split: prod.splits simp: Let_def)
  note f = cpu_inv_fresh [OF Suc.prems(1)]
  have "length ts = n \<and> distinct (map st_block_id ts) \<and> set (map st_block_id ts) \<inter> insert ?w U = {} \<and> (\<forall>s\<in>set ts. st_ref_cnt s = - 1) \<and>
    cpu_inv b' (insert ?w U \<union> set (map st_block_id ts)) \<and> cpu_num_blocks b' = cpu_num_blocks ?b \<and>
    allocated_blocks_free_list b' = allocated_blocks_free_list ?b"
    by (rule Suc.IH [OF f(1) _ ts(1)]) (use Suc.prems(2) in simp_all)
  then show ?case using f(2) Suc.prems(2) unfolding ts(2) by (auto simp: CPUBlockStatus_def)
qed simp

lemma cpu_inv_reuse:
  assumes "cpu_inv b U" and "allocated_blocks_free_list b = xs @ [x]"
  shows "cpu_inv (b\<lparr>allocated_blocks_free_list := xs\<rparr>) (insert (word_of_int x) U)" and "word_of_int x \<notin> U"
proof -
  have "x \<in> set (allocated_blocks_free_list b) \<union> sint ` U" using assms(2) by simp
  then have "x \<in> {0..<num_allocated_blocks b}" "x \<notin> sint ` U" using assms unfolding cpu_inv_def by (blast, auto)
  then have x: "0 \<le> x" "x < 2 ^ 63" "x \<notin> sint ` U" using assms by (auto simp: cpu_inv_def)
  note s = sint_word_of_int_64 [OF x(1,2)]
  show "word_of_int x \<notin> U" using x(3) s by (metis imageI)
  show "cpu_inv (b\<lparr>allocated_blocks_free_list := xs\<rparr>) (insert (word_of_int x) U)"
    using assms by (auto simp: cpu_inv_def s)
qed

lemma reused_blocks_spec:
  assumes "cpu_inv b U" and "n \<le> length (allocated_blocks_free_list b)"
  shows "\<exists>ss b'. reused_blocks n b = Inr (ss, b') \<and> length ss = n \<and> distinct (map st_block_id ss) \<and> set (map st_block_id ss) \<inter> U = {} \<and>
    (\<forall>s\<in>set ss. st_ref_cnt s = - 1) \<and> cpu_inv b' (U \<union> set (map st_block_id ss)) \<and> cpu_num_blocks b' = cpu_num_blocks b"
  using assms
proof (induction n arbitrary: b U)
  case (Suc n)
  obtain xs x where l: "allocated_blocks_free_list b = xs @ [x]" using Suc.prems(2) by (cases "allocated_blocks_free_list b" rule: rev_cases) auto
  let ?b = "b\<lparr>allocated_blocks_free_list := xs\<rparr>" and ?w = "word_of_int x :: 64 word"
  note f = cpu_inv_reuse [OF Suc.prems(1) l]
  obtain ss b' where "reused_blocks n ?b = Inr (ss, b')" "length ss = n" "distinct (map st_block_id ss)"
    "set (map st_block_id ss) \<inter> insert ?w U = {}" "\<forall>s\<in>set ss. st_ref_cnt s = - 1"
    "cpu_inv b' (insert ?w U \<union> set (map st_block_id ss))" "cpu_num_blocks b' = cpu_num_blocks ?b"
    using Suc.IH [OF f(1)] Suc.prems(2) l by auto
  then show ?case using f(2) by (auto simp: l CPUBlockStatus_def)
qed simp

lemma cpu_allocate_law:
  assumes inv: "cpu_inv b U" and room: "int (length hs) \<le> cpu_get_num_free_blocks b"
  shows "\<exists>ss b'. cpu_allocate_blocks hs b = Inr (ss, b') \<and> length ss = length hs \<and> distinct (map st_block_id ss) \<and>
    set (map st_block_id ss) \<inter> U = {} \<and> (\<forall>s\<in>set ss. st_ref_cnt s = - 1) \<and> cpu_inv b' (U \<union> set (map st_block_id ss)) \<and>
    cpu_num_blocks b' = cpu_num_blocks b"
proof -
  define nf where "nf = min (int (length hs)) (cpu_num_blocks b - num_allocated_blocks b)"
  have nf: "0 \<le> nf" "num_allocated_blocks b + nf \<le> cpu_num_blocks b" "nf \<le> int (length hs)"
    "int (length hs) - nf \<le> int (length (allocated_blocks_free_list b))"
    using inv room by (auto simp: nf_def cpu_inv_def cpu_get_num_free_blocks_def)
  obtain fs b1 where f: "fresh_blocks (nat nf) b = (fs, b1)" by (cases "fresh_blocks (nat nf) b")
  have fs: "length fs = nat nf" "distinct (map st_block_id fs)" "set (map st_block_id fs) \<inter> U = {}" "\<forall>s\<in>set fs. st_ref_cnt s = - 1"
    "cpu_inv b1 (U \<union> set (map st_block_id fs))" "cpu_num_blocks b1 = cpu_num_blocks b"
    "allocated_blocks_free_list b1 = allocated_blocks_free_list b"
    using fresh_blocks_spec [OF inv _ f] nf(1,2) by auto
  have "nat (int (length hs) - nf) \<le> length (allocated_blocks_free_list b1)" using nf(3,4) by (simp add: fs(7))
  from reused_blocks_spec [OF fs(5) this] obtain rs b2 where r: "reused_blocks (nat (int (length hs) - nf)) b1 = Inr (rs, b2)"
    "length rs = nat (int (length hs) - nf)" "distinct (map st_block_id rs)" "set (map st_block_id rs) \<inter> (U \<union> set (map st_block_id fs)) = {}"
    "\<forall>s\<in>set rs. st_ref_cnt s = - 1" "cpu_inv b2 (U \<union> set (map st_block_id fs) \<union> set (map st_block_id rs))" "cpu_num_blocks b2 = cpu_num_blocks b1"
    by blast
  have "cpu_allocate_blocks hs b = Inr (fs @ rs, b2)"
    using f r(1) nf(4) unfolding cpu_allocate_blocks_def nf_def [symmetric] by simp
  moreover have "length (fs @ rs) = length hs" using fs(1) r(2) nf(1,3) by simp
  moreover have "distinct (map st_block_id (fs @ rs))" using fs(2) r(3,4) by auto
  ultimately show ?thesis using fs r by (intro exI [of _ "fs @ rs"] exI [of _ b2]) (auto simp: Un_assoc)
qed

lemma cpu_free_law:
  assumes inv: "cpu_inv b U" and s: "st_block_id s \<in> U"
  shows "\<exists>b'. cpu_free s b = Inr b' \<and> cpu_inv b' (U - {st_block_id s}) \<and> cpu_num_blocks b' = cpu_num_blocks b"
proof -
  have "sint ` (U - {st_block_id s}) = sint ` U - {sint (st_block_id s)}" by (auto simp: image_iff sint_inj)
  then show ?thesis using assms by (auto simp: cpu_free_def cpu_inv_def image_iff)
qed

interpretation cpu: offload_backend cpu_ops cpu_inv cpu_num_blocks
proof
  fix b :: cpu_backend and U hs and s :: block_status
  assume inv: "cpu_inv b U"
  show "be_get_num_free_blocks cpu_ops b = cpu_num_blocks b - int (card U)"
    using cpu_inv_card(2) [OF inv] by (simp add: cpu_ops_def cpu_get_num_free_blocks_def)
  show "finite U \<and> int (card U) \<le> cpu_num_blocks b"
    using cpu_inv_card [OF inv] inv by (auto simp: cpu_inv_def)
  show "\<exists>ss b'. be_allocate_blocks cpu_ops hs b = Inr (ss, b') \<and> length ss = length hs \<and> distinct (map st_block_id ss) \<and>
      set (map st_block_id ss) \<inter> U = {} \<and> (\<forall>s\<in>set ss. st_ref_cnt s = - 1) \<and> cpu_inv b' (U \<union> set (map st_block_id ss)) \<and>
      cpu_num_blocks b' = cpu_num_blocks b" if "int (length hs) \<le> be_get_num_free_blocks cpu_ops b"
    using cpu_allocate_law [OF inv] that by (simp add: cpu_ops_def)
  show "\<exists>b'. be_free cpu_ops s b = Inr b' \<and> cpu_inv b' (U - {st_block_id s}) \<and> cpu_num_blocks b' = cpu_num_blocks b" if "st_block_id s \<in> U"
    using cpu_free_law [OF inv that] by (simp add: cpu_ops_def)
qed

lemma cpu_inv_start: "0 \<le> num_blocks \<Longrightarrow> num_blocks \<le> 2 ^ 63 \<Longrightarrow> cpu_inv (CPUBackend block_size num_blocks) {}"
  by (simp add: cpu_inv_def CPUBackend_def)

end
