(* ===== verification/LRU_Offload.thy ===== *)
theory LRU_Offload
  imports Offload_Backend
begin

text \<open>
  \<^verbatim>\<open>vllm/v1/kv_offload/lru_manager.py\<close>: the offloading manager that evicts the least recently used
  blocks, over the interface of a back end. The ordered dictionary of the source is an association list with
  the least recently used block first.
\<close>

section \<open>The manager\<close>

record 'b lru_manager =
  lru_backend :: 'b
  lru_blocks :: status_dict
  lru_events :: "offloading_event list option"

definition LRUOffloadingManager :: "'b \<Rightarrow> bool \<Rightarrow> 'b lru_manager" where
  "LRUOffloadingManager backend enable_events =
     \<lparr>lru_backend = backend, lru_blocks = [], lru_events = (if enable_events then Some [] else None)\<rparr>"

fun hit_count :: "(bytes \<Rightarrow> block_status option) \<Rightarrow> bytes list \<Rightarrow> int" where
  "hit_count get [] = 0"
| "hit_count get (h # hs) =
     (case get h of None \<Rightarrow> 0 | Some s \<Rightarrow> if is_ready s then 1 + hit_count get hs else 0)"

definition lru_lookup :: "bytes list \<Rightarrow> 'b lru_manager \<Rightarrow> int" where
  "lru_lookup block_hashes m = hit_count (map_of (lru_blocks m)) block_hashes"

definition load_one :: "bytes \<Rightarrow> status_dict \<times> block_status list \<Rightarrow> (status_dict \<times> block_status list) res" where
  "load_one h = (\<lambda>(d, blocks).
     case map_of d h of
       None \<Rightarrow> Inl KeyError
     | Some s \<Rightarrow> rassert (is_ready s) (let s' = s\<lparr>st_ref_cnt := st_ref_cnt s + 1\<rparr> in Inr (AList.update h s' d, blocks @ [s'])))"

definition lru_prepare_load :: "'b backend_ops \<Rightarrow> bytes list \<Rightarrow> 'b lru_manager \<Rightarrow> (int list \<times> 'b lru_manager) res" where
  "lru_prepare_load ops block_hashes m =
     rbind (rfold load_one block_hashes (lru_blocks m, [])) (\<lambda>(d, blocks).
       Inr (be_get_load_store_spec ops block_hashes blocks, m\<lparr>lru_blocks := d\<rparr>))"

definition lru_touch :: "bytes list \<Rightarrow> 'b lru_manager \<Rightarrow> 'b lru_manager" where
  "lru_touch block_hashes m = m\<lparr>lru_blocks := fold od_move_to_end (rev block_hashes) (lru_blocks m)\<rparr>"

definition unload_one :: "bytes \<Rightarrow> status_dict \<Rightarrow> status_dict res" where
  "unload_one h d =
     (case map_of d h of
        None \<Rightarrow> Inl KeyError
      | Some s \<Rightarrow> rassert (0 < sint (st_ref_cnt s)) (Inr (AList.update h (s\<lparr>st_ref_cnt := st_ref_cnt s - 1\<rparr>) d)))"

definition lru_complete_load :: "bytes list \<Rightarrow> 'b lru_manager \<Rightarrow> 'b lru_manager res" where
  "lru_complete_load block_hashes m =
     rbind (rfold unload_one block_hashes (lru_blocks m)) (\<lambda>d. Inr (m\<lparr>lru_blocks := d\<rparr>))"

text \<open>The scan for blocks to evict; running off its end is the \<^verbatim>\<open>else\<close> branch of the loop.\<close>

fun evict_scan :: "bytes list \<Rightarrow> status_dict \<Rightarrow> int \<Rightarrow> bytes list \<Rightarrow> bytes list option" where
  "evict_scan protected [] n to_evict = None"
| "evict_scan protected ((h, s) # d) n to_evict =
     (if st_ref_cnt s = 0 \<and> h \<notin> set protected
      then (if n - 1 = 0 then Some (to_evict @ [h]) else evict_scan protected d (n - 1) (to_evict @ [h]))
      else evict_scan protected d n to_evict)"

definition evict_one :: "'b backend_ops \<Rightarrow> bytes \<Rightarrow> status_dict \<times> 'b \<Rightarrow> (status_dict \<times> 'b) res" where
  "evict_one ops h = (\<lambda>(d, b).
     case map_of d h of
       None \<Rightarrow> Inl KeyError
     | Some s \<Rightarrow> rbind (be_free ops s b) (\<lambda>b'. Inr (AList.delete h d, b')))"

definition add_event :: "'b backend_ops \<Rightarrow> 'b \<Rightarrow> bytes list \<Rightarrow> bool \<Rightarrow> offloading_event list option \<Rightarrow> offloading_event list option" where
  "add_event ops b hashes removed events =
     (if hashes \<noteq> []
      then map_option (\<lambda>evs. evs @ [\<lparr>ev_block_hashes = hashes, ev_block_size = be_block_size ops b, ev_medium = be_medium ops b,
             ev_removed = removed\<rparr>]) events
      else events)"

definition lru_prepare_store ::
  "'b backend_ops \<Rightarrow> bytes list \<Rightarrow> 'b lru_manager \<Rightarrow> (prepare_store_output option \<times> 'b lru_manager) res" where
  "lru_prepare_store ops block_hashes m =
     (let to_store = filter (\<lambda>h. map_of (lru_blocks m) h = None) block_hashes;
          n = int (length to_store) - be_get_num_free_blocks ops (lru_backend m)
      in case (if n > 0 then evict_scan block_hashes (lru_blocks m) n [] else Some []) of
           None \<Rightarrow> Inr (None, m)
         | Some to_evict \<Rightarrow>
             rbind (rfold (evict_one ops) to_evict (lru_blocks m, lru_backend m)) (\<lambda>(d, b).
             rbind (be_allocate_blocks ops to_store b) (\<lambda>(blocks, b').
             rassert (length blocks = length to_store)
               (Inr (Some \<lparr>block_hashes_to_store = to_store, store_spec = be_get_load_store_spec ops to_store blocks,
                           block_hashes_evicted = to_evict\<rparr>,
                     m\<lparr>lru_backend := b', lru_blocks := fold (\<lambda>(h, s). AList.update h s) (zip to_store blocks) d,
                       lru_events := add_event ops b to_evict True (lru_events m)\<rparr>)))))"

definition store_one :: "bytes \<Rightarrow> status_dict \<times> bytes list \<Rightarrow> (status_dict \<times> bytes list) res" where
  "store_one h = (\<lambda>(d, stored).
     case map_of d h of
       None \<Rightarrow> Inl KeyError
     | Some s \<Rightarrow> if is_ready s then Inr (d, stored) else Inr (AList.update h (s\<lparr>st_ref_cnt := 0\<rparr>) d, stored @ [h]))"

definition abort_one :: "'b backend_ops \<Rightarrow> bytes \<Rightarrow> status_dict \<times> 'b \<Rightarrow> (status_dict \<times> 'b) res" where
  "abort_one ops h = (\<lambda>(d, b).
     case map_of d h of
       None \<Rightarrow> Inl KeyError
     | Some s \<Rightarrow> if is_ready s then Inr (d, b) else rbind (be_free ops s b) (\<lambda>b'. Inr (AList.delete h d, b')))"

definition lru_complete_store :: "'b backend_ops \<Rightarrow> bytes list \<Rightarrow> bool \<Rightarrow> 'b lru_manager \<Rightarrow> 'b lru_manager res" where
  "lru_complete_store ops block_hashes success m =
     (if success
      then rbind (rfold store_one block_hashes (lru_blocks m, [])) (\<lambda>(d, stored).
             Inr (m\<lparr>lru_blocks := d, lru_events := add_event ops (lru_backend m) stored False (lru_events m)\<rparr>))
      else rbind (rfold (abort_one ops) block_hashes (lru_blocks m, lru_backend m)) (\<lambda>(d, b).
             Inr (m\<lparr>lru_blocks := d, lru_backend := b\<rparr>)))"

definition lru_take_events :: "'b lru_manager \<Rightarrow> offloading_event list \<times> 'b lru_manager" where
  "lru_take_events m =
     (case lru_events m of None \<Rightarrow> ([], m) | Some evs \<Rightarrow> (evs, m\<lparr>lru_events := Some []\<rparr>))"

section \<open>Ordered dictionaries of block statuses\<close>

named_theorems dict_simps \<open>ordered dictionaries\<close>

definition dict_ok :: "status_dict \<Rightarrow> bool" where
  "dict_ok d \<longleftrightarrow> distinct (map fst d) \<and> distinct (block_ids d)"

lemma delete_filter [dict_simps]: "AList.delete k d = filter (\<lambda>e. fst e \<noteq> k) d"
  by (auto simp: AList.delete_eq intro: filter_cong)

lemma update_new: "k \<notin> fst ` set d \<Longrightarrow> AList.update k v d = d @ [(k, v)]"
  by (induction d) auto

lemma map_of_kept: "P h \<Longrightarrow> map_of (filter (\<lambda>e. P (fst e)) d) h = map_of d h"
  by (induction d) auto

lemma insert_all:
  assumes "length ss = length hs" and "distinct hs" and "set hs \<inter> fst ` set d = {}"
  shows "fold (\<lambda>(h, s). AList.update h s) (zip hs ss) d = d @ zip hs ss"
  using assms
proof (induction hs arbitrary: ss d)
  case (Cons h hs)
  obtain t ts where ss: "ss = t # ts" "length ts = length hs" using Cons.prems(1) by (cases ss) auto
  then show ?case using Cons.IH [of ts "d @ [(h, t)]"] Cons.prems by (auto simp: update_new)
qed simp

text \<open>Changing only the reference count of an entry.\<close>

lemma update_ref:
  assumes "map_of d h = Some s"
  shows "map fst (AList.update h (s\<lparr>st_ref_cnt := r\<rparr>) d) = map fst d"
    and "block_ids (AList.update h (s\<lparr>st_ref_cnt := r\<rparr>) d) = block_ids d"
  using assms by (induction d) (auto simp: block_ids_def split: if_splits)

lemma ids_filter: "distinct (map fst d) \<Longrightarrow> distinct (block_ids d) \<Longrightarrow> map_of d h = Some s \<Longrightarrow>
    set (block_ids (filter (\<lambda>e. fst e \<noteq> h) d)) = set (block_ids d) - {st_block_id s}"
  by (induction d) (auto simp: block_ids_def rev_image_eqI split: if_splits dest: map_of_SomeD)

lemma dict_ok_filter: "dict_ok d \<Longrightarrow> dict_ok (filter P d)"
  by (auto simp: dict_ok_def block_ids_def distinct_map_filter)

lemma map_of_Some_ids: "map_of d h = Some s \<Longrightarrow> st_block_id s \<in> set (block_ids d)"
  by (force simp: block_ids_def dest: map_of_SomeD)

lemma move_to_end_perm: "dict_ok d \<Longrightarrow> mset (od_move_to_end h d) = mset d"
proof (cases "map_of d h")
  case (Some s)
  assume "dict_ok d"
  then have "filter (\<lambda>e. fst e = h) d = [(h, s)]" using Some
    by (induction d) (auto simp: dict_ok_def block_ids_def filter_empty_conv image_iff split: if_splits)
  moreover have "mset d = mset (filter (\<lambda>e. fst e = h) d) + mset (filter (\<lambda>e. fst e \<noteq> h) d)"
    by (simp add: union_filter_mset_complement)
  ultimately show ?thesis using Some by (simp add: od_move_to_end_def delete_filter)
qed (simp add: od_move_to_end_def)

lemma dict_ok_mset: "mset d = mset d' \<Longrightarrow> dict_ok d \<longleftrightarrow> dict_ok d'"
  unfolding dict_ok_def block_ids_def by (metis mset_eq_imp_distinct_iff mset_map)

lemma ids_mset: "mset d = mset d' \<Longrightarrow> set (block_ids d) = set (block_ids d')"
  unfolding block_ids_def by (metis mset_eq_setD set_map)

lemma touch_perm: "dict_ok d \<Longrightarrow> mset (fold od_move_to_end hs d) = mset d"
proof (induction hs arbitrary: d)
  case (Cons h hs)
  then show ?case using Cons.IH [of "od_move_to_end h d"] move_to_end_perm [OF Cons.prems, of h]
      dict_ok_mset [of "od_move_to_end h d" d] by simp
qed simp

section \<open>The scan for blocks to evict\<close>

definition evictable :: "bytes list \<Rightarrow> status_dict \<Rightarrow> bytes list" where
  "evictable protected d = map fst (filter (\<lambda>(h, s). st_ref_cnt s = 0 \<and> h \<notin> set protected) d)"

lemma evict_scan_eq:
  assumes "0 < n"
  shows "evict_scan protected d n acc =
    (if n \<le> int (length (evictable protected d)) then Some (acc @ take (nat n) (evictable protected d)) else None)"
  using assms
proof (induction d arbitrary: n acc)
  case (Cons e d)
  obtain h s where e: "e = (h, s)" by (cases e)
  show ?case
  proof (cases "st_ref_cnt s = 0 \<and> h \<notin> set protected \<and> n \<noteq> 1")
    case True
    then have "nat n = Suc (nat (n - 1))" using Cons.prems by simp
    then show ?thesis using Cons.IH [of "n - 1" "acc @ [h]"] True Cons.prems by (auto simp: e evictable_def)
  next
    case False
    then show ?thesis using Cons.IH [of n acc] Cons.prems by (auto simp: e evictable_def Suc_le_eq)
  qed
qed (simp add: evictable_def)

lemma evictable_keys: "dict_ok d \<Longrightarrow> distinct (evictable protected d)" "set (evictable protected d) \<subseteq> fst ` set d"
  by (auto simp: evictable_def dict_ok_def distinct_map_filter)

section \<open>What every operation keeps\<close>

definition lru_inv :: "('b \<Rightarrow> 64 word set \<Rightarrow> bool) \<Rightarrow> 'b lru_manager \<Rightarrow> bool" where
  "lru_inv binv m \<longleftrightarrow> dict_ok (lru_blocks m) \<and> binv (lru_backend m) (set (block_ids (lru_blocks m)))"

lemma load_one_ids:
  assumes "load_one h s = Inr s'"
  shows "map fst (fst s') = map fst (fst s)" and "block_ids (fst s') = block_ids (fst s)"
  by (insert assms, cases s, auto simp: load_one_def rassert_eq_Inr_iff Let_def update_ref split: option.splits)+

lemma unload_one_ids:
  assumes "unload_one h d = Inr d'"
  shows "map fst d' = map fst d" and "block_ids d' = block_ids d"
  using assms by (auto simp: unload_one_def rassert_eq_Inr_iff update_ref split: option.splits)

lemma store_one_ids:
  assumes "store_one h s = Inr s'"
  shows "map fst (fst s') = map fst (fst s)" and "block_ids (fst s') = block_ids (fst s)"
  by (insert assms, cases s, auto simp: store_one_def update_ref split: option.splits if_splits)+

lemmas status_only = load_one_ids unload_one_ids store_one_ids

lemma rfold_same:
  assumes "rfold f hs s = Inr s'" and "\<And>h s s'. f h s = Inr s' \<Longrightarrow> g s' = g s"
  shows "g s' = g s"
  using rfold_invariant [of f hs s s' "\<lambda>t. g t = g s"] assms by metis

text \<open>One call of a client. Lookups change nothing; the hashes of a store are those of one prompt, all different.\<close>

inductive lru_step :: "'b backend_ops \<Rightarrow> 'b lru_manager \<Rightarrow> 'b lru_manager \<Rightarrow> bool" for ops where
  Prepare_Load: "lru_prepare_load ops hs m = Inr (spec, m') \<Longrightarrow> lru_step ops m m'"
| Complete_Load: "lru_complete_load hs m = Inr m' \<Longrightarrow> lru_step ops m m'"
| Touch: "lru_step ops m (lru_touch hs m)"
| Prepare_Store: "distinct hs \<Longrightarrow> lru_prepare_store ops hs m = Inr (out, m') \<Longrightarrow> lru_step ops m m'"
| Complete_Store: "lru_complete_store ops hs success m = Inr m' \<Longrightarrow> lru_step ops m m'"
| Take_Events: "lru_take_events m = (evs, m') \<Longrightarrow> lru_step ops m m'"

context offload_backend
begin

lemma evict_one_law:
  assumes "dict_ok d" and "binv b (set (block_ids d))" and "h \<in> fst ` set d"
  shows "\<exists>b'. evict_one ops h (d, b) = Inr (filter (\<lambda>e. fst e \<noteq> h) d, b') \<and>
    binv b' (set (block_ids (filter (\<lambda>e. fst e \<noteq> h) d))) \<and> capacity b' = capacity b"
proof -
  obtain s where s: "map_of d h = Some s" using assms(3) by (metis domIff dom_map_of_conv_image_fst not_Some_eq)
  obtain b' where "be_free ops s b = Inr b'" "binv b' (set (block_ids d) - {st_block_id s})" "capacity b' = capacity b"
    using free_law [OF assms(2) map_of_Some_ids [OF s]] by blast
  then show ?thesis using s ids_filter [OF _ _ s] assms(1) by (simp add: evict_one_def delete_filter dict_ok_def)
qed

lemma evict_all_law:
  assumes "dict_ok d" and "binv b (set (block_ids d))" and "distinct hs" and "set hs \<subseteq> fst ` set d"
  shows "\<exists>b'. rfold (evict_one ops) hs (d, b) = Inr (filter (\<lambda>e. fst e \<notin> set hs) d, b') \<and>
    binv b' (set (block_ids (filter (\<lambda>e. fst e \<notin> set hs) d))) \<and> capacity b' = capacity b"
  using assms
proof (induction hs arbitrary: d b)
  case (Cons h hs)
  let ?d = "filter (\<lambda>e. fst e \<noteq> h) d"
  obtain b1 where b1: "evict_one ops h (d, b) = Inr (?d, b1)" "binv b1 (set (block_ids ?d))" "capacity b1 = capacity b"
    using evict_one_law [OF Cons.prems(1,2)] Cons.prems(4) by auto
  have eq: "filter (\<lambda>e. fst e \<notin> set hs) ?d = filter (\<lambda>e. fst e \<notin> set (h # hs)) d" by (auto intro: filter_cong)
  have "set hs \<subseteq> fst ` set ?d" using Cons.prems(3,4) by (force simp: image_iff)
  then obtain b2 where "rfold (evict_one ops) hs (?d, b1) = Inr (filter (\<lambda>e. fst e \<notin> set (h # hs)) d, b2)"
    "binv b2 (set (block_ids (filter (\<lambda>e. fst e \<notin> set (h # hs)) d)))" "capacity b2 = capacity b1"
    using Cons.IH [OF dict_ok_filter [OF Cons.prems(1)] b1(2)] Cons.prems(3) unfolding eq by auto
  then show ?case using b1 by simp
qed simp

lemma abort_one_law:
  assumes "dict_ok d" and "binv b (set (block_ids d))" and "abort_one ops h (d, b) = Inr (d', b')"
  shows "dict_ok d' \<and> binv b' (set (block_ids d')) \<and> capacity b' = capacity b"
proof -
  obtain s where s: "map_of d h = Some s" using assms(3) by (auto simp: abort_one_def split: option.splits)
  show ?thesis
  proof (cases "is_ready s")
    case False
    obtain b1 where "be_free ops s b = Inr b1" "binv b1 (set (block_ids d) - {st_block_id s})" "capacity b1 = capacity b"
      using free_law [OF assms(2) map_of_Some_ids [OF s]] by blast
    then show ?thesis using assms s False ids_filter [OF _ _ s] dict_ok_filter [OF assms(1)]
      by (auto simp: abort_one_def delete_filter dict_ok_def)
  qed (use assms s in \<open>simp add: abort_one_def\<close>)
qed

lemma length_kept:
  assumes "distinct (map fst d)" and "distinct hs" and "set hs \<subseteq> fst ` set d"
  shows "length (filter (\<lambda>e. fst e \<notin> set hs) d) + length hs = length d"
proof -
  have "set (map fst (filter (\<lambda>e. fst e \<in> set hs) d)) = set hs" using assms(3) by force
  moreover have "distinct (map fst (filter (\<lambda>e. fst e \<in> set hs) d))" using assms(1) by (rule distinct_map_filter)
  ultimately have "length (filter (\<lambda>e. fst e \<in> set hs) d) = length hs"
    using assms(2) by (metis distinct_card length_map)
  then show ?thesis using sum_length_filter_compl [of "\<lambda>e. fst e \<in> set hs" d] by simp
qed

lemma free_blocks_of:
  assumes "dict_ok d" and "binv b (set (block_ids d))"
  shows "be_get_num_free_blocks ops b = capacity b - int (length d)"
  using assms free_count [of b "set (block_ids d)"] distinct_card [of "block_ids d"] by (simp add: dict_ok_def block_ids_def)

text \<open>Preparing a store: what is evicted, what is stored and when it is refused.\<close>

lemma lru_prepare_store_spec:
  assumes inv: "lru_inv binv m" and hs: "distinct hs" and d_def: "d = lru_blocks m"
    and new_def: "new = filter (\<lambda>h. h \<notin> fst ` set (lru_blocks m)) hs"
    and need_def: "need = nat (int (length new) - be_get_num_free_blocks ops (lru_backend m))"
  shows "if length (evictable hs d) < need then lru_prepare_store ops hs m = Inr (None, m)
    else (\<exists>ss b1 b'. let gone = take need (evictable hs d); kept = filter (\<lambda>e. fst e \<notin> set gone) d in
      lru_prepare_store ops hs m = Inr (Some \<lparr>block_hashes_to_store = new, store_spec = be_get_load_store_spec ops new ss,
          block_hashes_evicted = gone\<rparr>,
        m\<lparr>lru_backend := b', lru_blocks := kept @ zip new ss, lru_events := add_event ops b1 gone True (lru_events m)\<rparr>) \<and>
      length ss = length new \<and> (\<forall>s\<in>set ss. st_ref_cnt s = - 1) \<and> capacity b' = capacity (lru_backend m) \<and>
      dict_ok (kept @ zip new ss) \<and> binv b' (set (block_ids (kept @ zip new ss))))"
proof -
  have ok: "dict_ok d" and b: "binv (lru_backend m) (set (block_ids d))" using inv by (simp_all add: lru_inv_def d_def)
  have new: "filter (\<lambda>h. map_of (lru_blocks m) h = None) hs = new" by (simp add: new_def map_of_eq_None_iff)
  define n where "n = int (length new) - be_get_num_free_blocks ops (lru_backend m)"
  have need: "need = nat n" by (simp add: need_def n_def)
  let ?gone = "take need (evictable hs d)"
  let ?kept = "filter (\<lambda>e. fst e \<notin> set ?gone) d"
  have scan: "(if n > 0 then evict_scan hs d n [] else Some []) = (if length (evictable hs d) < need then None else Some ?gone)"
    by (auto simp: evict_scan_eq need not_less nat_le_iff)
  have unfold: "lru_prepare_store ops hs m = (case (if length (evictable hs d) < need then None else Some ?gone) of
      None \<Rightarrow> Inr (None, m)
    | Some to_evict \<Rightarrow>
        rbind (rfold (evict_one ops) to_evict (d, lru_backend m)) (\<lambda>(d, b).
        rbind (be_allocate_blocks ops new b) (\<lambda>(blocks, b').
        rassert (length blocks = length new)
          (Inr (Some \<lparr>block_hashes_to_store = new, store_spec = be_get_load_store_spec ops new blocks, block_hashes_evicted = to_evict\<rparr>,
                m\<lparr>lru_backend := b', lru_blocks := fold (\<lambda>(h, s). AList.update h s) (zip new blocks) d,
                  lru_events := add_event ops b to_evict True (lru_events m)\<rparr>)))))"
    unfolding scan [symmetric] unfolding lru_prepare_store_def Let_def new n_def d_def ..
  show ?thesis
  proof (cases "length (evictable hs d) < need")
    case True
    then show ?thesis by (simp add: unfold)
  next
    case False
    have gone: "distinct ?gone" "set ?gone \<subseteq> fst ` set d"
      using evictable_keys(1) [OF ok, of hs] evictable_keys(2) [of hs d] set_take_subset [of need "evictable hs d"] by (auto intro: distinct_take)
    then obtain b1 where b1: "rfold (evict_one ops) ?gone (d, lru_backend m) = Inr (?kept, b1)" "binv b1 (set (block_ids ?kept))"
      "capacity b1 = capacity (lru_backend m)" using evict_all_law [OF ok b] by blast
    have "length ?kept + length ?gone = length d" using length_kept [OF _ gone] ok by (simp add: dict_ok_def)
    moreover have "length ?gone = need" using False by simp
    ultimately have "int (length new) \<le> be_get_num_free_blocks ops b1"
      using free_blocks_of [OF ok b] free_blocks_of [OF dict_ok_filter [OF ok] b1(2)] b1(3) by (simp add: n_def need)
    from allocate_law [OF b1(2) this] obtain ss b' where ss: "be_allocate_blocks ops new b1 = Inr (ss, b')" "length ss = length new"
      "distinct (map st_block_id ss)" "set (map st_block_id ss) \<inter> set (block_ids ?kept) = {}" "\<forall>s\<in>set ss. st_ref_cnt s = - 1"
      "binv b' (set (block_ids ?kept) \<union> set (map st_block_id ss))" "capacity b' = capacity b1" by blast
    have dn: "distinct new" "set new \<inter> fst ` set ?kept = {}" using hs by (auto simp: new_def d_def)
    have ids: "block_ids (?kept @ zip new ss) = block_ids ?kept @ map st_block_id ss"
      using ss(2) by (simp add: block_ids_def map_snd_zip flip: map_map)
    have "dict_ok (?kept @ zip new ss)"
      using dict_ok_filter [OF ok, of "\<lambda>e. fst e \<notin> set ?gone"] dn ss(2-4) unfolding dict_ok_def ids by auto
    moreover have "lru_prepare_store ops hs m = Inr (Some \<lparr>block_hashes_to_store = new,
        store_spec = be_get_load_store_spec ops new ss, block_hashes_evicted = ?gone\<rparr>,
        m\<lparr>lru_backend := b', lru_blocks := ?kept @ zip new ss, lru_events := add_event ops b1 ?gone True (lru_events m)\<rparr>)"
      using False b1(1) ss(1,2) insert_all [OF ss(2) dn] by (simp add: unfold)
    moreover have "binv b' (set (block_ids (?kept @ zip new ss)))" using ss(6) by (simp add: ids)
    ultimately show ?thesis using ss(2,5,7) b1(3) unfolding if_not_P [OF False] Let_def
      by (intro exI [of _ ss] exI [of _ b1] exI [of _ b']) simp
  qed
qed

lemma lru_prepare_store_inv:
  assumes inv: "lru_inv binv m" and hs: "distinct hs" and p: "lru_prepare_store ops hs m = Inr (out, m')"
  shows "lru_inv binv m' \<and> capacity (lru_backend m') = capacity (lru_backend m)"
proof -
  note spec = lru_prepare_store_spec [OF inv hs refl refl refl]
  let ?need = "nat (int (length (filter (\<lambda>h. h \<notin> fst ` set (lru_blocks m)) hs)) - be_get_num_free_blocks ops (lru_backend m))"
  show ?thesis
  proof (cases "length (evictable hs (lru_blocks m)) < ?need")
    case True
    then show ?thesis using spec p inv by simp
  next
    case False
    from spec [unfolded if_not_P [OF False] Let_def] show ?thesis
      unfolding p by (elim exE conjE) (simp add: lru_inv_def)
  qed
qed

lemma lru_same_ids:
  assumes "lru_inv binv m" and "map fst d = map fst (lru_blocks m)" and "block_ids d = block_ids (lru_blocks m)"
  shows "lru_inv binv (m\<lparr>lru_blocks := d\<rparr>)"
  using assms by (simp add: lru_inv_def dict_ok_def)

lemma lru_step_inv:
  assumes "lru_step ops m m'" and inv: "lru_inv binv m"
  shows "lru_inv binv m' \<and> capacity (lru_backend m') = capacity (lru_backend m)"
  using assms(1)
proof cases
  case (Prepare_Load hs spec)
  then obtain d bs where r: "rfold load_one hs (lru_blocks m, []) = Inr (d, bs)" and m': "m' = m\<lparr>lru_blocks := d\<rparr>"
    by (auto simp: lru_prepare_load_def rbind_eq_Inr_iff)
  have "map fst d = map fst (lru_blocks m)" using rfold_same [OF r, of "\<lambda>t. map fst (fst t)", OF load_one_ids(1)] by simp
  moreover have "block_ids d = block_ids (lru_blocks m)" using rfold_same [OF r, of "\<lambda>t. block_ids (fst t)", OF load_one_ids(2)] by simp
  ultimately show ?thesis using lru_same_ids [OF inv] by (simp add: m')
next
  case (Complete_Load hs)
  then obtain d where r: "rfold unload_one hs (lru_blocks m) = Inr d" and m': "m' = m\<lparr>lru_blocks := d\<rparr>"
    by (auto simp: lru_complete_load_def rbind_eq_Inr_iff)
  have "map fst d = map fst (lru_blocks m)" by (rule rfold_same [OF r]) (rule unload_one_ids(1))
  moreover have "block_ids d = block_ids (lru_blocks m)" by (rule rfold_same [OF r]) (rule unload_one_ids(2))
  ultimately show ?thesis using lru_same_ids [OF inv] by (simp add: m')
next
  case (Touch hs)
  let ?d = "fold od_move_to_end (rev hs) (lru_blocks m)"
  have "mset ?d = mset (lru_blocks m)" using inv by (intro touch_perm) (simp add: lru_inv_def)
  then show ?thesis using inv dict_ok_mset [of ?d "lru_blocks m"] ids_mset [of ?d "lru_blocks m"]
    unfolding Touch lru_touch_def lru_inv_def by simp
next
  case (Prepare_Store hs out)
  then show ?thesis by (rule lru_prepare_store_inv [OF inv])
next
  case (Complete_Store hs success)
  show ?thesis
  proof (cases success)
    case True
    then obtain d st where r: "rfold store_one hs (lru_blocks m, []) = Inr (d, st)"
      and m': "m' = m\<lparr>lru_blocks := d, lru_events := add_event ops (lru_backend m) st False (lru_events m)\<rparr>"
      using Complete_Store by (auto simp: lru_complete_store_def rbind_eq_Inr_iff)
    have "map fst d = map fst (lru_blocks m)" using rfold_same [OF r, of "\<lambda>t. map fst (fst t)", OF store_one_ids(1)] by simp
    moreover have "block_ids d = block_ids (lru_blocks m)" using rfold_same [OF r, of "\<lambda>t. block_ids (fst t)", OF store_one_ids(2)] by simp
    ultimately show ?thesis using inv by (simp add: m' lru_inv_def dict_ok_def)
  next
    case False
    then obtain d b where r: "rfold (abort_one ops) hs (lru_blocks m, lru_backend m) = Inr (d, b)"
      and m': "m' = m\<lparr>lru_blocks := d, lru_backend := b\<rparr>"
      using Complete_Store by (auto simp: lru_complete_store_def rbind_eq_Inr_iff)
    let ?P = "\<lambda>s. dict_ok (fst s) \<and> binv (snd s) (set (block_ids (fst s))) \<and> capacity (snd s) = capacity (lru_backend m)"
    have "?P (d, b)"
    proof (rule rfold_invariant [OF r, of ?P])
      show "?P (lru_blocks m, lru_backend m)" using inv by (simp add: lru_inv_def)
      fix h s s'
      assume "?P s" and "abort_one ops h s = Inr s'"
      then show "?P s'" using abort_one_law [of "fst s" "snd s" h "fst s'" "snd s'"] by simp
    qed
    then show ?thesis by (simp add: m' lru_inv_def)
  qed
next
  case (Take_Events evs)
  then have "m' = m \<or> m' = m\<lparr>lru_events := Some []\<rparr>" by (auto simp: lru_take_events_def split: option.splits)
  then show ?thesis using inv by (auto simp: lru_inv_def)
qed

lemma lru_reachable_inv:
  assumes "(lru_step ops)\<^sup>*\<^sup>* m m'" and "lru_inv binv m"
  shows "lru_inv binv m' \<and> capacity (lru_backend m') = capacity (lru_backend m)"
  using assms(1)
proof (induction rule: rtranclp_induct)
  case base
  then show ?case using assms(2) by simp
next
  case (step y z)
  then show ?case using lru_step_inv [of y z] by simp
qed

end

section \<open>Completing a store\<close>

lemma is_ready_simps [simp]: "is_ready (s\<lparr>st_ref_cnt := 0\<rparr>)" "st_ref_cnt s = - 1 \<Longrightarrow> \<not> is_ready s"
  by (simp_all add: is_ready_def)

definition made_ready :: "bytes set \<Rightarrow> bytes \<times> block_status \<Rightarrow> bytes \<times> block_status" where
  "made_ready H e = (if fst e \<in> H \<and> \<not> is_ready (snd e) then (fst e, (snd e)\<lparr>st_ref_cnt := 0\<rparr>) else e)"

lemma update_map: "distinct (map fst d) \<Longrightarrow> h \<in> fst ` set d \<Longrightarrow> AList.update h v d = map (\<lambda>e. if fst e = h then (h, v) else e) d"
proof (induction d)
  case (Cons e d)
  then show ?case by (cases "fst e = h") (auto simp: image_iff intro!: map_idI [symmetric])
qed simp

lemma store_all:
  assumes "distinct (map fst d)" and "set hs \<subseteq> fst ` set d"
  shows "\<exists>st. rfold store_one hs (d, acc) = Inr (map (made_ready (set hs)) d, st)"
  using assms
proof (induction hs arbitrary: d acc)
  case Nil
  have "map (made_ready {}) d = d" by (intro map_idI) (simp add: made_ready_def)
  then show ?case by simp
next
  case (Cons h hs)
  obtain s where s: "map_of d h = Some s" using Cons.prems(2) by (metis domIff dom_map_of_conv_image_fst insert_subset list.simps(15) not_Some_eq)
  have e: "e = (h, s)" if "e \<in> set d" "fst e = h" for e
    using that s Cons.prems(1) by (metis map_of_is_SomeI option.inject prod.collapse)
  let ?d = "map (made_ready {h}) d"
  have one: "\<exists>acc'. store_one h (d, acc) = Inr (?d, acc')"
  proof (cases "is_ready s")
    case True
    have "?d = d" using e True by (intro map_idI) (auto simp: made_ready_def)
    then show ?thesis using s True by (simp add: store_one_def)
  next
    case False
    have "(if fst x = h then (h, s\<lparr>st_ref_cnt := 0\<rparr>) else x) = made_ready {h} x" if "x \<in> set d" for x
      using e [OF that] False by (cases "fst x = h") (simp_all add: made_ready_def)
    then have "AList.update h (s\<lparr>st_ref_cnt := 0\<rparr>) d = ?d"
      using Cons.prems by (subst update_map) simp_all
    then show ?thesis using s False by (simp add: store_one_def)
  qed
  have fst: "map fst ?d = map fst d" by (simp add: made_ready_def)
  then have "fst ` set ?d = fst ` set d" by (metis set_map)
  with fst have d: "distinct (map fst ?d)" "set hs \<subseteq> fst ` set ?d" using Cons.prems by (simp_all only:) simp
  have eq: "map (made_ready (set hs)) ?d = map (made_ready (set (h # hs))) d" by (auto simp: made_ready_def)
  obtain acc' st where "store_one h (d, acc) = Inr (?d, acc')" "rfold store_one hs (?d, acc') = Inr (map (made_ready (set hs)) ?d, st)"
    using one Cons.IH [OF d] by blast
  then show ?case unfolding eq by (simp only: rfold.simps rbind_Inr) blast
qed

lemma hit_count_all: "(\<And>h. h \<in> set hs \<Longrightarrow> \<exists>s. get h = Some s \<and> is_ready s) \<Longrightarrow> hit_count get hs = int (length hs)"
proof (induction hs)
  case (Cons h hs)
  then obtain s where "get h = Some s" "is_ready s" by auto
  then show ?case using Cons by simp
qed simp

lemma map_of_made_ready: "map_of (map (made_ready H) d) h =
    map_option (\<lambda>s. if h \<in> H \<and> \<not> is_ready s then s\<lparr>st_ref_cnt := 0\<rparr> else s) (map_of d h)"
  by (induction d) (auto simp: made_ready_def)

text \<open>After a store has completed, every hash asked for that was readable or has been stored is found.\<close>

context offload_backend
begin

lemma lru_prepare_store_SomeD:
  assumes inv: "lru_inv binv m" and hs: "distinct hs" and p: "lru_prepare_store ops hs m = Inr (Some out, m1)"
  shows "\<exists>ss. block_hashes_to_store out = filter (\<lambda>h. h \<notin> fst ` set (lru_blocks m)) hs \<and>
    lru_blocks m1 = filter (\<lambda>e. fst e \<notin> set (block_hashes_evicted out)) (lru_blocks m) @ zip (block_hashes_to_store out) ss \<and>
    length ss = length (block_hashes_to_store out) \<and> dict_ok (lru_blocks m1) \<and>
    set (block_hashes_evicted out) \<subseteq> set (evictable hs (lru_blocks m))"
proof -
  define new where "new = filter (\<lambda>h. h \<notin> fst ` set (lru_blocks m)) hs"
  define need where "need = nat (int (length new) - be_get_num_free_blocks ops (lru_backend m))"
  define gone where "gone = take need (evictable hs (lru_blocks m))"
  note spec = lru_prepare_store_spec [OF inv hs refl new_def need_def]
  show ?thesis
  proof (cases "length (evictable hs (lru_blocks m)) < need")
    case True
    then show ?thesis using spec p by simp
  next
    case False
    from spec [unfolded if_not_P [OF False] Let_def gone_def [symmetric] p sum.inject prod.inject option.inject]
    obtain ss b1 b' where "out = \<lparr>block_hashes_to_store = new, store_spec = be_get_load_store_spec ops new ss, block_hashes_evicted = gone\<rparr>"
      "m1 = m\<lparr>lru_backend := b', lru_blocks := filter (\<lambda>e. fst e \<notin> set gone) (lru_blocks m) @ zip new ss,
        lru_events := add_event ops b1 gone True (lru_events m)\<rparr>" "length ss = length new"
      "dict_ok (filter (\<lambda>e. fst e \<notin> set gone) (lru_blocks m) @ zip new ss)" by blast
    then show ?thesis using set_take_subset [of need "evictable hs (lru_blocks m)"]
      by (intro exI [of _ ss]) (simp add: gone_def new_def)
  qed
qed

lemma lru_store_round_trip:
  assumes inv: "lru_inv binv m" and hs: "distinct hs" and p: "lru_prepare_store ops hs m = Inr (Some out, m1)"
    and ready: "\<forall>h\<in>set hs. \<forall>s. map_of (lru_blocks m) h = Some s \<longrightarrow> is_ready s"
  shows "\<exists>m2. lru_complete_store ops (block_hashes_to_store out) True m1 = Inr m2 \<and> lru_lookup hs m2 = int (length hs)"
proof -
  let ?new = "filter (\<lambda>h. h \<notin> fst ` set (lru_blocks m)) hs"
  define gone where "gone = block_hashes_evicted out"
  let ?kept = "filter (\<lambda>e. fst e \<notin> set gone) (lru_blocks m)"
  obtain ss where ss: "block_hashes_to_store out = ?new" "lru_blocks m1 = ?kept @ zip ?new ss" "length ss = length ?new"
    "dict_ok (lru_blocks m1)" "set gone \<subseteq> set (evictable hs (lru_blocks m))"
    using lru_prepare_store_SomeD [OF inv hs p] unfolding gone_def by metis
  let ?d = "map (made_ready (set ?new)) (lru_blocks m1)"
  have "set ?new \<subseteq> fst ` set (lru_blocks m1)" unfolding ss(2) using ss(3) by (simp add: image_Un flip: set_map)
  then obtain st where st: "rfold store_one ?new (lru_blocks m1, []) = Inr (?d, st)"
    using store_all [of "lru_blocks m1" ?new "[]"] ss(4) by (auto simp: dict_ok_def)
  have "\<exists>s. map_of ?d h = Some s \<and> is_ready s" if h: "h \<in> set hs" for h
  proof (cases "h \<in> set ?new")
    case True
    then have "h \<in> fst ` set (lru_blocks m1)" using \<open>set ?new \<subseteq> _\<close> by blast
    then obtain s where "map_of (lru_blocks m1) h = Some s" by (metis domIff dom_map_of_conv_image_fst not_Some_eq)
    then show ?thesis using True by (auto simp: map_of_made_ready)
  next
    case False
    then obtain s where s: "map_of (lru_blocks m) h = Some s" using h
      by (cases "map_of (lru_blocks m) h") (auto simp: map_of_eq_None_iff)
    have "h \<notin> set gone" using ss(5) h by (auto simp: evictable_def)
    then have "map_of ?kept h = Some s" using s map_of_kept [of "\<lambda>k. k \<notin> set gone" h "lru_blocks m"] by simp
    then have "map_of (lru_blocks m1) h = Some s" by (simp add: ss(2) map_add_Some_iff)
    then show ?thesis using ready h s by (auto simp: map_of_made_ready)
  qed
  then show ?thesis using st hit_count_all [of hs "map_of ?d"] by (simp add: lru_complete_store_def ss(1) lru_lookup_def)
qed

end

section \<open>Properties\<close>

abbreviation lru_start :: "int \<Rightarrow> int \<Rightarrow> bool \<Rightarrow> cpu_backend lru_manager" where
  "lru_start bsz n enable_events \<equiv> LRUOffloadingManager (CPUBackend bsz n) enable_events"

lemma lru_start_inv:
  assumes "0 \<le> n" and "n \<le> 2 ^ 63"
  shows "lru_inv cpu_inv (lru_start bsz n ev)" and "cpu_num_blocks (lru_backend (lru_start bsz n ev)) = n"
  using cpu_inv_start [OF assms] by (simp_all add: lru_inv_def LRUOffloadingManager_def dict_ok_def block_ids_def CPUBackend_def)

lemma lru_from_start:
  assumes "0 \<le> n" and "n \<le> 2 ^ 63" and "(lru_step cpu_ops)\<^sup>*\<^sup>* (lru_start bsz n ev) m"
  shows "lru_inv cpu_inv m" and "cpu_num_blocks (lru_backend m) = n"
  using cpu.lru_reachable_inv [OF assms(3) lru_start_inv(1) [OF assms(1,2)]] lru_start_inv(2) [OF assms(1,2)] by simp_all

text \<open>C21. No offloaded block is lost or shared. Over every history of the least-recently-used manager on the CPU
  back end, every stored hash has a place of its own within the configured number of blocks, and the blocks stored
  and the blocks the back end reports free add up to that number.\<close>

theorem lru_blocks_conserved:
  assumes "0 \<le> n" and "n \<le> 2 ^ 63" and "(lru_step cpu_ops)\<^sup>*\<^sup>* (lru_start bsz n ev) m"
  shows "distinct (map fst (lru_blocks m)) \<and> distinct (block_ids (lru_blocks m)) \<and>
    (\<forall>w\<in>set (block_ids (lru_blocks m)). 0 \<le> sint w \<and> sint w < n) \<and>
    int (length (lru_blocks m)) + cpu_get_num_free_blocks (lru_backend m) = n"
proof -
  have ok: "dict_ok (lru_blocks m)" and b: "cpu_inv (lru_backend m) (set (block_ids (lru_blocks m)))" and n: "cpu_num_blocks (lru_backend m) = n"
    using lru_from_start [OF assms] by (simp_all add: lru_inv_def)
  have "sint w \<in> {0..<num_allocated_blocks (lru_backend m)}" if "w \<in> set (block_ids (lru_blocks m))" for w
    using b that unfolding cpu_inv_def by blast
  moreover have "num_allocated_blocks (lru_backend m) \<le> n" using b n by (simp add: cpu_inv_def)
  moreover have "cpu_get_num_free_blocks (lru_backend m) = n - int (length (lru_blocks m))"
    using cpu.free_blocks_of [OF ok b] by (simp add: n cpu_ops_def)
  ultimately show ?thesis using ok by (fastforce simp: dict_ok_def)
qed

text \<open>C20. Preparing a store. The call never raises. It is refused, changing nothing, exactly when too few blocks are
  idle; otherwise it stores the hashes that are not present, marked as not ready, and evicts as many blocks as are
  missing: the least recently used ones among those that are neither being read, nor being written, nor asked for.\<close>

theorem lru_store_contract:
  assumes "0 \<le> n" and "n \<le> 2 ^ 63" and "(lru_step cpu_ops)\<^sup>*\<^sup>* (lru_start bsz n ev) m" and "distinct hs"
    and "new = filter (\<lambda>h. h \<notin> fst ` set (lru_blocks m)) hs" and "idle = evictable hs (lru_blocks m)"
    and "need = nat (int (length new) - cpu_get_num_free_blocks (lru_backend m))"
  shows "if length idle < need then lru_prepare_store cpu_ops hs m = Inr (None, m)
    else (\<exists>ss m'. lru_prepare_store cpu_ops hs m = Inr (Some \<lparr>block_hashes_to_store = new,
        store_spec = cpu_get_load_store_spec new ss, block_hashes_evicted = take need idle\<rparr>, m') \<and>
      lru_blocks m' = filter (\<lambda>e. fst e \<notin> set (take need idle)) (lru_blocks m) @ zip new ss \<and>
      length ss = length new \<and> (\<forall>s\<in>set ss. \<not> is_ready s))"
proof -
  have need: "need = nat (int (length new) - be_get_num_free_blocks cpu_ops (lru_backend m))"
    by (simp add: assms(7) cpu_ops_def)
  note spec = cpu.lru_prepare_store_spec [OF lru_from_start(1) [OF assms(1-3)] assms(4) refl assms(5) need, folded assms(6)]
  have spec_fun: "be_get_load_store_spec cpu_ops = cpu_get_load_store_spec" by (simp add: cpu_ops_def)
  show ?thesis
  proof (cases "length idle < need")
    case True
    then show ?thesis using spec by simp
  next
    case False
    from spec [unfolded if_not_P [OF False] Let_def spec_fun] obtain ss b1 b' where
      "lru_prepare_store cpu_ops hs m = Inr (Some \<lparr>block_hashes_to_store = new, store_spec = cpu_get_load_store_spec new ss,
          block_hashes_evicted = take need idle\<rparr>,
        m\<lparr>lru_backend := b', lru_blocks := filter (\<lambda>e. fst e \<notin> set (take need idle)) (lru_blocks m) @ zip new ss,
          lru_events := add_event cpu_ops b1 (take need idle) True (lru_events m)\<rparr>)"
      "length ss = length new" "\<forall>s\<in>set ss. st_ref_cnt s = - 1" by blast
    then show ?thesis unfolding if_not_P [OF False] by (intro exI [of _ ss]) simp
  qed
qed

text \<open>C40. Store, then load. Let pairwise different hashes be asked for, of which those already present are ready,
  that is, no other store of them is still in flight. After the prepared store has completed, looking up
  these hashes finds all of them, those stored just now and those that were already there.\<close>

theorem lru_stored_blocks_are_found:
  assumes "0 \<le> n" and "n \<le> 2 ^ 63" and "(lru_step cpu_ops)\<^sup>*\<^sup>* (lru_start bsz n ev) m" and "distinct hs"
    and "lru_prepare_store cpu_ops hs m = Inr (Some out, m1)"
    and "\<forall>h\<in>set hs. \<forall>s. map_of (lru_blocks m) h = Some s \<longrightarrow> is_ready s"
  shows "\<exists>m2. lru_complete_store cpu_ops (block_hashes_to_store out) True m1 = Inr m2 \<and> lru_lookup hs m2 = int (length hs)"
  by (rule cpu.lru_store_round_trip [OF lru_from_start(1) [OF assms(1-3)] assms(4-6)])

section \<open>Witnesses\<close>

text \<open>Two blocks are stored in a back end of two and one of them is being read; then a third is stored.\<close>

definition lru_two :: "cpu_backend lru_manager res" where
  "lru_two = rbind (lru_prepare_store cpu_ops [[1], [2]] (lru_start 16 2 True)) (\<lambda>(out, m).
     rbind (lru_complete_store cpu_ops [[1], [2]] True m) (\<lambda>m. rbind (lru_prepare_load cpu_ops [[1]] m) (\<lambda>(spec, m). Inr m)))"

definition lru_two_fields :: "(status_dict \<times> int) option" where
  "lru_two_fields = (case lru_two of Inr m \<Rightarrow> Some (lru_blocks m, cpu_get_num_free_blocks (lru_backend m)) | Inl _ \<Rightarrow> None)"

lemma lru_two_fields: "lru_two_fields = Some ([([1], \<lparr>st_ref_cnt = 1, st_block_id = 0\<rparr>), ([2], \<lparr>st_ref_cnt = 0, st_block_id = 1\<rparr>)], 0)"
  by code_simp

lemma lru_two_reachable:
  obtains m where "lru_two = Inr m" and "(lru_step cpu_ops)\<^sup>*\<^sup>* (lru_start 16 2 True) m"
    and "lru_blocks m = [([1], \<lparr>st_ref_cnt = 1, st_block_id = 0\<rparr>), ([2], \<lparr>st_ref_cnt = 0, st_block_id = 1\<rparr>)]"
    and "cpu_get_num_free_blocks (lru_backend m) = 0"
proof -
  obtain m where m: "lru_two = Inr m" using lru_two_fields unfolding lru_two_fields_def by (auto split: sum.splits)
  then obtain out m1 m2 spec where st: "lru_prepare_store cpu_ops [[1], [2]] (lru_start 16 2 True) = Inr (out, m1)"
    "lru_complete_store cpu_ops [[1], [2]] True m1 = Inr m2" "lru_prepare_load cpu_ops [[1]] m2 = Inr (spec, m)"
    unfolding lru_two_def by (auto simp: rbind_eq_Inr_iff)
  then have steps: "lru_step cpu_ops (lru_start 16 2 True) m1" "lru_step cpu_ops m1 m2" "lru_step cpu_ops m2 m"
    using lru_step.Prepare_Store [OF _ st(1)] lru_step.Complete_Store [OF st(2)] lru_step.Prepare_Load [OF st(3)] by simp_all
  have "(lru_step cpu_ops)\<^sup>*\<^sup>* (lru_start 16 2 True) m"
    by (rule converse_rtranclp_into_rtranclp, rule steps(1), rule converse_rtranclp_into_rtranclp, rule steps(2), rule r_into_rtranclp, rule steps(3))
  moreover have "lru_blocks m = [([1], \<lparr>st_ref_cnt = 1, st_block_id = 0\<rparr>), ([2], \<lparr>st_ref_cnt = 0, st_block_id = 1\<rparr>)]"
    "cpu_get_num_free_blocks (lru_backend m) = 0"
    using lru_two_fields unfolding lru_two_fields_def m by simp_all
  ultimately show thesis using that m by blast
qed

theorem lru_blocks_conserved_witness:
  "\<exists>m. lru_two = Inr m \<and> length (lru_blocks m) = 2 \<and> int (length (lru_blocks m)) + cpu_get_num_free_blocks (lru_backend m) = 2"
proof -
  obtain m where m: "lru_two = Inr m" "(lru_step cpu_ops)\<^sup>*\<^sup>* (lru_start 16 2 True) m"
    "lru_blocks m = [([1], \<lparr>st_ref_cnt = 1, st_block_id = 0\<rparr>), ([2], \<lparr>st_ref_cnt = 0, st_block_id = 1\<rparr>)]" by (rule lru_two_reachable)
  have "int (length (lru_blocks m)) + cpu_get_num_free_blocks (lru_backend m) = 2" using lru_blocks_conserved [OF _ _ m(2)] by simp
  then show ?thesis using m(1,3) by (intro exI [of _ m]) simp
qed

theorem lru_store_contract_witness:
  "\<exists>m out m'. lru_two = Inr m \<and> lru_prepare_store cpu_ops [[3]] m = Inr (Some out, m') \<and> block_hashes_evicted out = [[2]] \<and>
     map fst (lru_blocks m') = [[1], [3]]"
proof -
  obtain m where m: "lru_two = Inr m" "(lru_step cpu_ops)\<^sup>*\<^sup>* (lru_start 16 2 True) m"
    "lru_blocks m = [([1], \<lparr>st_ref_cnt = 1, st_block_id = 0\<rparr>), ([2], \<lparr>st_ref_cnt = 0, st_block_id = 1\<rparr>)]"
    "cpu_get_num_free_blocks (lru_backend m) = 0" by (rule lru_two_reachable)
  have i: "[[2]] = evictable [[3]] (lru_blocks m)" "[[3]] = filter (\<lambda>h. h \<notin> fst ` set (lru_blocks m)) [[3]]" by (simp_all add: m(3) evictable_def)
  from lru_store_contract [OF _ _ m(2) _ i(2,1), of 1] obtain ss m' where
    "lru_prepare_store cpu_ops [[3]] m = Inr (Some \<lparr>block_hashes_to_store = [[3]], store_spec = cpu_get_load_store_spec [[3]] ss,
       block_hashes_evicted = take 1 [[2]]\<rparr>, m')"
    "lru_blocks m' = filter (\<lambda>e. fst e \<notin> set (take 1 [[2]])) (lru_blocks m) @ zip [[3]] ss" "length ss = length [[3 :: byte]]"
    using m(4) by auto
  then show ?thesis using m(1,3) by (cases ss) auto
qed

theorem lru_stored_blocks_are_found_witness:
  "\<exists>out m1 m2. lru_prepare_store cpu_ops [[1], [2]] (lru_start 16 2 True) = Inr (Some out, m1) \<and>
     lru_complete_store cpu_ops (block_hashes_to_store out) True m1 = Inr m2 \<and> lru_lookup [[1], [2]] m2 = 2"
proof -
  have "case lru_prepare_store cpu_ops [[1], [2]] (lru_start 16 2 True) of Inr (Some out, m) \<Rightarrow> True | _ \<Rightarrow> False" by code_simp
  then obtain out m1 where p: "lru_prepare_store cpu_ops [[1], [2]] (lru_start 16 2 True) = Inr (Some out, m1)"
    by (auto split: sum.splits option.splits)
  then show ?thesis using lru_stored_blocks_are_found [of 2 16 True "lru_start 16 2 True" "[[1], [2]]" out m1]
    by (auto simp: LRUOffloadingManager_def)
qed

end
