(* ===== verification/Spec2Isabelle.thy ===== *)
theory Spec2Isabelle
  imports Free_Queue DSA_Bundles DSA_Logical_Pool Request Block_Hash Block_Pool Cache_Hits Manager_Properties Cache_Manager_Properties Hybrid_Search LRU_Offload
begin

text \<open>
  A verification development for the key-value cache core of this fork of vLLM: the code under
  \<^verbatim>\<open>src/vllm/v1/core\<close> that decides which blocks of cache memory a request holds, which blocks a new
  request may share, and when a block may be given to someone else, and the offloading of blocks to
  host memory under \<^verbatim>\<open>src/vllm/v1/kv_offload\<close>.

  \<^bold>\<open>The program.\<close> The scheduler talks to \<^verbatim>\<open>KVCacheManager\<close>. It holds a coordinator, which holds one
  manager per cache group and one or several block pools. A manager keeps the table of blocks of every
  request and asks its pool for blocks. The block pool keeps a reference count per block, a doubly linked
  queue of free blocks in eviction order, and a map from block hashes to cached blocks. With the sparse
  attention of this fork, two groups of different page sizes share one region: a bundle allocator
  hands out bundles, and two logical pools cut the bundles into blocks.

  \<^bold>\<open>Conventions.\<close> An operation that may raise returns \<open>py_error + 'a\<close>; the state reached before an
  exception is not part of the result. State is passed explicitly. Block objects, which the code shares by reference,
  are addresses (\<open>blk\<close>) into a store of block records; the null block is \<open>Blk 0\<close>. Dictionaries whose order
  matters are association lists. Python integers are \<open>int\<close>; bytes are 8-bit words; the C fields of an offloaded
  block's status keep their 32 and 64 bits. Hash functions, digests of prompt embeddings, the sizes
  of data types and the environment are arguments of the definitions that use them.

  \<^bold>\<open>Theories and sources.\<close>
  \<^item> \<open>Prelude\<close>: exceptions, results, loops that may raise, Python's indexing and slicing, \<^verbatim>\<open>cdiv\<close>.
  \<^item> \<open>Free_Queue\<close> (\<^verbatim>\<open>kv_cache_utils.py\<close>: \<^verbatim>\<open>KVCacheBlock\<close>, \<^verbatim>\<open>FreeKVCacheBlockQueue\<close>): the linked queue
    refines a list, for every operation and every error; batched operations equal iterated ones. Locale
    \<open>free_list\<close> is the contract, interpreted as \<open>fq\<close>.
  \<^item> \<open>DSA_Bundles\<close> (\<^verbatim>\<open>dsa_shared_pool.py\<close>): the bundle layout and the best-fit range allocator; locale
    \<open>bundle_source\<close>, interpreted as \<open>dsa\<close>. Contracts of allocation and release, conservation over histories,
    the correspondence of bundles and block numbers.
  \<^item> \<open>DSA_Logical_Pool\<close> (\<^verbatim>\<open>block_pool.py\<close>: \<^verbatim>\<open>DSASharedLogicalBlockPool\<close>): the two pools over one allocator
    never hand out overlapping memory.
  \<^item> \<open>Request\<close> (\<^verbatim>\<open>request.py\<close>, \<^verbatim>\<open>sched/utils.py\<close>, stop parameters of \<^verbatim>\<open>sampling_params.py\<close>): the request, its
    status machine, the stop conditions and the detection of repetitions.
  \<^item> \<open>Block_Hash\<close> (\<^verbatim>\<open>kv_cache_utils.py\<close>, block hashes): equal hashes mean equal prefixes when the hash function
    does not collide, hashing incrementally equals hashing from scratch, keys with group ids, merged hash views.
  \<^item> \<open>Block_Pool\<close> (\<^verbatim>\<open>block_pool.py\<close>, events of \<^verbatim>\<open>kv_events.py\<close>): the pool invariant over all histories, the contracts of
    allocation, lookup, caching, eviction and reset.
  \<^item> \<open>KV_Spec\<close> (\<^verbatim>\<open>kv_cache_interface.py\<close>): cache specifications, page sizes, memory bounds, merging.
  \<^item> \<open>Pool_Ops\<close>: the pool interface of the managers as a record of operations, the locales \<open>kv_pool\<close> and
    \<open>caching_pool\<close> of what it promises, interpreted on the block pool (\<open>gpu\<close>) and on the logical pools (\<open>shared\<close>).
  \<^item> \<open>Single_Type_Managers\<close>, \<open>Manager_Invariants\<close>, \<open>Manager_Properties\<close>
    (\<^verbatim>\<open>single_type_kv_cache_manager.py\<close>): the managers of all attention types; reference counts over
    histories, sufficiency of the admission test, what the sliding releases give back. The lemmas are
    proved once over \<open>kv_pool\<close>.
  \<^item> \<open>Cache_Hits\<close> (\<^verbatim>\<open>find_longest_cache_hit\<close> of the managers): each search returns the longest usable prefix.
  \<^item> \<open>Coordinator\<close> (\<^verbatim>\<open>kv_cache_coordinator.py\<close>), \<open>KV_Cache_Manager\<close> (\<^verbatim>\<open>kv_cache_manager.py\<close>, the prefix-cache
    counters of \<^verbatim>\<open>metrics/stats.py\<close>): construction and every operation.
  \<^item> \<open>Coordinator_Invariants\<close>, \<open>Coordinator_Loops\<close>, \<open>Manager_Counts\<close>, \<open>Manager_Steps\<close>,
    \<open>Cache_Manager_Properties\<close>: each pool of a coordinator, with the others as a frame, satisfies \<open>kv_pool\<close>
    (interpretation \<open>group_pool\<close>); every loop over the managers, every operation and the constructor keep
    the reference counts; so over every history (\<open>kvm_step\<close>) a block's count is the number of table entries naming
    it, freeing a request succeeds, and the prefix cache can be reset exactly when no request holds a block.
  \<^item> \<open>Hybrid_Search\<close> (\<^verbatim>\<open>HybridKVCacheCoordinator.find_longest_cache_hit\<close>): the fixed-point search
    terminates and, under the conditions named below, returns the longest prefix all groups accept; with a second full attention group among three it
    hands out more blocks than it reports, which is shown on a concrete cache.
  \<^item> \<open>Offload_Backend\<close>, \<open>LRU_Offload\<close> (\<^verbatim>\<open>kv_offload/backend.py\<close>, \<^verbatim>\<open>backends/cpu.py\<close>, \<^verbatim>\<open>lru_manager.py\<close>): the
    contract of a back end as locale \<open>offload_backend\<close>, interpreted on the CPU back end as \<open>cpu\<close>; no block is
    lost or shared, eviction follows recency and spares blocks in use, stored blocks are found.

  \<^bold>\<open>Loops and termination.\<close> No definition uses fuel. Loops over lists are structural recursion or folds. The loops
  that Python writes with \<^verbatim>\<open>while\<close> are \<open>function\<close>s with a measure, or \<open>partial_function (option)\<close> where the
  source may not return on all inputs: the hash loop, which does not advance on a non-positive block size,
  and the hybrid search. For these it is proved that they return: \<open>hybrid_search_terminates\<close> and the hashing
  theorems state a result, not only partial correctness.

  \<^bold>\<open>Assumptions.\<close> The injectivity of the hash function where equal hashes should mean equal content; positive
  block sizes; for the theorems on the managers and the whole cache manager, configurations with positive sizes and
  without sink attention groups (\<open>manager_config_ok\<close>, \<open>cache_config_ok\<close>): the constructor accepts sink groups
  too, and they are modelled, but their blocks are taken from the free queue without a reference and so fall
  outside the counting; for the hybrid search, no drafting head, groups of full attention, sliding windows and
  Mamba only, with full attention in the first group alone or exactly two groups (\<open>hybrid_groups_ok\<close>); computed blocks
  handed to \<^verbatim>\<open>allocate_slots\<close> that a search has just returned (\<open>slots_ok\<close>); a CPU back end of at most
  two to the sixty-third blocks and stores of pairwise different hashes, found again if no other store of them is in flight. Every such theorem has a witness.

  \<^bold>\<open>Not modelled.\<close> The scheduler's step loop and its variants, which interleave the operations modelled here with
  connectors, grammars, clocks and logging; the start-up code of \<^verbatim>\<open>kv_cache_utils.py\<close> that sizes tensors from
  profiled memory; usage ratios in floating point, logging and sampled residency metrics, which change no state;
  the adaptive offloading policy, whose target is a floating-point number, the reuse filter and the transfer
  workers; engine processes, executors, workers, attention kernels, samplers, models, servers, key-value
  transfer and custom operators, which are tensor computation, network and process code against libraries
  outside the sources.
\<close>

end
